(* ===== verification/Prelude.thy ===== *)
theory Prelude
  imports Main "HOL-Library.Word" "HOL-Library.Monad_Syntax" "HOL-Library.Multiset"
begin

text \<open>
  Shared vocabulary of the development: machine integer types, pointers, the kernel-panic
  monad and the generic list and word lemmas that several components use.

  A kernel operation that can stop the machine (a failed \<open>ASSERT\<close>, a \<open>PANIC\<close>, the
  dereference of a null pointer) returns an \<open>option\<close>: \<open>None\<close> is the halted kernel,
  \<open>Some r\<close> the ordinary return. Loops whose termination depends on the shape of memory
  are \<open>partial_function (option)\<close>, so that \<open>Some\<close> also says that the loop stops.
\<close>

unbundle bit_operations_syntax

named_theorems panic_simps \<open>unfolding rules for the panic monad\<close>

type_synonym u8 = "8 word"
type_synonym u16 = "16 word"
type_synonym u32 = "32 word"
type_synonym u64 = "64 word"
type_synonym size_t = "32 word"
type_synonym ptr = "32 word"

abbreviation NULL :: ptr where "NULL \<equiv> 0"

text \<open>Two's complement wrap-around of signed integers.\<close>

definition wrap32 :: "int \<Rightarrow> int" where "wrap32 = signed_take_bit 31"
definition wrap64 :: "int \<Rightarrow> int" where "wrap64 = signed_take_bit 63"

subsection \<open>The panic monad\<close>

text \<open>\<open>ASSERT\<close> of \<open>lib/debug.h\<close>: \<open>PANIC\<close> unless the condition holds.\<close>

definition ASSERT :: "bool \<Rightarrow> unit option" where
  "ASSERT b = (if b then Some () else None)"

lemma ASSERT_True [simp, panic_simps]: "ASSERT True = Some ()"
  by (simp add: ASSERT_def)

lemma ASSERT_False [simp, panic_simps]: "ASSERT False = None"
  by (simp add: ASSERT_def)

lemma bind_ASSERT [simp, panic_simps]:
  "Option.bind (ASSERT b) f = (if b then f () else None)"
  by (simp add: ASSERT_def)

lemma ASSERT_eq_Some [simp]: "ASSERT b = Some u \<longleftrightarrow> b"
  by (simp add: ASSERT_def)

lemma bind_if_None [simp]:
  "Option.bind (if b then m else None) f = (if b then Option.bind m f else None)"
  by simp

end
