(* ===== verification/Klist_Order.thy ===== *)
theory Klist_Order
  imports Klist
begin

text \<open>
  The ordered operations of \<open>lib/kernel/list.c\<close>: the natural merge sort, ordered insertion,
  removal of duplicates, maximum and minimum.  Each loop of the code is related to a reference
  function on the sequence of elements (\<open>merge_runs\<close>, \<open>sort_pass\<close>, \<open>insert_after\<close>, \<open>uniq\<close>,
  \<open>pick\<close>) by induction on a chain of nodes.  The locale \<open>list_less\<close> is the contract
  of a \<open>list_less_func\<close>, a strict weak order; its extension \<open>ptr_less\<close> for element addresses
  holds the results that need it, among them that the sort terminates (every pass
  but the last one reduces the number of descents).  It is interpreted on
  \<open>default_list_less_func\<close>.
\<close>

subsection \<open>Reference definitions on HOL lists\<close>

text \<open>The stable merge of two runs; a run from the left wins ties.\<close>

fun merge_runs :: "('a \<Rightarrow> 'a \<Rightarrow> bool) \<Rightarrow> 'a list \<Rightarrow> 'a list \<Rightarrow> 'a list" where
  "merge_runs f [] ys = ys"
| "merge_runs f xs [] = xs"
| "merge_runs f (x # xs) (y # ys) =
     (if \<not> f y x then x # merge_runs f xs (y # ys) else y # merge_runs f (x # xs) ys)"

text \<open>The longest nondecreasing prefix of \<open>a # as\<close>, and the rest.\<close>

fun run_split :: "('a \<Rightarrow> 'a \<Rightarrow> bool) \<Rightarrow> 'a \<Rightarrow> 'a list \<Rightarrow> 'a list \<times> 'a list" where
  "run_split f a [] = ([a], [])"
| "run_split f a (b # bs) =
     (if f b a then ([a], b # bs) else (case run_split f b bs of (r, s) \<Rightarrow> (a # r, s)))"

lemma run_split_append: "run_split f a as = (r, s) \<Longrightarrow> a # as = r @ s"
  by (induction as arbitrary: a r s) (auto split: if_splits prod.splits)

lemma run_split_ne [simp]: "run_split f a as \<noteq> ([], s)"
  by (cases as) (auto split: if_splits prod.splits)

lemma run_split_length: "run_split f a as = (r, s) \<Longrightarrow> length s \<le> length as"
  using run_split_append [of f a as r s] by (cases r) auto

lemma run_split_hd: "run_split f a as = (r, s) \<Longrightarrow> r \<noteq> [] \<and> hd r = a"
  by (cases as) (auto split: if_splits prod.splits)

lemma run_split_successively:
  "run_split f a as = (r, s) \<Longrightarrow> successively (\<lambda>x y. \<not> f y x) r"
proof (induction as arbitrary: a r s)
  case (Cons b bs)
  obtain r' s' where "run_split f b bs = (r', s')" by fastforce
  with Cons run_split_hd [OF this] show ?case
    by (auto simp: successively_Cons split: if_splits)
qed simp

lemma run_split_descent: "run_split f a as = (r, b # s) \<Longrightarrow> f b (last r)"
proof (induction as arbitrary: a r)
  case (Cons c cs)
  obtain r' s' where "run_split f c cs = (r', s')" by fastforce
  with Cons run_split_hd [OF this] show ?case
    by (auto split: if_splits)
qed simp

text \<open>One pass: merge neighbouring runs pairwise; the second component counts the runs written.\<close>

function sort_pass :: "('a \<Rightarrow> 'a \<Rightarrow> bool) \<Rightarrow> 'a list \<Rightarrow> 'a list \<times> nat" where
  "sort_pass f [] = ([], 0)"
| "sort_pass f (x # xs) =
     (case run_split f x xs of
        (r1, []) \<Rightarrow> (x # xs, 1)
      | (r1, y # ys) \<Rightarrow>
          (case run_split f y ys of (r2, rest) \<Rightarrow>
             (case sort_pass f rest of (zs, n) \<Rightarrow> (merge_runs f r1 r2 @ zs, Suc n))))"
  by pat_completeness auto
termination
  by (relation "measure (\<lambda>(f, xs). length xs)") (auto dest!: run_split_length [OF sym])

declare sort_pass.simps(2) [simp del]

lemma sort_pass_one:
  "run_split f x xs = (r, []) \<Longrightarrow> sort_pass f (x # xs) = (x # xs, 1)"
  by (simp add: sort_pass.simps)

lemma sort_pass_two:
  "run_split f x xs = (r1, y # ys) \<Longrightarrow> run_split f y ys = (r2, rest) \<Longrightarrow>
   sort_pass f (x # xs) = (merge_runs f r1 r2 @ fst (sort_pass f rest), Suc (snd (sort_pass f rest)))"
  by (simp add: sort_pass.simps split_beta)

text \<open>Induction along the pairs of runs of a pass.\<close>

lemma run_pairs_induct [case_names Nil One Two]:
  assumes "P []"
    and "\<And>x xs. run_split f x xs = (x # xs, []) \<Longrightarrow> successively (\<lambda>a b. \<not> f b a) (x # xs) \<Longrightarrow> P (x # xs)"
    and "\<And>x xs y ys r1 r2 rest. run_split f x xs = (r1, y # ys) \<Longrightarrow> run_split f y ys = (r2, rest) \<Longrightarrow>
      x # xs = r1 @ r2 @ rest \<Longrightarrow> P rest \<Longrightarrow> P (x # xs)"
  shows "P xs"
proof (induction xs rule: length_induct)
  case (1 xs)
  show ?case
  proof (cases xs)
    case Nil
    then show ?thesis using assms(1) by simp
  next
    case (Cons x ys)
    obtain r1 s where r1: "run_split f x ys = (r1, s)" by fastforce
    note a1 = run_split_append [OF r1]
    show ?thesis
    proof (cases s)
      case Nil
      with r1 a1 have "run_split f x ys = (x # ys, [])" by simp
      from this run_split_successively [OF this] show ?thesis
        unfolding Cons by (rule assms(2))
    next
      case c: (Cons y zs)
      obtain r2 rest where r2: "run_split f y zs = (r2, rest)" by fastforce
      have "length rest < length xs"
        using run_split_length [OF r1] run_split_length [OF r2] Cons c by simp
      then have "P rest" using 1 by blast
      with assms(3) [of x ys r1 y zs r2 rest] r1 r2 run_split_append [OF r2] a1 c Cons
      show ?thesis by simp
    qed
  qed
qed

lemma mset_merge_runs [simp]: "mset (merge_runs f xs ys) = mset xs + mset ys"
  by (induction f xs ys rule: merge_runs.induct) auto

lemma set_merge_runs [simp]: "set (merge_runs f xs ys) = set xs \<union> set ys"
  by (metis mset_merge_runs set_mset_mset set_mset_union)

lemma merge_runs_ne [simp]: "merge_runs f xs ys = [] \<longleftrightarrow> xs = [] \<and> ys = []"
  by (induction f xs ys rule: merge_runs.induct) auto

lemma mset_sort_pass: "mset (fst (sort_pass f xs)) = mset xs"
proof (induction xs rule: run_pairs_induct [where f = f])
  case (Two x xs y ys r1 r2 rest)
  from Two(4) have "mset (fst (sort_pass f (x # xs))) = mset (r1 @ r2 @ rest)"
    by (simp add: sort_pass_two [OF Two(1,2)])
  then show ?case by (simp only: Two(3))
qed (simp_all add: sort_pass_one)

lemma sort_pass_count: "snd (sort_pass f xs) \<le> length xs"
proof (induction xs rule: run_pairs_induct [where f = f])
  case (Two x xs y ys r1 r2 rest)
  have "length rest < length (x # xs)" using Two(3) run_split_hd [OF Two(1)] by (simp only: Two(3)) simp
  with Two(4) show ?case by (simp add: sort_pass_two [OF Two(1,2)])
qed (simp_all add: sort_pass_one)

subsection \<open>The loops on a chain\<close>

lemma hd_next:
  assumes "chain h (ps @ a # as @ c # qs)"
  shows "list_next h a = Some (hd (as @ [c]))"
  using list_next_chain [of h ps a "hd (as @ [c])" "tl (as @ [c]) @ qs"] assms
  by (cases as) simp_all

lemma chain_ne:
  "chain h (ps @ a # as @ c # qs) \<Longrightarrow> a \<noteq> c"
  "chain h (ps @ a # as @ c # qs) \<Longrightarrow> b \<in> set as \<Longrightarrow> a \<noteq> b \<and> b \<noteq> c"
  using chain_distinct [of h "ps @ a # as @ c # qs"] by auto

lemma is_sorted_loop_chain:
  "chain h (ps @ a # as @ c # qs) \<Longrightarrow>
    is_sorted_loop h f a c = Some (successively (\<lambda>x y. \<not> f y x) (a # as))"
proof (induction as arbitrary: ps a)
  case Nil
  then show ?case using hd_next [OF Nil] by (simp add: is_sorted_loop.simps)
next
  case (Cons b bs)
  have "b \<noteq> c" using chain_ne(2) [OF Cons.prems] by simp
  moreover have "list_prev h b = Some a"
    using list_prev_chain [of h ps a b "bs @ c # qs"] Cons.prems by simp
  ultimately show ?case
    using hd_next [OF Cons.prems] Cons.IH [of "ps @ [a]" b] Cons.prems
    by (simp add: is_sorted_loop.simps [of h f a])
qed

lemma find_end_of_run_loop_chain:
  "chain h (ps @ a # as @ c # qs) \<Longrightarrow>
    find_end_of_run_loop h f a c = Some (hd (snd (run_split f a as) @ [c]))"
proof (induction as arbitrary: ps a)
  case Nil
  then show ?case using hd_next [OF Nil] by (simp add: find_end_of_run_loop.simps)
next
  case (Cons b bs)
  have "b \<noteq> c" using chain_ne(2) [OF Cons.prems] by simp
  moreover have "list_prev h b = Some a"
    using list_prev_chain [of h ps a b "bs @ c # qs"] Cons.prems by simp
  ultimately show ?case
    using hd_next [OF Cons.prems] Cons.IH [of "ps @ [a]" b] Cons.prems
    by (simp add: find_end_of_run_loop.simps [of h f a] split_beta)
qed

lemma find_end_of_run_chain:
  assumes "chain h (ps @ a # as @ c # qs)"
  shows "find_end_of_run h f a c = Some (hd (snd (run_split f a as) @ [c]))"
  using find_end_of_run_loop_chain [OF assms] chain_ne(1) [OF assms] chain_NULL [OF assms]
  by (auto simp: find_end_of_run_def)

lemma inplace_merge_loop_chain:
  "chain h (ps @ q # as @ bs @ c # qs) \<Longrightarrow>
    \<exists>h'. inplace_merge_loop h f (hd (as @ bs @ [c])) (hd (bs @ [c])) c = Some h' \<and>
      chain h' (ps @ q # merge_runs f as bs @ c # qs) \<and>
      same_except (set (ps @ q # as @ bs @ c # qs)) h h'"
proof (induction f as bs arbitrary: ps q h rule: merge_runs.induct)
  case (1 f ys)
  then show ?case by (intro exI [of _ h]) (simp add: inplace_merge_loop.simps same_except_def)
next
  case (2 f x xs)
  then show ?case by (intro exI [of _ h]) (simp add: inplace_merge_loop.simps same_except_def)
next
  case (3 f x xs y ys)
  have ne: "x \<noteq> y" "y \<noteq> c"
    using chain_distinct [OF "3.prems"] by auto
  show ?case
  proof (cases "f y x")
    case False
    have "list_next h x = Some (hd (xs @ y # ys @ [c]))"
      using hd_next [of h "ps @ [q]" x "xs @ y # ys" c qs] "3.prems" by simp
    with "3.IH"(1) [OF False, of h "ps @ [q]" x] show ?thesis using False ne "3.prems"
      by (simp add: inplace_merge_loop.simps [of h f x])
  next
    case True
    obtain z zs where z: "ys @ c # qs = z # zs" "z = hd (ys @ [c])"
      by (cases ys) auto
    have nx: "list_next h y = Some z"
      using hd_next [of h "ps @ q # x # xs" y ys c qs] "3.prems" z by simp
    have pv: "list_prev h z = Some y"
      using list_prev_chain [of h "ps @ q # x # xs" y z zs] "3.prems" z by simp
    obtain h1 where h1: "list_splice h x y z = Some h1" "chain h1 (ps @ q # y # x # xs @ z # zs)"
      "same_except (set (q # x # xs @ [y, z])) h h1"
      using chain_move [of h ps q x xs y z zs] "3.prems" z by auto
    obtain h' where h': "inplace_merge_loop h1 f x z c = Some h'"
      "chain h' (ps @ q # y # merge_runs f (x # xs) ys @ c # qs)"
      "same_except (set (ps @ q # y # x # xs @ ys @ c # qs)) h1 h'"
      using "3.IH"(2) [of h1 "ps @ [q]" y] True h1(2) z by auto
    have "z \<in> set (ys @ c # qs)" using z(1) by simp
    then have "same_except (set (ps @ q # y # x # xs @ ys @ c # qs)) h h'"
      by (intro same_except_trans [OF same_except_mono [OF h1(3)] h'(3)]) auto
    then have "same_except (set (ps @ q # (x # xs) @ (y # ys) @ c # qs)) h h'"
      by (rule same_except_mono) auto
    with h' show ?thesis using True ne nx pv h1 
      by (intro exI [of _ h']) (simp add: inplace_merge_loop.simps [of h f x])
  qed
qed

lemma is_sorted_chain:
  assumes "chain h (ps @ as @ c # qs)"
  shows "is_sorted h f (hd (as @ [c])) c = Some (successively (\<lambda>x y. \<not> f y x) as)"
  using assms is_sorted_loop_chain [of h ps "hd as" "tl as" c qs]
    chain_ne(1) [of h ps "hd as" "tl as" c qs]
  by (cases as) (simp_all add: is_sorted_def)

lemma inplace_merge_chain:
  assumes ch: "chain h (ps @ q # as @ bs @ c # qs)" and ne: "as \<noteq> []" "bs \<noteq> []"
    and so: "successively (\<lambda>x y. \<not> f y x) as" "successively (\<lambda>x y. \<not> f y x) bs"
  shows "\<exists>h'. inplace_merge h f (hd as) (hd bs) c = Some h' \<and>
      chain h' (ps @ q # merge_runs f as bs @ c # qs) \<and>
      same_except (set (ps @ q # as @ bs @ c # qs)) h h'"
proof -
  have "is_sorted h f (hd as) (hd bs) = Some True"
    using is_sorted_chain [of h "ps @ [q]" as "hd bs" "tl bs @ c # qs" f] ch ne so
    by (cases bs) simp_all
  moreover have "is_sorted h f (hd bs) c = Some True"
    using is_sorted_chain [of h "ps @ q # as" bs c qs f] ch ne so by simp
  moreover have "hd as \<noteq> NULL" "hd bs \<noteq> NULL" "c \<noteq> NULL"
    using chain_not_null [OF ch] ne by auto
  ultimately show ?thesis
    using inplace_merge_loop_chain [OF ch, of f] ne by (simp add: inplace_merge_def)
qed

lemma list_sort_pass_chain:
  "chain h (ps @ q # xs @ c # qs) \<Longrightarrow>
    \<exists>h'. list_sort_pass h f (hd (xs @ [c])) c k = Some (k + of_nat (snd (sort_pass f xs)), h') \<and>
      chain h' (ps @ q # fst (sort_pass f xs) @ c # qs) \<and>
      same_except (set (ps @ q # xs @ c # qs)) h h'"
proof (induction xs arbitrary: ps q h k rule: run_pairs_induct [where f = f])
  case Nil
  then show ?case by (intro exI [of _ h]) (simp add: list_sort_pass.simps same_except_def)
next
  case (One x xs)
  have "find_end_of_run h f x c = Some c"
    using find_end_of_run_chain [of h "ps @ [q]" x xs c qs f] One(1,3) by simp
  then show ?case using One chain_ne(1) [of h "ps @ [q]" x xs c qs]
    by (intro exI [of _ h]) (simp add: list_sort_pass.simps sort_pass_one same_except_def)
next
  case (Two x xs y ys r1 r2 rest)
  note r1 = run_split_hd [OF Two(1)] and r2 = run_split_hd [OF Two(2)]
  have ys: "y # ys = r2 @ rest" using run_split_append [OF Two(2)] .
  have ch: "chain h (ps @ q # r1 @ r2 @ rest @ c # qs)"
    using Two(5) by (simp only: Two(3) append_assoc)
  have e1: "find_end_of_run h f x c = Some y"
    using find_end_of_run_chain [of h "ps @ [q]" x xs c qs f] Two(1,5) by simp
  have "chain h ((ps @ q # r1) @ (y # ys) @ c # qs)" using ch by (simp only: ys append_assoc append_Cons)
  then have e2: "find_end_of_run h f y c = Some (hd (rest @ [c]))" "y \<noteq> c"
    using find_end_of_run_chain [of h "ps @ q # r1" y ys c qs f]
      chain_ne(1) [of h "ps @ q # r1" y ys c qs] Two(2) by simp_all
  obtain z zs where z: "rest @ c # qs = z # zs" "z = hd (rest @ [c])"
    by (cases rest) auto
  obtain h1 where h1: "inplace_merge h f x y z = Some h1"
    "chain h1 (ps @ q # merge_runs f r1 r2 @ z # zs)" "same_except (set (ps @ q # r1 @ r2 @ z # zs)) h h1"
    using inplace_merge_chain [of h ps q r1 r2 z zs f] ch z r1 r2
      run_split_successively [OF Two(1)] run_split_successively [OF Two(2)] by auto
  let ?m = "merge_runs f r1 r2"
  obtain ms m where m: "?m = ms @ [m]" using r1 by (cases ?m rule: rev_cases) auto
  obtain h' where h': "list_sort_pass h1 f z c (k + 1) = Some (k + 1 + of_nat (snd (sort_pass f rest)), h')"
    "chain h' (ps @ q # ?m @ fst (sort_pass f rest) @ c # qs)"
    "same_except (set (ps @ q # ?m @ rest @ c # qs)) h1 h'"
    using Two(4) [of h1 "ps @ q # ms" m "k + 1"] h1(2) z m by auto
  have "same_except (set (ps @ q # (r1 @ r2 @ rest) @ c # qs)) h h'"
    using h1(3) h'(3) z(1) [symmetric] by (simp add: same_except_def)
  then have "same_except (set (ps @ q # (x # xs) @ c # qs)) h h'" by (simp only: Two(3))
  then show ?case
    using h1 h' e1 e2 z(2) Two(5) chain_ne(1) [of h "ps @ [q]" x xs c qs]
    by (intro exI [of _ h'])
      (simp add: list_sort_pass.simps [of h f x] sort_pass_two [OF Two(1,2)] add.assoc)
qed

subsection \<open>Ordered lists\<close>

text \<open>
  The contract of a \<open>list_less_func\<close>: a strict weak order.  Everything the ordered
  operations of \<open>list.c\<close> promise follows from these two laws.
\<close>

definition descents :: "('a \<Rightarrow> 'a \<Rightarrow> bool) \<Rightarrow> 'a list \<Rightarrow> nat" where
  "descents f xs = length (filter (\<lambda>(a, b). f b a) (zip xs (tl xs)))"

lemma descents_simps [simp]:
  "descents f [] = 0"
  "descents f [a] = 0"
  "descents f (a # b # xs) = (if f b a then 1 else 0) + descents f (b # xs)"
  by (simp_all add: descents_def)

lemma descents_append:
  "descents f (xs @ ys) = descents f xs + descents f ys +
    (if xs \<noteq> [] \<and> ys \<noteq> [] \<and> f (hd ys) (last xs) then 1 else 0)"
proof (induction xs)
  case (Cons x xs)
  then show ?case by (cases xs; cases ys) auto
qed simp

lemma descents_zero: "descents f xs = 0 \<longleftrightarrow> successively (\<lambda>a b. \<not> f b a) xs"
proof (induction xs)
  case (Cons x xs)
  then show ?case by (cases xs) auto
qed simp

lemma sort_pass_input: "2 * snd (sort_pass f xs) \<le> descents f xs + 2"
proof (induction xs rule: run_pairs_induct [where f = f])
  case (Two x xs y ys r1 r2 rest)
  note r1 = run_split_hd [OF Two(1)] and r2 = run_split_hd [OF Two(2)]
  have ys: "y # ys = r2 @ rest" using run_split_append [OF Two(2)] .
  have d1: "f (hd (r2 @ rest)) (last r1)"
    using run_split_descent [OF Two(1)] by (simp only: ys [symmetric] list.sel)
  have d2: "rest \<noteq> [] \<Longrightarrow> f (hd rest) (last r2)"
    using run_split_descent [of f y ys r2 "hd rest" "tl rest"] Two(2) by simp
  have "descents f (r1 @ r2 @ rest) \<ge> descents f rest + (if rest = [] then 1 else 2)"
    using d1 d2 r1 r2 by (simp add: descents_append)
  moreover have "snd (sort_pass f (x # xs)) = Suc (snd (sort_pass f rest))"
    by (simp add: sort_pass_two [OF Two(1,2)])
  ultimately show ?case
    using Two(4) unfolding Two(3) by (cases "rest = []") simp_all
qed (simp_all add: sort_pass_one)

lemma merge_induct [case_names Nil1 Nil2 Left Right]:
  fixes f :: "'a \<Rightarrow> 'a \<Rightarrow> bool"
  assumes "\<And>ys. P [] ys" "\<And>x xs. P (x # xs) []"
    and "\<And>x xs y ys. \<not> f y x \<Longrightarrow> P xs (y # ys) \<Longrightarrow> P (x # xs) (y # ys)"
    and "\<And>x xs y ys. f y x \<Longrightarrow> P (x # xs) ys \<Longrightarrow> P (x # xs) (y # ys)"
  shows "P xs ys"
  using assms by (induction f xs ys rule: merge_runs.induct) blast+

definition ordered_by :: "('a \<Rightarrow> 'a \<Rightarrow> bool) \<Rightarrow> 'a list \<Rightarrow> bool" where
  "ordered_by f = sorted_wrt (\<lambda>a b. \<not> f b a)"

definition eqv_by :: "('a \<Rightarrow> 'a \<Rightarrow> bool) \<Rightarrow> 'a \<Rightarrow> 'a \<Rightarrow> bool" where
  "eqv_by f a b \<longleftrightarrow> \<not> f a b \<and> \<not> f b a"

lemma ordered_by_simps [simp]:
  "ordered_by f []"
  "ordered_by f (x # xs) \<longleftrightarrow> (\<forall>y\<in>set xs. \<not> f y x) \<and> ordered_by f xs"
  by (auto simp: ordered_by_def)

locale list_less =
  fixes f :: "'a \<Rightarrow> 'a \<Rightarrow> bool"
  assumes asym: "f a b \<Longrightarrow> \<not> f b a"
    and neg_trans: "\<not> f a b \<Longrightarrow> \<not> f b c \<Longrightarrow> \<not> f a c"
begin

lemma ordered_successively: "successively (\<lambda>a b. \<not> f b a) xs = ordered_by f xs"
  unfolding ordered_by_def
  by (rule successively_conv_sorted_wrt) (use neg_trans in \<open>unfold transp_def, blast\<close>)

lemma ordered_merge_runs: "ordered_by f xs \<Longrightarrow> ordered_by f ys \<Longrightarrow> ordered_by f (merge_runs f xs ys)"
  by (induction xs ys rule: merge_induct [where f = f]) (auto dest: asym, (use asym neg_trans in blast)+)

lemma eqv_less: "eqv_by f k a \<Longrightarrow> f b a \<Longrightarrow> \<not> eqv_by f k b"
  unfolding eqv_by_def using neg_trans by blast

lemma stable_merge_runs:
  "ordered_by f xs \<Longrightarrow> ordered_by f ys \<Longrightarrow>
    filter (eqv_by f k) (merge_runs f xs ys) = filter (eqv_by f k) xs @ filter (eqv_by f k) ys"
proof (induction xs ys rule: merge_induct [where f = f])
  case (Right x xs y ys)
  have "\<not> f a x \<Longrightarrow> eqv_by f k y \<Longrightarrow> \<not> eqv_by f k a" for a
    using Right(1) neg_trans unfolding eqv_by_def by blast
  then have "eqv_by f k y \<Longrightarrow> filter (eqv_by f k) (x # xs) = []"
    using Right(3) asym unfolding filter_empty_conv by auto
  with Right show ?case by auto
qed auto

lemma sort_pass_output:
  "xs \<noteq> [] \<Longrightarrow> fst (sort_pass f xs) \<noteq> [] \<and> Suc (descents f (fst (sort_pass f xs))) \<le> snd (sort_pass f xs)"
proof (induction xs rule: run_pairs_induct [where f = f])
  case (One x xs)
  then show ?case by (simp add: sort_pass_one descents_zero del: successively.simps)
next
  case (Two x xs y ys r1 r2 rest)
  have "descents f (merge_runs f r1 r2) = 0"
    using ordered_merge_runs [of r1 r2] run_split_successively [OF Two(1)] run_split_successively [OF Two(2)]
    by (simp add: descents_zero ordered_successively)
  with Two(4) run_split_hd [OF Two(1)] show ?case
    by (cases "rest = []") (auto simp: sort_pass_two [OF Two(1,2)] descents_append)
qed simp

lemma stable_sort_pass: "filter (eqv_by f k) (fst (sort_pass f xs)) = filter (eqv_by f k) xs"
proof (induction xs rule: run_pairs_induct [where f = f])
  case (Two x xs y ys r1 r2 rest)
  from Two(4) have "filter (eqv_by f k) (fst (sort_pass f (x # xs))) = filter (eqv_by f k) (r1 @ r2 @ rest)"
    using stable_merge_runs [of r1 r2 k] run_split_successively [OF Two(1)] run_split_successively [OF Two(2)]
    by (simp add: sort_pass_two [OF Two(1,2)] ordered_successively)
  then show ?case by (simp only: Two(3))
qed (simp_all add: sort_pass_one)

end

lemma list_sort_pass_is_list:
  assumes "is_list h l xs"
  shows "\<exists>h'. list_sort_pass h f (hd (xs @ [l + 8])) (l + 8) 0 = Some (of_nat (snd (sort_pass f xs)), h') \<and>
      is_list h' l (fst (sort_pass f xs)) \<and> same_except (set (nodes l xs)) h h'"
  using list_sort_pass_chain [of h "[]" l xs "l + 8" "[]" f 0] assms
  by (simp add: is_list_def nodes_def)

lemma sort_pass_count_word:
  assumes "is_list h l xs"
  shows "(of_nat (snd (sort_pass f xs)) > (1 :: size_t)) = (snd (sort_pass f xs) > 1)"
proof -
  have "snd (sort_pass f xs) < 2 ^ 32"
    using sort_pass_count [of f xs] is_list_length [OF assms] by simp
  then show ?thesis by (simp add: word_less_nat_alt unsigned_of_nat take_bit_nat_eq_self)
qed

lemma is_sorted_is_list:
  "is_list h l xs \<Longrightarrow> is_sorted h f (hd (xs @ [l + 8])) (l + 8) = Some (successively (\<lambda>a b. \<not> f b a) xs)"
  using is_sorted_chain [of h "[l]" xs "l + 8" "[]" f] by (simp add: is_list_def nodes_def)

lemma nodes_mset_cong: "mset zs = mset xs \<Longrightarrow> set (nodes l zs) = set (nodes l xs)"
  by (auto simp: nodes_def dest: mset_eq_setD)

subsection \<open>Ordered operations on a list of elements\<close>

text \<open>The reference results of \<open>list_insert_ordered\<close>, \<open>list_max\<close>, \<open>list_min\<close> and \<open>list_unique\<close>.\<close>

fun insert_after :: "('a \<Rightarrow> 'a \<Rightarrow> bool) \<Rightarrow> 'a \<Rightarrow> 'a list \<Rightarrow> 'a list" where
  "insert_after f e [] = [e]"
| "insert_after f e (x # xs) = (if f e x then e # x # xs else x # insert_after f e xs)"

definition pick :: "('a \<Rightarrow> 'a \<Rightarrow> bool) \<Rightarrow> 'a \<Rightarrow> 'a list \<Rightarrow> 'a" where
  "pick better = foldl (\<lambda>m e. if better m e then e else m)"

fun uniq :: "('a \<Rightarrow> 'a \<Rightarrow> bool) \<Rightarrow> 'a \<Rightarrow> 'a list \<Rightarrow> 'a list \<times> 'a list" where
  "uniq f x [] = ([x], [])"
| "uniq f x (y # ys) =
     (if eqv_by f x y then (case uniq f x ys of (ks, ds) \<Rightarrow> (ks, y # ds))
      else (case uniq f y ys of (ks, ds) \<Rightarrow> (x # ks, ds)))"

lemma mset_insert_after [simp]: "mset (insert_after f e xs) = add_mset e (mset xs)"
  by (induction xs) auto

lemma insert_after_split:
  "insert_after f e xs = takeWhile (\<lambda>x. \<not> f e x) xs @ e # dropWhile (\<lambda>x. \<not> f e x) xs"
  by (induction xs) auto

lemma sorted_dropWhile:
  "sorted (map c xs) \<Longrightarrow> \<forall>b\<in>set (dropWhile (\<lambda>x. c x \<le> (k :: int)) xs). k < c b"
  by (induction xs) auto

lemma set_insert_after: "set (insert_after f e xs) = insert e (set xs)"
  by (induction xs) auto

locale ptr_less = list_less f for f :: "ptr \<Rightarrow> ptr \<Rightarrow> bool"
begin

lemma list_sort_loop_is_list:
  "is_list h l xs \<Longrightarrow> \<exists>h' zs. list_sort_loop h l f = Some h' \<and> is_list h' l zs \<and>
    mset zs = mset xs \<and> ordered_by f zs \<and> (\<forall>k. filter (eqv_by f k) zs = filter (eqv_by f k) xs) \<and>
    same_except (set (nodes l xs)) h h'"
proof (induction "descents f xs" arbitrary: h xs rule: less_induct)
  case less
  let ?n = "snd (sort_pass f xs)" and ?ys = "fst (sort_pass f xs)"
  note out = sort_pass_output [of xs]
    and st = stable_sort_pass [of _ xs]
    and oy = ordered_successively [of ?ys]
  obtain h1 where h1: "list_sort_pass h f (hd (xs @ [l + 8])) (l + 8) 0 = Some (of_nat ?n, h1)"
    "is_list h1 l ?ys" "same_except (set (nodes l xs)) h h1"
    using list_sort_pass_is_list [OF less.prems] by blast
  have step: "list_sort_loop h l f = (if ?n > 1 then list_sort_loop h1 l f else Some h1)"
    using h1(1) less.prems sort_pass_count_word [OF less.prems, of f]
    by (simp add: list_sort_loop.simps [of h] list_end_def)
  show ?case
  proof (cases "?n > 1")
    case True
    then have "descents f ?ys < descents f xs"
      using out sort_pass_input [of f xs] by (cases xs) auto
    from less.hyps [OF this h1(2)] obtain h' zs where h': "list_sort_loop h1 l f = Some h'"
      "is_list h' l zs" "mset zs = mset ?ys" "ordered_by f zs"
      "\<forall>k. filter (eqv_by f k) zs = filter (eqv_by f k) ?ys" "same_except (set (nodes l ?ys)) h1 h'"
      by blast
    have "same_except (set (nodes l xs)) h h'"
      using h1(3) h'(6) nodes_mset_cong [OF mset_sort_pass [of f xs], of l] same_except_trans by simp
    with h' True step st mset_sort_pass [of f xs] show ?thesis by auto
  next
    case False
    then have "descents f ?ys = 0" using out by (cases "xs = []") auto
    then have "ordered_by f ?ys" using oy by (simp add: descents_zero)
    with h1 False step st mset_sort_pass [of f xs] show ?thesis by auto
  qed
qed

lemma list_sort_is_list:
  assumes "is_list h l xs"
  shows "\<exists>h' zs. list_sort h l f = Some h' \<and> is_list h' l zs \<and>
    mset zs = mset xs \<and> ordered_by f zs \<and> (\<forall>k. filter (eqv_by f k) zs = filter (eqv_by f k) xs) \<and>
    same_except (set (nodes l xs)) h h'"
proof -
  from list_sort_loop_is_list [OF assms] obtain h' zs where h': "list_sort_loop h l f = Some h'"
    "is_list h' l zs" "mset zs = mset xs" "ordered_by f zs"
    "\<forall>k. filter (eqv_by f k) zs = filter (eqv_by f k) xs" "same_except (set (nodes l xs)) h h'"
    by blast
  have "list_sort h l f = Some h'"
    using h' is_sorted_is_list [OF h'(2), of f] is_list_not_null(1) [OF assms]
    by (simp add: list_sort_def list_end_def ordered_successively)
  with h' show ?thesis by blast
qed

lemma insert_after_ordered: "ordered_by f xs \<Longrightarrow> ordered_by f (insert_after f e xs)"
proof (induction xs)
  case (Cons x xs)
  have "f e x \<Longrightarrow> \<not> f y x \<Longrightarrow> \<not> f y e" for y
    using asym neg_trans by blast
  with Cons show ?case by (auto simp: set_insert_after dest: asym)
qed simp

lemma irrefl: "\<not> f a a"
  using asym by blast

lemma pick_max: "x \<in> set (m # xs) \<Longrightarrow> \<not> f (pick f m xs) x"
proof (induction xs arbitrary: m x)
  case Nil
  then show ?case by (simp add: pick_def irrefl)
next
  case (Cons y xs)
  let ?m = "if f m y then y else m"
  have p: "pick f m (y # xs) = pick f ?m xs" by (simp add: pick_def)
  have "\<not> f ?m m" "\<not> f ?m y" using asym irrefl by auto
  with Cons.IH [of ?m ?m] neg_trans have "\<not> f (pick f ?m xs) m" "\<not> f (pick f ?m xs) y"
    by (blast intro: list.set_intros)+
  with Cons.IH [of x ?m] Cons.prems show ?case unfolding p by auto
qed

lemma pick_min: "x \<in> set (m # xs) \<Longrightarrow> \<not> f x (pick (\<lambda>a b. f b a) m xs)"
proof (induction xs arbitrary: m x)
  case Nil
  then show ?case by (simp add: pick_def irrefl)
next
  case (Cons y xs)
  let ?m = "if f y m then y else m" and ?p = "pick (\<lambda>a b. f b a)"
  have p: "?p m (y # xs) = ?p ?m xs" by (simp add: pick_def)
  have "\<not> f m ?m" "\<not> f y ?m" using asym irrefl by auto
  with Cons.IH [of ?m ?m] neg_trans have "\<not> f m (?p ?m xs)" "\<not> f y (?p ?m xs)"
    by (blast intro: list.set_intros)+
  with Cons.IH [of x ?m] Cons.prems show ?case unfolding p by auto
qed

end

lemma pick_in: "pick better m xs \<in> set (m # xs)"
  by (induction xs arbitrary: m) (auto simp: pick_def)

lemma list_insert_ordered_loop_is_list:
  "is_list h l (ps @ xs) \<Longrightarrow> \<exists>as bs. xs = as @ bs \<and> insert_after f e xs = as @ e # bs \<and>
     list_insert_ordered_loop h f e (hd (xs @ [l + 8])) (l + 8) = Some (hd (bs @ [l + 8]))"
proof (induction xs arbitrary: ps)
  case Nil
  then show ?case by (simp add: list_insert_ordered_loop.simps)
next
  case (Cons x xs)
  show ?case
  proof (cases "f e x")
    case True
    then show ?thesis
      by (intro exI [of _ "[]"] exI [of _ "x # xs"]) (simp add: list_insert_ordered_loop.simps)
  next
    case False
    obtain as bs where "xs = as @ bs" "insert_after f e xs = as @ e # bs"
     "list_insert_ordered_loop h f e (hd (xs @ [l + 8])) (l + 8) = Some (hd (bs @ [l + 8]))"
      using Cons.IH [of "ps @ [x]"] Cons.prems by auto
    with False show ?thesis
      using list_next_is_list [OF Cons.prems] hd_nodes_not_end [OF Cons.prems]
      by (intro exI [of _ "x # as"] exI [of _ bs]) (simp add: list_insert_ordered_loop.simps [of h f e x])
  qed
qed

lemma list_insert_ordered_is_list:
  assumes "is_list h l xs" "e \<notin> set (nodes l xs)" "e \<noteq> NULL"
  shows "\<exists>h'. list_insert_ordered h l e f = Some h' \<and> is_list h' l (insert_after f e xs) \<and>
     same_except (insert e (set (nodes l xs))) h h'"
proof -
  obtain as bs where ab: "xs = as @ bs" "insert_after f e xs = as @ e # bs"
     "list_insert_ordered_loop h f e (hd (xs @ [l + 8])) (l + 8) = Some (hd (bs @ [l + 8]))"
    using list_insert_ordered_loop_is_list [of h l "[]" xs f e] assms(1) by auto
  with list_insert_is_list [of h l as bs e] assms is_list_not_null [OF assms(1)] show ?thesis
    by (simp add: list_insert_ordered_def list_end_def)
qed

lemma list_max_loop_is_list:
  "is_list h l (ps @ xs) \<Longrightarrow> list_max_loop h f m (hd (xs @ [l + 8])) (l + 8) = Some (pick f m xs)"
proof (induction xs arbitrary: ps m)
  case Nil
  then show ?case by (simp add: list_max_loop.simps pick_def)
next
  case (Cons x xs)
  from Cons.IH [of "ps @ [x]"] Cons.prems show ?case
    by (simp add: list_max_loop.simps [of h f _ x] list_next_is_list [OF Cons.prems]
        hd_nodes_not_end [OF Cons.prems] pick_def)
qed

lemma list_min_loop_is_list:
  "is_list h l (ps @ xs) \<Longrightarrow>
    list_min_loop h f m (hd (xs @ [l + 8])) (l + 8) = Some (pick (\<lambda>a b. f b a) m xs)"
proof (induction xs arbitrary: ps m)
  case Nil
  then show ?case by (simp add: list_min_loop.simps pick_def)
next
  case (Cons x xs)
  from Cons.IH [of "ps @ [x]"] Cons.prems show ?case
    by (simp add: list_min_loop.simps [of h f _ x] list_next_is_list [OF Cons.prems]
        hd_nodes_not_end [OF Cons.prems] pick_def)
qed

lemma list_max_min_is_list:
  assumes "is_list h l (x # xs)"
  shows list_max_is_list: "list_max h l f = Some (pick f x xs)"
    and list_min_is_list: "list_min h l f = Some (pick (\<lambda>a b. f b a) x xs)"
  using list_max_loop_is_list [of h l "[x]" xs f x] list_min_loop_is_list [of h l "[x]" xs f x]
    assms list_next_is_list [of h l "[]" x xs] hd_nodes_not_end [of h l "[]" x xs]
  by (simp_all add: list_max_def list_min_def list_end_def)

lemma list_max_min_empty:
  "is_list h l [] \<Longrightarrow> list_max h l f = Some (l + 8)" "is_list h l [] \<Longrightarrow> list_min h l f = Some (l + 8)"
  by (simp_all add: list_max_def list_min_def list_end_def)

subsection \<open>Removal of duplicates\<close>

definition dup_list :: "heap \<Rightarrow> ptr \<Rightarrow> ptr list \<Rightarrow> bool" where
  "dup_list h d ds \<longleftrightarrow> d = NULL \<or> is_list h d ds"

definition dup_nodes :: "ptr \<Rightarrow> ptr list \<Rightarrow> ptr set" where
  "dup_nodes d ds = (if d = NULL then {} else set (nodes d ds))"

text \<open>One removal: the duplicate leaves the list and joins the duplicates.\<close>

lemma list_unique_step:
  assumes "is_list h l (ps @ x # y # ys)" "dup_list h d ds"
    and "set (nodes l (ps @ x # y # ys)) \<inter> dup_nodes d ds = {}"
  shows "\<exists>h1 h2. list_remove h y = Some (hd (ys @ [l + 8]), h1) \<and>
    (if d \<noteq> NULL then list_push_back h1 d y else Some h1) = Some h2 \<and>
    is_list h2 l (ps @ x # ys) \<and> dup_list h2 d (ds @ [y]) \<and>
    set (nodes l (ps @ x # ys)) \<inter> dup_nodes d (ds @ [y]) = {}"
proof -
  obtain h1 where h1: "list_remove h y = Some (hd (ys @ [l + 8]), h1)" "is_list h1 l (ps @ x # ys)"
    "same_except (set (nodes l (ps @ x # y # ys))) h h1"
    using list_remove_is_list [of h l "ps @ [x]" y ys] assms(1) by auto
  have y: "y \<noteq> NULL" "y \<notin> set (nodes l (ps @ x # ys))"
    using assms(1) by (auto simp: is_list_def nodes_def chain_def)
  have dj: "set (nodes l (ps @ x # ys)) \<inter> dup_nodes d (ds @ [y]) = {}"
    using assms(3) y(2) by (auto simp: dup_nodes_def nodes_def split: if_splits)
  show ?thesis
  proof (cases "d = NULL")
    case True
    with h1 dj show ?thesis by (simp add: dup_list_def)
  next
    case False
    have "is_list h1 d ds"
      using is_list_frame [OF _ h1(3), of d ds] assms(2,3) False by (simp add: dup_list_def dup_nodes_def)
    moreover have "y \<notin> set (nodes d ds)"
      using assms(3) False by (auto simp: dup_nodes_def nodes_def)
    ultimately obtain h2 where h2: "list_push_back h1 d y = Some h2" "is_list h2 d (ds @ [y])"
      "same_except (insert y (set (nodes d ds))) h1 h2"
      using list_push_back_is_list [of h1 d ds y] y by auto
    have "is_list h2 l (ps @ x # ys)"
      by (rule is_list_frame [OF h1(2) h2(3)])
        (use dj False in \<open>auto simp: dup_nodes_def nodes_def\<close>)
    with h1 h2 dj False show ?thesis by (simp add: dup_list_def)
  qed
qed

lemma list_unique_loop_is_list:
  "is_list h l (ps @ x # xs) \<Longrightarrow> dup_list h d ds \<Longrightarrow>
   set (nodes l (ps @ x # xs)) \<inter> dup_nodes d ds = {} \<Longrightarrow>
   \<exists>h'. list_unique_loop h f d x (l + 8) = Some h' \<and> is_list h' l (ps @ fst (uniq f x xs)) \<and>
     dup_list h' d (ds @ snd (uniq f x xs))"
proof (induction xs arbitrary: h ps x ds)
  case Nil
  then show ?case using list_next_is_list [OF Nil(1)] by (simp add: list_unique_loop.simps)
next
  case (Cons y ys)
  have ne: "y \<noteq> l + 8" using hd_nodes_not_end [of h l "ps @ [x]" y ys] Cons.prems by simp
  note nx = list_next_is_list [OF Cons.prems(1)]
  show ?case
  proof (cases "eqv_by f x y")
    case True
    obtain h1 h2 where "list_remove h y = Some (hd (ys @ [l + 8]), h1)"
      "(if d \<noteq> NULL then list_push_back h1 d y else Some h1) = Some h2"
      "is_list h2 l (ps @ x # ys)" "dup_list h2 d (ds @ [y])"
      "set (nodes l (ps @ x # ys)) \<inter> dup_nodes d (ds @ [y]) = {}"
      using list_unique_step [OF Cons.prems] by blast
    with True Cons.IH [of h2 ps x "ds @ [y]"] ne nx show ?thesis
      by (simp add: list_unique_loop.simps [of h f d x] eqv_by_def split_beta)
  next
    case False
    with Cons.IH [of h "ps @ [x]" y ds] ne nx Cons.prems show ?thesis
      by (auto simp: list_unique_loop.simps [of h f d x] eqv_by_def split_beta)
  qed
qed

lemma list_unique_is_list:
  assumes "is_list h l (x # xs)" "dup_list h d ds" "set (nodes l (x # xs)) \<inter> dup_nodes d ds = {}"
  shows "\<exists>h'. list_unique h l d f = Some h' \<and> is_list h' l (fst (uniq f x xs)) \<and>
     dup_list h' d (ds @ snd (uniq f x xs))"
  using list_unique_loop_is_list [of h l "[]" x xs d ds f] assms is_list_not_null(1) [OF assms(1)]
  by (simp add: list_unique_def list_end_def)

lemma uniq_successively: "successively (\<lambda>a b. \<not> eqv_by f a b) (fst (uniq f x xs)) \<and> hd (fst (uniq f x xs)) = x"
  by (induction f x xs rule: uniq.induct) (auto simp: split_beta successively_Cons)

subsection \<open>The default comparison\<close>

interpretation dl: ptr_less "default_list_less_func converter" for converter
  by unfold_locales (auto simp: default_list_less_func_def)

lemma ordered_by_default: "ordered_by (default_list_less_func c) xs = sorted (map c xs)"
  by (simp add: ordered_by_def default_list_less_func_def sorted_wrt_map linorder_not_less)

lemma eqv_by_default: "eqv_by (default_list_less_func c) = (\<lambda>a b. c a = c b)"
  by (auto simp: eqv_by_def default_list_less_func_def fun_eq_iff)

text \<open>
  C5 (list_sort): on every well-formed list, sorting with the default comparison returns, and the
  list then holds the stable sort of its elements by their converted keys; no address
  outside the list is written.
\<close>

theorem list_sort_correct:
  assumes "is_list h l xs"
  shows "\<exists>h'. list_sort h l (default_list_less_func converter) = Some h' \<and>
    is_list h' l (sort_key converter xs) \<and> same_except (set (nodes l xs)) h h'"
proof -
  obtain h' zs where h': "list_sort h l (default_list_less_func converter) = Some h'"
    "is_list h' l zs" "mset zs = mset xs" "sorted (map converter zs)"
    "\<forall>k. filter (\<lambda>x. converter k = converter x) zs = filter (\<lambda>x. converter k = converter x) xs"
    "same_except (set (nodes l xs)) h h'"
    using dl.list_sort_is_list [OF assms, of converter]
    unfolding ordered_by_default eqv_by_default by blast
  then have "sort_key converter xs = zs"
    by (intro properties_for_sort_key) auto
  with h' show ?thesis by auto
qed

text \<open>A list at address 16 of the three elements 100, 108 and 116, with keys 3, 1 and 2.\<close>

definition demo_heap :: heap where
  "demo_heap = (\<lambda>_. \<lparr>le_prev = 0, le_next = 0\<rparr>)(
     16 := \<lparr>le_prev = 0, le_next = 100\<rparr>, 100 := \<lparr>le_prev = 16, le_next = 108\<rparr>,
     108 := \<lparr>le_prev = 100, le_next = 116\<rparr>, 116 := \<lparr>le_prev = 108, le_next = 24\<rparr>,
     24 := \<lparr>le_prev = 116, le_next = 0\<rparr>, 200 := \<lparr>le_prev = 0, le_next = 150\<rparr>,
     150 := \<lparr>le_prev = 200, le_next = 208\<rparr>, 208 := \<lparr>le_prev = 150, le_next = 0\<rparr>)"

lemma demo_dup_list: "is_list demo_heap 200 [150]"
  by (simp add: demo_heap_def is_list_def nodes_def chain_def)

definition demo_key :: "ptr \<Rightarrow> int" where
  "demo_key a = (if a = 100 then 3 else if a = 108 then 1 else 2)"

lemma demo_is_list: "is_list demo_heap 16 [100, 108, 116]"
  by (simp add: demo_heap_def is_list_def nodes_def chain_def)

theorem list_sort_correct_witness:
  "is_list demo_heap 16 [100, 108, 116] \<and>
   (\<exists>h'. list_sort demo_heap 16 (default_list_less_func demo_key) = Some h' \<and>
     is_list h' 16 [108, 116, 100] \<and> same_except {16, 100, 108, 116, 24} demo_heap h')"
  using list_sort_correct [OF demo_is_list, of demo_key] demo_is_list
  by (simp add: demo_key_def nodes_def insert_commute)

text \<open>
  C24 (list_insert_ordered): on a list sorted by the converted keys, the insertion returns a
  list that is still sorted and holds exactly one element more; the new element
  stands behind the elements with an equal key.
\<close>

theorem list_insert_ordered_sorted:
  assumes "is_list h l xs" "sorted (map converter xs)" "e \<notin> set (nodes l xs)" "e \<noteq> NULL"
  shows "\<exists>h' as bs. list_insert_ordered h l e (default_list_less_func converter) = Some h' \<and>
    is_list h' l (as @ e # bs) \<and> xs = as @ bs \<and>
    (\<forall>a\<in>set as. converter a \<le> converter e) \<and> (\<forall>b\<in>set bs. converter e < converter b)"
proof -
  let ?P = "\<lambda>x. \<not> default_list_less_func converter e x"
  have "\<forall>a\<in>set (takeWhile ?P xs). converter a \<le> converter e"
    by (auto simp: default_list_less_func_def dest!: set_takeWhileD)
  moreover have "\<forall>b\<in>set (dropWhile ?P xs). converter e < converter b"
    using sorted_dropWhile [OF assms(2)] by (simp add: default_list_less_func_def linorder_not_less)
  moreover have "xs = takeWhile ?P xs @ dropWhile ?P xs" by simp
  ultimately show ?thesis
    using list_insert_ordered_is_list [OF assms(1,3,4), of "default_list_less_func converter"]
    unfolding insert_after_split by blast
qed

theorem list_insert_ordered_sorted_witness:
  "is_list demo_heap 200 [150] \<and>
   (\<exists>h' as bs. list_insert_ordered demo_heap 200 300 (default_list_less_func demo_key) = Some h' \<and>
    is_list h' 200 (as @ 300 # bs) \<and> [150] = as @ bs)"
  using list_insert_ordered_sorted [OF demo_dup_list, of demo_key 300] demo_dup_list
  by (simp add: nodes_def) blast

text \<open>The groups of equivalent neighbours: a kept element with the duplicates that follow it.\<close>

lemma uniq_groups:
  "\<exists>rs gs. uniq f x xs = (x # map fst gs, rs @ concat (map snd gs)) \<and> xs = rs @ concat (map (\<lambda>(k, rs). k # rs) gs) \<and>
    (\<forall>y\<in>set rs. eqv_by f x y) \<and> (\<forall>(k, rs)\<in>set gs. \<forall>y\<in>set rs. eqv_by f k y)"
proof (induction f x xs rule: uniq.induct)
  case (1 f x)
  show ?case by (rule exI [of _ "[]"], rule exI [of _ "[]"]) simp
next
  case (2 f x y ys)
  show ?case
  proof (cases "eqv_by f x y")
    case True
    from 2(1) [OF this] obtain rs gs where "uniq f x ys = (x # map fst gs, rs @ concat (map snd gs))"
      "ys = rs @ concat (map (\<lambda>(k, rs). k # rs) gs)" "\<forall>y\<in>set rs. eqv_by f x y" "\<forall>(k, rs)\<in>set gs. \<forall>y\<in>set rs. eqv_by f k y"
      by blast
    with True show ?thesis by (intro exI [of _ "y # rs"] exI [of _ gs]) simp
  next
    case False
    from 2(2) [OF this] obtain rs gs where "uniq f y ys = (y # map fst gs, rs @ concat (map snd gs))"
      "ys = rs @ concat (map (\<lambda>(k, rs). k # rs) gs)" "\<forall>z\<in>set rs. eqv_by f y z" "\<forall>(k, rs)\<in>set gs. \<forall>y\<in>set rs. eqv_by f k y"
      by blast
    with False show ?thesis by (intro exI [of _ "[]"] exI [of _ "(y, rs) # gs"]) simp
  qed
qed

text \<open>
  C25: list_unique, on every well-formed list, empty or not, and with a duplicates list disjoint
  from it or none, returns; the list falls into groups, each an element followed by elements
  equivalent to it, of which the first elements are kept in order and the others are appended in
  order to the duplicates list; no two neighbours that are kept are equivalent. This holds for any
  comparison function.
\<close>

theorem list_unique_correct:
  assumes "is_list h l xs" "d = NULL \<or> is_list h d ds \<and> set (nodes l xs) \<inter> set (nodes d ds) = {}"
  shows "\<exists>h' gs. list_unique h l d lessf = Some h' \<and> xs = concat (map (\<lambda>(k, rs). k # rs) gs) \<and>
    is_list h' l (map fst gs) \<and> (d = NULL \<or> is_list h' d (ds @ concat (map snd gs))) \<and>
    (\<forall>(k, rs)\<in>set gs. \<forall>y\<in>set rs. \<not> lessf k y \<and> \<not> lessf y k) \<and>
    successively (\<lambda>a b. lessf a b \<or> lessf b a) (map fst gs)"
proof (cases xs)
  case Nil
  with assms is_list_not_null(1) [OF assms(1)] have "list_unique h l d lessf = Some h" by (simp add: list_unique_def)
  with Nil assms show ?thesis by (intro exI [of _ h] exI [of _ "[]"]) auto
next
  case (Cons x ys)
  have d: "dup_list h d ds" "set (nodes l (x # ys)) \<inter> dup_nodes d ds = {}"
    using assms(2) Cons by (auto simp: dup_list_def dup_nodes_def)
  obtain h' where h': "list_unique h l d lessf = Some h'" "is_list h' l (fst (uniq lessf x ys))"
    "dup_list h' d (ds @ snd (uniq lessf x ys))"
    using list_unique_is_list [OF assms(1) [unfolded Cons] d, of lessf] by blast
  obtain rs gs where u: "uniq lessf x ys = (x # map fst gs, rs @ concat (map snd gs))"
    "ys = rs @ concat (map (\<lambda>(k, rs). k # rs) gs)" "\<forall>y\<in>set rs. eqv_by lessf x y" "\<forall>(k, rs)\<in>set gs. \<forall>y\<in>set rs. eqv_by lessf k y"
    using uniq_groups [of lessf x ys] by blast
  have "successively (\<lambda>a b. lessf a b \<or> lessf b a) (fst (uniq lessf x ys))"
    using uniq_successively [of lessf x ys] by (auto simp: eqv_by_def elim!: successively_mono)
  with h' u Cons show ?thesis
    by (intro exI [of _ h'] exI [of _ "(x, rs) # gs"]) (auto simp: dup_list_def eqv_by_def)
qed

theorem list_unique_correct_witness:
  "\<exists>h' gs. list_unique demo_heap 16 200 (default_list_less_func (\<lambda>_. 0)) = Some h' \<and> [100, 108, 116] = concat (map (\<lambda>(k, rs). k # rs) gs) \<and>
    is_list h' 16 (map fst gs) \<and> is_list h' 200 ([150] @ concat (map snd gs)) \<and> successively (\<lambda>a b. False) (map fst gs)"
proof -
  have "(200::ptr) = NULL \<or> is_list demo_heap 200 [150] \<and> set (nodes 16 [100, 108, 116]) \<inter> set (nodes 200 [150]) = {}"
    using demo_dup_list by (simp add: nodes_def)
  from list_unique_correct [OF demo_is_list this, of "default_list_less_func (\<lambda>_. 0)"]
  show ?thesis by (auto simp: default_list_less_func_def)
qed

text \<open>
  \<open>list_max\<close> and \<open>list_min\<close>: on a nonempty list both return an element of the list; no
  element is greater than the maximum or less than the minimum, for every comparison
  that orders by converted keys.
\<close>

theorem list_max_min_correct:
  assumes "is_list h l xs" "xs \<noteq> []"
  shows "\<exists>m n. list_max h l (default_list_less_func converter) = Some m \<and>
    list_min h l (default_list_less_func converter) = Some n \<and> m \<in> set xs \<and> n \<in> set xs \<and>
    (\<forall>x\<in>set xs. converter n \<le> converter x \<and> converter x \<le> converter m)"
proof -
  let ?f = "default_list_less_func converter"
  obtain y ys where xs: "xs = y # ys" using assms(2) by (cases xs) auto
  have "list_max h l ?f = Some (pick ?f y ys)" "list_min h l ?f = Some (pick (\<lambda>a b. ?f b a) y ys)"
    using list_max_is_list list_min_is_list assms(1) xs by auto
  moreover have "\<forall>x\<in>set xs. converter (pick (\<lambda>a b. ?f b a) y ys) \<le> converter x \<and>
      converter x \<le> converter (pick ?f y ys)"
    using dl.pick_max [of _ y ys] dl.pick_min [of _ y ys]
    by (simp add: xs default_list_less_func_def linorder_not_less)
  ultimately show ?thesis
    using pick_in [of ?f y ys] pick_in [of "\<lambda>a b. ?f b a" y ys] by (auto simp: xs)
qed

theorem list_max_min_correct_witness:
  "\<exists>m n. list_max demo_heap 16 (default_list_less_func demo_key) = Some m \<and>
    list_min demo_heap 16 (default_list_less_func demo_key) = Some n \<and> m = 100 \<and> n = 108"
  using list_max_min_correct [OF demo_is_list, of demo_key]
  by (auto simp: demo_key_def split: if_splits)
end
