(* ===== verification/Vaddr.thy ===== *)
theory Vaddr
  imports Prelude
begin

text \<open>
  \<open>threads/vaddr.h\<close> and \<open>threads/pte.h\<close>: page numbers and offsets, the kernel's linear mapping of physical
  memory, and the format of page directory and page table entries.
\<close>

subsection \<open>Addresses\<close>

definition PGBITS :: nat where "PGBITS = 12"
definition PGSIZE :: u32 where "PGSIZE = 4096"
definition PGMASK :: u32 where "PGMASK = 0xfff"
definition PHYS_BASE :: ptr where "PHYS_BASE = 0xc0000000"

definition pg_ofs :: "ptr \<Rightarrow> u32" where
  "pg_ofs va = va AND PGMASK"

definition pg_no :: "ptr \<Rightarrow> u32" where
  "pg_no va = drop_bit PGBITS va"

definition pg_round_up :: "ptr \<Rightarrow> ptr" where
  "pg_round_up va = (va + PGSIZE - 1) AND NOT PGMASK"

definition pg_round_down :: "ptr \<Rightarrow> ptr" where
  "pg_round_down va = va AND NOT PGMASK"

definition is_user_vaddr :: "ptr \<Rightarrow> bool" where
  "is_user_vaddr vaddr \<longleftrightarrow> vaddr < PHYS_BASE"

definition is_kernel_vaddr :: "ptr \<Rightarrow> bool" where
  "is_kernel_vaddr vaddr \<longleftrightarrow> vaddr \<ge> PHYS_BASE"

definition ptov :: "u32 \<Rightarrow> ptr option" where
  "ptov paddr = do { ASSERT (paddr < PHYS_BASE); Some (paddr + PHYS_BASE) }"

definition vtop :: "ptr \<Rightarrow> u32 option" where
  "vtop vaddr = do { ASSERT (is_kernel_vaddr vaddr); Some (vaddr - PHYS_BASE) }"

subsection \<open>Page table entries\<close>

definition PTMASK :: u32 where "PTMASK = 0x3ff000"
definition PTE_ADDR :: u32 where "PTE_ADDR = 0xfffff000"
definition PTE_P :: u32 where "PTE_P = 1"
definition PTE_W :: u32 where "PTE_W = 2"
definition PTE_U :: u32 where "PTE_U = 4"
definition PTE_A :: u32 where "PTE_A = 0x20"
definition PTE_D :: u32 where "PTE_D = 0x40"

definition pt_no :: "ptr \<Rightarrow> u32" where
  "pt_no va = drop_bit 12 (va AND PTMASK)"

definition pd_no :: "ptr \<Rightarrow> u32" where
  "pd_no va = drop_bit 22 va"

definition pde_create :: "ptr \<Rightarrow> u32 option" where
  "pde_create pt = do {
     ASSERT (pg_ofs pt = 0);
     p \<leftarrow> vtop pt;
     Some (p OR PTE_U OR PTE_P OR PTE_W)
   }"

definition pde_get_pt :: "u32 \<Rightarrow> ptr option" where
  "pde_get_pt pde = do {
     ASSERT (pde AND PTE_P \<noteq> 0);
     ptov (pde AND PTE_ADDR)
   }"

definition pte_create_kernel :: "ptr \<Rightarrow> bool \<Rightarrow> u32 option" where
  "pte_create_kernel page writable = do {
     ASSERT (pg_ofs page = 0);
     p \<leftarrow> vtop page;
     Some (p OR PTE_P OR (if writable then PTE_W else 0))
   }"

definition pte_create_user :: "ptr \<Rightarrow> bool \<Rightarrow> u32 option" where
  "pte_create_user page writable = map_option (\<lambda>pte. pte OR PTE_U) (pte_create_kernel page writable)"

definition pte_get_page :: "u32 \<Rightarrow> ptr option" where
  "pte_get_page pte = ptov (pte AND PTE_ADDR)"

subsection \<open>Arithmetic\<close>

lemma PGMASK_mask: "PGMASK = mask 12"
  by (simp add: PGMASK_def mask_eq_exp_minus_1)

lemma pg_ofs_take_bit: "pg_ofs va = take_bit 12 va"
  by (simp add: pg_ofs_def PGMASK_mask take_bit_eq_mask)

lemma unat_pg_ofs: "unat (pg_ofs va) = unat va mod 4096"
  by (simp add: pg_ofs_take_bit unsigned_take_bit_eq) (simp add: take_bit_eq_mod)

lemma unat_pg_no: "unat (pg_no va) = unat va div 4096"
  by (simp add: pg_no_def PGBITS_def drop_bit_eq_div unat_div)

lemma and_not_mask: "x AND NOT (mask n) = push_bit n (drop_bit n x)" for x :: "'a::len word"
  by (rule bit_word_eqI) (auto simp: bit_and_iff bit_not_iff bit_mask_iff bit_push_bit_iff bit_drop_bit_eq)

lemma and_not_mask_minus: "x AND NOT (mask n) = x - take_bit n x" for x :: "'a::len word"
  unfolding and_not_mask using bits_ident [of n x] by (simp add: algebra_simps)

lemma pg_round_down_eq: "pg_round_down va = va - pg_ofs va"
  by (simp add: pg_round_down_def pg_ofs_take_bit PGMASK_mask and_not_mask_minus)

lemma unat_pg_round_down: "unat (pg_round_down va) = unat va - unat va mod 4096"
proof -
  have "pg_ofs va \<le> va" unfolding word_le_nat_alt unat_pg_ofs by simp
  then show ?thesis unfolding pg_round_down_eq by (simp add: unat_sub unat_pg_ofs)
qed

lemma pg_ofs_round_down: "pg_ofs (pg_round_down va) = 0"
proof -
  have "unat (pg_round_down va) mod 4096 = 0"
    unfolding unat_pg_round_down using minus_mod_eq_mult_div [of "unat va" 4096] by simp
  then show ?thesis by (metis unat_pg_ofs unat_eq_0)
qed

lemma PTE_ADDR_mask: "PTE_ADDR = NOT (mask 12)"
  by (simp add: PTE_ADDR_def mask_eq_exp_minus_1)

lemma aligned_and_ADDR: "pg_ofs p = 0 \<Longrightarrow> p AND PTE_ADDR = p"
  by (simp add: PTE_ADDR_mask and_not_mask_minus pg_ofs_take_bit)

lemma flags_and_ADDR: "pg_ofs p = 0 \<Longrightarrow> f AND PTE_ADDR = 0 \<Longrightarrow> (p OR f) AND PTE_ADDR = p"
  by (simp add: bit.conj_disj_distrib2 aligned_and_ADDR)

lemma and_power_neq_0: "x AND 2 ^ n \<noteq> 0 \<longleftrightarrow> bit x n" for x :: u32
  by (simp add: and_exp_eq_0_iff_not_bit)

lemma and_PTE:
  "x AND PTE_P \<noteq> 0 \<longleftrightarrow> bit x 0" "x AND PTE_W \<noteq> 0 \<longleftrightarrow> bit x 1"
  "x AND PTE_A \<noteq> 0 \<longleftrightarrow> bit x 5" "x AND PTE_D \<noteq> 0 \<longleftrightarrow> bit x 6"
  using and_power_neq_0 [of x 0] and_power_neq_0 [of x 1] and_power_neq_0 [of x 5] and_power_neq_0 [of x 6]
  by (simp_all add: PTE_P_def PTE_W_def PTE_A_def PTE_D_def)

lemma aligned_low_bits: "pg_ofs p = 0 \<Longrightarrow> n < 12 \<Longrightarrow> \<not> bit p n"
  by (metis bit_0_eq bit_take_bit_iff bot_apply bot_bool_def pg_ofs_take_bit)

text \<open>Kernel addresses and physical addresses.\<close>

lemma vtop_less: "is_kernel_vaddr v \<Longrightarrow> v - PHYS_BASE < PHYS_BASE"
  by (simp add: is_kernel_vaddr_def PHYS_BASE_def word_le_nat_alt word_less_nat_alt unat_sub)
    (use unsigned_less [of v, where 'a = nat] in simp)

lemma pg_ofs_PHYS_BASE: "pg_ofs (v - PHYS_BASE) = pg_ofs v"
proof -
  have "unat ((v - PHYS_BASE) + PHYS_BASE) mod 4096 = unat (v - PHYS_BASE) mod 4096"
  proof -
    have "unat ((v - PHYS_BASE) + PHYS_BASE) = (unat (v - PHYS_BASE) + 786432 * 4096) mod (1048576 * 4096)"
      unfolding unat_word_ariths by (simp add: PHYS_BASE_def)
    then show ?thesis by (simp only: mod_mod_cancel dvd_triv_right mod_mult_self1)
  qed
  then have "unat (pg_ofs (v - PHYS_BASE)) = unat (pg_ofs v)" by (simp add: unat_pg_ofs)
  then show ?thesis by (simp only: word_unat_eq_iff)
qed

text \<open>A page table entry gives back the page and the flags it was made with.\<close>

lemma pde_roundtrip:
  assumes "is_kernel_vaddr pt" "pg_ofs pt = 0"
  obtains e where "pde_create pt = Some e" "e \<noteq> 0" "bit e 0" "pde_get_pt e = Some pt"
proof -
  let ?p = "pt - PHYS_BASE"
  let ?e = "?p OR PTE_U OR PTE_P OR PTE_W"
  have "(?p OR 7) AND PTE_ADDR = ?p" using assms pg_ofs_PHYS_BASE [of pt] by (intro flags_and_ADDR) (simp_all add: PTE_ADDR_def)
  moreover have e: "?e = ?p OR 7" by (simp add: PTE_U_def PTE_P_def PTE_W_def or.assoc)
  ultimately have a: "?e AND PTE_ADDR = ?p" by simp
  have b: "bit ?e 0" by (simp add: PTE_P_def bit_or_iff)
  have "pde_get_pt ?e = Some pt" using a b vtop_less [OF assms(1)] and_PTE(1) [of ?e] by (simp add: pde_get_pt_def ptov_def)
  then show thesis using assms a b by (intro that [of ?e]) (auto simp: pde_create_def vtop_def)
qed

lemma pte_roundtrip:
  assumes "is_kernel_vaddr page" "pg_ofs page = 0"
  obtains e where "pte_create_user page w = Some e" "bit e 0" "bit e 1 \<longleftrightarrow> w" "pte_get_page e = Some page"
proof -
  let ?p = "page - PHYS_BASE"
  let ?f = "if w then 7 else (5 :: u32)"
  let ?e = "?p OR ?f"
  have c: "pte_create_user page w = Some ?e"
    using assms by (simp add: pte_create_user_def pte_create_kernel_def vtop_def PTE_P_def PTE_W_def PTE_U_def or.assoc)
  have a: "?e AND PTE_ADDR = ?p" using assms pg_ofs_PHYS_BASE [of page] by (intro flags_and_ADDR) (simp_all add: PTE_ADDR_def)
  have "\<not> bit ?p 1" using assms pg_ofs_PHYS_BASE [of page] by (intro aligned_low_bits) simp_all
  moreover have "bit (7 :: u32) 1" "bit (7 :: u32) 0" "bit (5 :: u32) 0" "\<not> bit (5 :: u32) 1" by simp_all
  ultimately have b: "bit ?e 0" "bit ?e 1 \<longleftrightarrow> w" by (simp_all add: bit_or_iff)
  have "pte_get_page ?e = Some page" using a vtop_less [OF assms(1)] by (simp add: pte_get_page_def ptov_def)
  with b c show thesis by (intro that [of ?e])
qed

end
