(* ===== verification/Kernel_State.thy ===== *)
theory Kernel_State
  imports Vaddr
begin

text \<open>
  The state that \<open>threads/thread.c\<close>, \<open>threads/synch.c\<close>, \<open>threads/interrupt.c\<close> and
  \<open>devices/timer.c\<close> share: thread control blocks, the scheduler's lists, semaphores, locks,
  condition variables, the page of lock-priority records and the processor's
  interrupt state.

  A kernel list is the sequence of its elements (the heap-level operations of \<open>list.c\<close>
  are related to sequences in \<open>Klist\<close> and \<open>Klist_Order\<close>); the elements of the
  scheduler's lists are the addresses of the threads that embed them.  A lock-priority
  record is its index in the page of records.  The semaphore inside a lock or inside a
  condition waiter is named by its container.

  Each thread's kernel stack is a list of frames.  A frame is the rest of a kernel function after a
  call that may switch threads; the innermost call is first.  An empty list means
  that the thread executes its own code.
\<close>

datatype intr_level = INTR_OFF | INTR_ON

datatype thread_status = THREAD_RUNNING | THREAD_READY | THREAD_BLOCKED | THREAD_DYING

text \<open>
  A semaphore of its own at an address, the one embedded in the lock at an address, or
  the one of the condition waiter on a thread's stack.
\<close>

datatype sema_ref = Sema ptr | LockSema ptr | WaiterSema ptr

datatype thread_func = NoFunc | IdleFunc sema_ref | CodeFunc ptr ptr

text \<open>
  The suspended calls:
  \<^item> \<open>SemaDownLoop s old\<close>: in the loop of \<open>sema_down\<close>, after \<open>thread_block\<close>;
  \<^item> \<open>SetLevel old\<close>: before a final \<open>intr_set_level (old)\<close>;
  \<^item> \<open>LockAcquireTail l t lp old\<close>: \<open>lock_acquire\<close> after \<open>sema_down\<close>;
  \<^item> \<open>LockTryTail l\<close>: \<open>lock_try_acquire\<close> after a successful \<open>sema_try_down\<close>;
  \<^item> \<open>LockReleaseTail t old\<close>: \<open>lock_release\<close> after \<open>sema_up\<close>;
  \<^item> \<open>CondWaitDown l\<close>, \<open>CondWaitAcquire l\<close>: \<open>cond_wait\<close> after \<open>lock_release\<close> and after
    \<open>sema_down\<close>;
  \<^item> \<open>CondBroadcast c l\<close>: the loop of \<open>cond_broadcast\<close>;
  \<^item> \<open>AllocTid\<close>, \<open>CreateTail t pri\<close>: \<open>allocate_tid\<close> after \<open>lock_acquire\<close>, and
    \<open>thread_create\<close> after \<open>allocate_tid\<close>;
  \<^item> \<open>ReturnTid t\<close>: \<open>return tid\<close> of \<open>thread_create\<close>;
  \<^item> \<open>KernelThread f\<close>: \<open>kernel_thread\<close>, where a new thread starts;
  \<^item> \<open>IdleBlock\<close>, \<open>IdleHalt\<close>: the two halves of the loop of \<open>idle\<close>;
  \<^item> \<open>IntrReturn\<close>: the return from an interrupt, which enables interrupts;
  \<^item> \<open>StartDown s\<close>: \<open>thread_start\<close> after \<open>thread_create\<close>.
\<close>

datatype frame =
    SemaDownLoop sema_ref intr_level
  | SetLevel intr_level
  | LockAcquireTail ptr ptr "nat option" intr_level
  | LockTryTail ptr
  | LockReleaseTail ptr intr_level
  | CondWaitDown ptr
  | CondWaitAcquire ptr
  | CondBroadcast ptr ptr
  | AllocTid
  | CreateTail ptr int
  | ReturnTid ptr
  | KernelThread thread_func
  | IdleBlock
  | IdleHalt
  | IntrReturn
  | StartDown sema_ref

record thread =
  t_tid :: int
  t_status :: thread_status
  t_name :: string
  t_stack :: ptr
  t_original_priority :: int
  t_priority :: int
  t_lock_priority_list :: "nat list"
  t_awake_tick :: int
  t_pagedir :: ptr
  t_magic :: u32

record semaphore =
  sema_value :: u32
  sema_waiters :: "ptr list"

record lock_priority =
  lp_in_use :: bool
  lp_waiting :: bool
  lp_lock :: ptr
  lp_priority :: int

record kernel =
  k_threads :: "ptr \<Rightarrow> thread"
  k_frames :: "ptr \<Rightarrow> frame list"
  k_cur :: ptr
  k_intr :: intr_level
  k_in_external_intr :: bool
  k_yield_on_return :: bool
  k_cr3 :: ptr
  k_esp0 :: ptr
  ready_list :: "ptr list"
  all_list :: "ptr list"
  sleep_list :: "ptr list"
  idle_thread :: ptr
  initial_thread :: ptr
  next_tid :: int
  thread_ticks :: u32
  idle_ticks :: int
  kernel_ticks :: int
  user_ticks :: int
  k_ticks :: int
  k_semas :: "sema_ref \<Rightarrow> semaphore"
  k_holder :: "ptr \<Rightarrow> ptr"
  k_cond_waiters :: "ptr \<Rightarrow> ptr list"
  lock_priority_page :: "lock_priority list"
  priority_donation_enabled :: bool
  k_ret :: "ptr \<Rightarrow> int"

definition THREAD_MAGIC :: u32 where "THREAD_MAGIC = 0xcd6abf4b"
definition PRI_MIN :: int where "PRI_MIN = 0"
definition PRI_DEFAULT :: int where "PRI_DEFAULT = 31"
definition PRI_MAX :: int where "PRI_MAX = 63"
definition TIME_SLICE :: u32 where "TIME_SLICE = 4"
definition TID_ERROR :: int where "TID_ERROR = -1"
definition THREAD_NAME_LENGTH :: nat where "THREAD_NAME_LENGTH = 16"

text \<open>The number of 20-byte lock-priority records in a page.\<close>

definition LOCK_PRIORITY_LIMIT :: nat where "LOCK_PRIORITY_LIMIT = unat (PGSIZE div 20)"

text \<open>The statically allocated lock of \<open>allocate_tid\<close> and the semaphore on the stack of \<open>thread_start\<close>.\<close>

definition tid_lock :: ptr where "tid_lock = 0xc0102000"
definition idle_started :: sema_ref where "idle_started = Sema 0xc000ef00"

subsection \<open>Field updates\<close>

definition upd_thread :: "ptr \<Rightarrow> (thread \<Rightarrow> thread) \<Rightarrow> kernel \<Rightarrow> kernel" where
  "upd_thread t f k = k\<lparr>k_threads := (k_threads k)(t := f (k_threads k t))\<rparr>"

definition upd_sema :: "sema_ref \<Rightarrow> (semaphore \<Rightarrow> semaphore) \<Rightarrow> kernel \<Rightarrow> kernel" where
  "upd_sema s f k = k\<lparr>k_semas := (k_semas k)(s := f (k_semas k s))\<rparr>"

definition upd_lp :: "nat \<Rightarrow> (lock_priority \<Rightarrow> lock_priority) \<Rightarrow> kernel \<Rightarrow> kernel" where
  "upd_lp i f k =
     k\<lparr>lock_priority_page := (lock_priority_page k)[i := f (lock_priority_page k ! i)]\<rparr>"

definition push_frame :: "frame \<Rightarrow> kernel \<Rightarrow> kernel" where
  "push_frame f k = k\<lparr>k_frames := (k_frames k)(k_cur k := f # k_frames k (k_cur k))\<rparr>"

definition pop_frame :: "kernel \<Rightarrow> kernel" where
  "pop_frame k = k\<lparr>k_frames := (k_frames k)(k_cur k := tl (k_frames k (k_cur k)))\<rparr>"

text \<open>What the updates leave unchanged.\<close>

lemma upd_thread_sel [simp]:
  "k_frames (upd_thread t f k) = k_frames k"
  "k_cur (upd_thread t f k) = k_cur k"
  "k_intr (upd_thread t f k) = k_intr k"
  "k_in_external_intr (upd_thread t f k) = k_in_external_intr k"
  "k_yield_on_return (upd_thread t f k) = k_yield_on_return k"
  "k_cr3 (upd_thread t f k) = k_cr3 k"
  "k_esp0 (upd_thread t f k) = k_esp0 k"
  "ready_list (upd_thread t f k) = ready_list k"
  "all_list (upd_thread t f k) = all_list k"
  "sleep_list (upd_thread t f k) = sleep_list k"
  "idle_thread (upd_thread t f k) = idle_thread k"
  "initial_thread (upd_thread t f k) = initial_thread k"
  "next_tid (upd_thread t f k) = next_tid k"
  "thread_ticks (upd_thread t f k) = thread_ticks k"
  "idle_ticks (upd_thread t f k) = idle_ticks k"
  "kernel_ticks (upd_thread t f k) = kernel_ticks k"
  "user_ticks (upd_thread t f k) = user_ticks k"
  "k_ticks (upd_thread t f k) = k_ticks k"
  "k_semas (upd_thread t f k) = k_semas k"
  "k_holder (upd_thread t f k) = k_holder k"
  "k_cond_waiters (upd_thread t f k) = k_cond_waiters k"
  "lock_priority_page (upd_thread t f k) = lock_priority_page k"
  "priority_donation_enabled (upd_thread t f k) = priority_donation_enabled k"
  "k_ret (upd_thread t f k) = k_ret k"
  by (simp_all add: upd_thread_def)

lemma upd_sema_sel [simp]:
  "k_threads (upd_sema s g k) = k_threads k"
  "k_frames (upd_sema s g k) = k_frames k"
  "k_cur (upd_sema s g k) = k_cur k"
  "k_intr (upd_sema s g k) = k_intr k"
  "k_in_external_intr (upd_sema s g k) = k_in_external_intr k"
  "k_yield_on_return (upd_sema s g k) = k_yield_on_return k"
  "k_cr3 (upd_sema s g k) = k_cr3 k"
  "k_esp0 (upd_sema s g k) = k_esp0 k"
  "ready_list (upd_sema s g k) = ready_list k"
  "all_list (upd_sema s g k) = all_list k"
  "sleep_list (upd_sema s g k) = sleep_list k"
  "idle_thread (upd_sema s g k) = idle_thread k"
  "initial_thread (upd_sema s g k) = initial_thread k"
  "next_tid (upd_sema s g k) = next_tid k"
  "thread_ticks (upd_sema s g k) = thread_ticks k"
  "idle_ticks (upd_sema s g k) = idle_ticks k"
  "kernel_ticks (upd_sema s g k) = kernel_ticks k"
  "user_ticks (upd_sema s g k) = user_ticks k"
  "k_ticks (upd_sema s g k) = k_ticks k"
  "k_holder (upd_sema s g k) = k_holder k"
  "k_cond_waiters (upd_sema s g k) = k_cond_waiters k"
  "lock_priority_page (upd_sema s g k) = lock_priority_page k"
  "priority_donation_enabled (upd_sema s g k) = priority_donation_enabled k"
  "k_ret (upd_sema s g k) = k_ret k"
  by (simp_all add: upd_sema_def)

lemma upd_lp_sel [simp]:
  "k_threads (upd_lp i j k) = k_threads k"
  "k_frames (upd_lp i j k) = k_frames k"
  "k_cur (upd_lp i j k) = k_cur k"
  "k_intr (upd_lp i j k) = k_intr k"
  "k_in_external_intr (upd_lp i j k) = k_in_external_intr k"
  "k_yield_on_return (upd_lp i j k) = k_yield_on_return k"
  "k_cr3 (upd_lp i j k) = k_cr3 k"
  "k_esp0 (upd_lp i j k) = k_esp0 k"
  "ready_list (upd_lp i j k) = ready_list k"
  "all_list (upd_lp i j k) = all_list k"
  "sleep_list (upd_lp i j k) = sleep_list k"
  "idle_thread (upd_lp i j k) = idle_thread k"
  "initial_thread (upd_lp i j k) = initial_thread k"
  "next_tid (upd_lp i j k) = next_tid k"
  "thread_ticks (upd_lp i j k) = thread_ticks k"
  "idle_ticks (upd_lp i j k) = idle_ticks k"
  "kernel_ticks (upd_lp i j k) = kernel_ticks k"
  "user_ticks (upd_lp i j k) = user_ticks k"
  "k_ticks (upd_lp i j k) = k_ticks k"
  "k_semas (upd_lp i j k) = k_semas k"
  "k_holder (upd_lp i j k) = k_holder k"
  "k_cond_waiters (upd_lp i j k) = k_cond_waiters k"
  "priority_donation_enabled (upd_lp i j k) = priority_donation_enabled k"
  "k_ret (upd_lp i j k) = k_ret k"
  by (simp_all add: upd_lp_def)

lemma push_frame_sel [simp]:
  "k_threads (push_frame fr k) = k_threads k"
  "k_cur (push_frame fr k) = k_cur k"
  "k_intr (push_frame fr k) = k_intr k"
  "k_in_external_intr (push_frame fr k) = k_in_external_intr k"
  "k_yield_on_return (push_frame fr k) = k_yield_on_return k"
  "k_cr3 (push_frame fr k) = k_cr3 k"
  "k_esp0 (push_frame fr k) = k_esp0 k"
  "ready_list (push_frame fr k) = ready_list k"
  "all_list (push_frame fr k) = all_list k"
  "sleep_list (push_frame fr k) = sleep_list k"
  "idle_thread (push_frame fr k) = idle_thread k"
  "initial_thread (push_frame fr k) = initial_thread k"
  "next_tid (push_frame fr k) = next_tid k"
  "thread_ticks (push_frame fr k) = thread_ticks k"
  "idle_ticks (push_frame fr k) = idle_ticks k"
  "kernel_ticks (push_frame fr k) = kernel_ticks k"
  "user_ticks (push_frame fr k) = user_ticks k"
  "k_ticks (push_frame fr k) = k_ticks k"
  "k_semas (push_frame fr k) = k_semas k"
  "k_holder (push_frame fr k) = k_holder k"
  "k_cond_waiters (push_frame fr k) = k_cond_waiters k"
  "lock_priority_page (push_frame fr k) = lock_priority_page k"
  "priority_donation_enabled (push_frame fr k) = priority_donation_enabled k"
  "k_ret (push_frame fr k) = k_ret k"
  by (simp_all add: push_frame_def)

lemma pop_frame_sel [simp]:
  "k_threads (pop_frame k) = k_threads k"
  "k_cur (pop_frame k) = k_cur k"
  "k_intr (pop_frame k) = k_intr k"
  "k_in_external_intr (pop_frame k) = k_in_external_intr k"
  "k_yield_on_return (pop_frame k) = k_yield_on_return k"
  "k_cr3 (pop_frame k) = k_cr3 k"
  "k_esp0 (pop_frame k) = k_esp0 k"
  "ready_list (pop_frame k) = ready_list k"
  "all_list (pop_frame k) = all_list k"
  "sleep_list (pop_frame k) = sleep_list k"
  "idle_thread (pop_frame k) = idle_thread k"
  "initial_thread (pop_frame k) = initial_thread k"
  "next_tid (pop_frame k) = next_tid k"
  "thread_ticks (pop_frame k) = thread_ticks k"
  "idle_ticks (pop_frame k) = idle_ticks k"
  "kernel_ticks (pop_frame k) = kernel_ticks k"
  "user_ticks (pop_frame k) = user_ticks k"
  "k_ticks (pop_frame k) = k_ticks k"
  "k_semas (pop_frame k) = k_semas k"
  "k_holder (pop_frame k) = k_holder k"
  "k_cond_waiters (pop_frame k) = k_cond_waiters k"
  "lock_priority_page (pop_frame k) = lock_priority_page k"
  "priority_donation_enabled (pop_frame k) = priority_donation_enabled k"
  "k_ret (pop_frame k) = k_ret k"
  by (simp_all add: pop_frame_def)

lemma upd_sel [simp]:
  "k_threads (upd_thread t f k) = (k_threads k)(t := f (k_threads k t))"
  "k_semas (upd_sema s g k) = (k_semas k)(s := g (k_semas k s))"
  "lock_priority_page (upd_lp i j k) = (lock_priority_page k)[i := j (lock_priority_page k ! i)]"
  "k_frames (push_frame fr k) = (k_frames k)(k_cur k := fr # k_frames k (k_cur k))"
  "k_frames (pop_frame k) = (k_frames k)(k_cur k := tl (k_frames k (k_cur k)))"
  by (simp_all add: upd_thread_def upd_sema_def upd_lp_def push_frame_def pop_frame_def)

end
