(* ===== verification/Scheduler.thy ===== *)
theory Scheduler
  imports Kernel_State Klist_Order
begin

text \<open>
  The scheduler of \<open>threads/thread.c\<close> and the interrupt level of \<open>threads/interrupt.c\<close>:
  blocking, unblocking and yielding, the choice of the next thread and the switch to
  it.  A function that ends in a switch leaves the rest of its caller on the thread's frames.
\<close>

subsection \<open>Interrupt level\<close>

definition intr_get_level :: "kernel \<Rightarrow> intr_level" where
  "intr_get_level k = k_intr k"

definition intr_context :: "kernel \<Rightarrow> bool" where
  "intr_context k = k_in_external_intr k"

definition intr_enable :: "kernel \<Rightarrow> (intr_level \<times> kernel) option" where
  "intr_enable k = do {
     ASSERT (\<not> intr_context k);
     Some (intr_get_level k, k\<lparr>k_intr := INTR_ON\<rparr>)
   }"

definition intr_disable :: "kernel \<Rightarrow> intr_level \<times> kernel" where
  "intr_disable k = (intr_get_level k, k\<lparr>k_intr := INTR_OFF\<rparr>)"

definition intr_set_level :: "intr_level \<Rightarrow> kernel \<Rightarrow> kernel option" where
  "intr_set_level level k =
     (if level = INTR_ON then map_option snd (intr_enable k) else Some (snd (intr_disable k)))"

definition intr_yield_on_return :: "kernel \<Rightarrow> kernel option" where
  "intr_yield_on_return k = do {
     ASSERT (intr_context k);
     Some (k\<lparr>k_yield_on_return := True\<rparr>)
   }"

subsection \<open>The running thread\<close>

definition is_thread :: "kernel \<Rightarrow> ptr \<Rightarrow> bool" where
  "is_thread k t \<longleftrightarrow> t \<noteq> NULL \<and> t_magic (k_threads k t) = THREAD_MAGIC"

definition running_thread :: "kernel \<Rightarrow> ptr" where
  "running_thread k = k_cur k"

definition thread_current :: "kernel \<Rightarrow> ptr option" where
  "thread_current k = do {
     ASSERT (is_thread k (running_thread k));
     ASSERT (t_status (k_threads k (running_thread k)) = THREAD_RUNNING);
     Some (running_thread k)
   }"

definition thread_tid :: "kernel \<Rightarrow> int option" where
  "thread_tid k = do { t \<leftarrow> thread_current k; Some (t_tid (k_threads k t)) }"

definition thread_name :: "kernel \<Rightarrow> string option" where
  "thread_name k = do { t \<leftarrow> thread_current k; Some (t_name (k_threads k t)) }"

definition thread_get_priority :: "kernel \<Rightarrow> int option" where
  "thread_get_priority k = do { t \<leftarrow> thread_current k; Some (t_priority (k_threads k t)) }"

definition thread_priority_convert_func :: "kernel \<Rightarrow> ptr \<Rightarrow> int" where
  "thread_priority_convert_func k t = t_priority (k_threads k t)"

text \<open>
  \<open>list_max (l, default_list_less_func, conv)\<close> on a nonempty list, by the value that
  \<open>list_max\<close> computes on the heap (\<open>list_max_is_list\<close>).
\<close>

definition list_max_by :: "(ptr \<Rightarrow> int) \<Rightarrow> ptr list \<Rightarrow> ptr" where
  "list_max_by conv xs = pick (default_list_less_func conv) (hd xs) (tl xs)"

subsection \<open>Switching threads\<close>

definition next_thread_to_run :: "kernel \<Rightarrow> ptr \<times> kernel" where
  "next_thread_to_run k =
     (if ready_list k = [] then (idle_thread k, k)
      else let t = list_max_by (thread_priority_convert_func k) (ready_list k)
           in (t, k\<lparr>ready_list := remove1 t (ready_list k)\<rparr>))"

text \<open>
  \<open>process_activate\<close> loads the thread's page directory (the kernel's own, address
  \<open>init_page_dir\<close>, for a thread without one) and points the TSS at its kernel stack.
\<close>

definition init_page_dir :: ptr where "init_page_dir = 0xc0101000"

definition process_activate :: "kernel \<Rightarrow> kernel option" where
  "process_activate k = do {
     t \<leftarrow> thread_current k;
     let pd = t_pagedir (k_threads k t);
     Some (k\<lparr>k_cr3 := (if pd = NULL then init_page_dir else pd), k_esp0 := t + PGSIZE\<rparr>)
   }"

text \<open>A freed page is filled with \<open>0xcc\<close> bytes.\<close>

definition free_thread_page :: "ptr \<Rightarrow> kernel \<Rightarrow> kernel" where
  "free_thread_page t k =
     (upd_thread t (\<lambda>x. x\<lparr>t_magic := 0xcccccccc\<rparr>) k)\<lparr>k_frames := (k_frames k)(t := [])\<rparr>"

definition thread_schedule_tail :: "ptr \<Rightarrow> kernel \<Rightarrow> kernel option" where
  "thread_schedule_tail prev k = do {
     let cur = running_thread k;
     ASSERT (intr_get_level k = INTR_OFF);
     k1 \<leftarrow> process_activate
       ((upd_thread cur (\<lambda>x. x\<lparr>t_status := THREAD_RUNNING\<rparr>) k)\<lparr>thread_ticks := 0\<rparr>);
     if prev \<noteq> NULL \<and> t_status (k_threads k1 prev) = THREAD_DYING \<and> prev \<noteq> initial_thread k1
     then do { ASSERT (prev \<noteq> cur); Some (free_thread_page prev k1) }
     else Some k1
   }"

definition schedule :: "kernel \<Rightarrow> kernel option" where
  "schedule k = do {
     let cur = running_thread k;
     let (nxt, k1) = next_thread_to_run k;
     ASSERT (intr_get_level k1 = INTR_OFF);
     ASSERT (t_status (k_threads k1 cur) \<noteq> THREAD_RUNNING);
     ASSERT (is_thread k1 nxt);
     if cur \<noteq> nxt then thread_schedule_tail cur (k1\<lparr>k_cur := nxt\<rparr>)
     else thread_schedule_tail NULL k1
   }"

definition thread_block :: "kernel \<Rightarrow> kernel option" where
  "thread_block k = do {
     ASSERT (\<not> intr_context k);
     ASSERT (intr_get_level k = INTR_OFF);
     t \<leftarrow> thread_current k;
     schedule (upd_thread t (\<lambda>x. x\<lparr>t_status := THREAD_BLOCKED\<rparr>) k)
   }"

definition thread_unblock :: "ptr \<Rightarrow> kernel \<Rightarrow> kernel option" where
  "thread_unblock t k = do {
     ASSERT (is_thread k t);
     let (old_level, k1) = intr_disable k;
     ASSERT (t_status (k_threads k1 t) = THREAD_BLOCKED);
     intr_set_level old_level
       (upd_thread t (\<lambda>x. x\<lparr>t_status := THREAD_READY\<rparr>) (k1\<lparr>ready_list := ready_list k1 @ [t]\<rparr>))
   }"

definition thread_yield :: "kernel \<Rightarrow> kernel option" where
  "thread_yield k = do {
     cur \<leftarrow> thread_current k;
     ASSERT (\<not> intr_context k);
     let (old_level, k1) = intr_disable k;
     let k2 = (if cur \<noteq> idle_thread k1 then k1\<lparr>ready_list := ready_list k1 @ [cur]\<rparr> else k1);
     let k3 = upd_thread cur (\<lambda>x. x\<lparr>t_status := THREAD_READY\<rparr>) k2;
     schedule (push_frame (SetLevel old_level) k3)
   }"

definition thread_set_priority :: "int \<Rightarrow> kernel \<Rightarrow> kernel option" where
  "thread_set_priority new_priority k = do {
     t \<leftarrow> thread_current k;
     let k1 = upd_thread t (\<lambda>x. x\<lparr>t_original_priority := new_priority\<rparr>) k;
     old_priority \<leftarrow> thread_get_priority k1;
     let k2 = (if old_priority \<le> new_priority \<or> t_lock_priority_list (k_threads k1 t) = []
               then upd_thread t (\<lambda>x. x\<lparr>t_priority := new_priority\<rparr>) k1 else k1);
     if old_priority > new_priority then thread_yield k2 else Some k2
   }"

text \<open>\<open>thread_foreach\<close> applies an action to every thread of the list of all threads, in order.\<close>

definition thread_foreach :: "(ptr \<Rightarrow> kernel \<Rightarrow> kernel option) \<Rightarrow> kernel \<Rightarrow> kernel option" where
  "thread_foreach func k = do {
     ASSERT (intr_get_level k = INTR_OFF);
     fold (\<lambda>t r. Option.bind r (func t)) (all_list k) (Some k)
   }"

text \<open>The scheduler parameters of the multi-level feedback queue are not implemented in the code.\<close>

definition thread_set_nice :: "int \<Rightarrow> kernel \<Rightarrow> kernel" where "thread_set_nice nice k = k"
definition thread_get_nice :: "kernel \<Rightarrow> int" where "thread_get_nice k = 0"
definition thread_get_load_avg :: "kernel \<Rightarrow> int" where "thread_get_load_avg k = 0"
definition thread_get_recent_cpu :: "kernel \<Rightarrow> int" where "thread_get_recent_cpu k = 0"

end
