(* ===== verification/Synch.thy ===== *)
theory Synch
  imports Scheduler
begin

text \<open>
  \<open>threads/synch.c\<close>: semaphores, locks with recursive priority donation, condition variables
  and the page of lock-priority records.  Functions that can switch threads push the rest of
  their body as a frame first; the rests are \<open>sema_down_loop\<close>, \<open>lock_acquire_tail\<close>,
  \<open>lock_release_tail\<close> and the \<open>cond_wait\<close> parts.
\<close>

subsection \<open>Lock-priority records\<close>

definition zero_lp :: lock_priority where
  "zero_lp = \<lparr>lp_in_use = False, lp_waiting = False, lp_lock = NULL, lp_priority = 0\<rparr>"

definition synch_init :: "kernel \<Rightarrow> kernel" where
  "synch_init k = k\<lparr>lock_priority_page := replicate LOCK_PRIORITY_LIMIT zero_lp,
     priority_donation_enabled := True\<rparr>"

text \<open>The first record that is not in use, marked as in use.\<close>

fun first_free_lp :: "lock_priority list \<Rightarrow> nat \<Rightarrow> nat option" where
  "first_free_lp [] index = None"
| "first_free_lp (lp # page) index =
     (if \<not> lp_in_use lp then Some index else first_free_lp page (Suc index))"

definition get_new_lock_priority :: "kernel \<Rightarrow> (nat \<times> kernel) option" where
  "get_new_lock_priority k =
     (case first_free_lp (lock_priority_page k) 0 of
        None \<Rightarrow> None
      | Some i \<Rightarrow> Some (i, upd_lp i (\<lambda>x. x\<lparr>lp_in_use := True\<rparr>) k))"

fun find_lock_priority :: "kernel \<Rightarrow> nat list \<Rightarrow> ptr \<Rightarrow> nat option" where
  "find_lock_priority k [] l = None"
| "find_lock_priority k (i # is) l =
     (if lp_lock (lock_priority_page k ! i) = l then Some i else find_lock_priority k is l)"

definition lock_priority_convert_func :: "kernel \<Rightarrow> nat \<Rightarrow> int" where
  "lock_priority_convert_func k i = lp_priority (lock_priority_page k ! i)"

subsection \<open>Semaphores\<close>

definition sema_init :: "sema_ref \<Rightarrow> u32 \<Rightarrow> kernel \<Rightarrow> kernel option" where
  "sema_init s v k = do {
     ASSERT (s \<noteq> Sema NULL);
     Some (upd_sema s (\<lambda>_. \<lparr>sema_value = v, sema_waiters = []\<rparr>) k)
   }"

text \<open>The loop of \<open>sema_down\<close>: one iteration either takes the semaphore or blocks.\<close>

definition sema_down_loop :: "sema_ref \<Rightarrow> intr_level \<Rightarrow> kernel \<Rightarrow> kernel option" where
  "sema_down_loop s old_level k =
     (if sema_value (k_semas k s) = 0 then do {
        t \<leftarrow> thread_current k;
        let k1 = upd_sema s (\<lambda>x. x\<lparr>sema_waiters := sema_waiters x @ [t]\<rparr>) k;
        thread_block (push_frame (SemaDownLoop s old_level) k1)
      } else
        intr_set_level old_level (upd_sema s (\<lambda>x. x\<lparr>sema_value := sema_value x - 1\<rparr>) k))"

definition sema_down :: "sema_ref \<Rightarrow> kernel \<Rightarrow> kernel option" where
  "sema_down s k = do {
     ASSERT (s \<noteq> Sema NULL);
     ASSERT (\<not> intr_context k);
     let (old_level, k1) = intr_disable k;
     sema_down_loop s old_level k1
   }"

definition sema_try_down :: "sema_ref \<Rightarrow> kernel \<Rightarrow> (bool \<times> kernel) option" where
  "sema_try_down s k = do {
     ASSERT (s \<noteq> Sema NULL);
     let (old_level, k1) = intr_disable k;
     let (success, k2) = (if sema_value (k_semas k1 s) > 0
       then (True, upd_sema s (\<lambda>x. x\<lparr>sema_value := sema_value x - 1\<rparr>) k1) else (False, k1));
     k3 \<leftarrow> intr_set_level old_level k2;
     Some (success, k3)
   }"

text \<open>
  \<open>sema_up\<close> up to its final \<open>intr_set_level\<close>, which stays as a frame: the thread may
  be switched out in between.
\<close>

definition sema_up :: "sema_ref \<Rightarrow> kernel \<Rightarrow> kernel option" where
  "sema_up s k = do {
     ASSERT (s \<noteq> Sema NULL);
     let (old_level, k1) = intr_disable k;
     let k2 = upd_sema s (\<lambda>x. x\<lparr>sema_value := sema_value x + 1\<rparr>) k1;
     if sema_waiters (k_semas k2 s) = [] then intr_set_level old_level k2
     else do {
       let t = list_max_by (thread_priority_convert_func k2) (sema_waiters (k_semas k2 s));
       let k3 = upd_sema s (\<lambda>x. x\<lparr>sema_waiters := remove1 t (sema_waiters x)\<rparr>) k2;
       k4 \<leftarrow> thread_unblock t k3;
       p \<leftarrow> (if priority_donation_enabled k4 then map_option Some (thread_get_priority k4) else Some None);
       case p of
         Some cur_priority \<Rightarrow>
           if t_priority (k_threads k4 t) > cur_priority
           then thread_yield (push_frame (SetLevel old_level) k4)
           else intr_set_level old_level k4
       | None \<Rightarrow> intr_set_level old_level k4
     }
   }"

subsection \<open>Priority donation\<close>

definition donate_priority :: "ptr \<Rightarrow> int \<Rightarrow> kernel \<Rightarrow> (bool \<times> kernel) option" where
  "donate_priority l pri k = do {
     let holder = k_holder k l;
     i \<leftarrow> find_lock_priority k (t_lock_priority_list (k_threads k holder)) l;
     let (donated, k1) =
       (if pri > t_priority (k_threads k holder)
        then (True, upd_thread holder (\<lambda>x. x\<lparr>t_priority := pri\<rparr>) k) else (False, k));
     let k2 = (if pri > lp_priority (lock_priority_page k1 ! i)
               then upd_lp i (\<lambda>x. x\<lparr>lp_priority := pri\<rparr>) k1 else k1);
     Some (donated, k2)
   }"

partial_function (option) donate_priority_recursively :: "ptr \<Rightarrow> int \<Rightarrow> kernel \<Rightarrow> kernel option" where
  "donate_priority_recursively l pri k = do {
     ASSERT (l \<noteq> NULL);
     ASSERT (k_holder k l \<noteq> NULL);
     ASSERT (PRI_MIN \<le> pri \<and> pri \<le> PRI_MAX);
     (donated, k1) \<leftarrow> donate_priority l pri k;
     if donated then do {
       let holder = k_holder k1 l;
       let lps = t_lock_priority_list (k_threads k1 holder);
       ASSERT (lps \<noteq> []);
       let top = lock_priority_page k1 ! hd lps;
       if lp_waiting top \<and> k_holder k1 (lp_lock top) \<noteq> NULL
       then donate_priority_recursively (lp_lock top) pri k1
       else Some k1
     } else Some k1
   }"

declare donate_priority_recursively.simps [code]

subsection \<open>Locks\<close>

definition lock_init :: "ptr \<Rightarrow> kernel \<Rightarrow> kernel option" where
  "lock_init l k = do {
     ASSERT (l \<noteq> NULL);
     sema_init (LockSema l) 1 (k\<lparr>k_holder := (k_holder k)(l := NULL)\<rparr>)
   }"

definition lock_held_by_current_thread :: "ptr \<Rightarrow> kernel \<Rightarrow> bool option" where
  "lock_held_by_current_thread l k = do {
     ASSERT (l \<noteq> NULL);
     t \<leftarrow> thread_current k;
     Some (k_holder k l = t)
   }"

text \<open>The donation part of \<open>lock_acquire\<close>: a new record in front of the thread's list, then donation.\<close>

definition lock_acquire_donate :: "ptr \<Rightarrow> ptr \<Rightarrow> kernel \<Rightarrow> (nat option \<times> kernel) option" where
  "lock_acquire_donate l t k =
     (if priority_donation_enabled k then do {
        (i, k1) \<leftarrow> get_new_lock_priority k;
        pri \<leftarrow> thread_get_priority k1;
        let k2 = upd_lp i (\<lambda>x. x\<lparr>lp_waiting := True, lp_lock := l, lp_priority := pri\<rparr>) k1;
        let k3 = upd_thread t (\<lambda>x. x\<lparr>t_lock_priority_list := i # t_lock_priority_list x\<rparr>) k2;
        k4 \<leftarrow> (if k_holder k3 l \<noteq> NULL then do {
                  pri' \<leftarrow> thread_get_priority k3;
                  donate_priority_recursively l pri' k3
                } else Some k3);
        Some (Some i, k4)
      } else Some (None, k))"

definition lock_acquire :: "ptr \<Rightarrow> kernel \<Rightarrow> kernel option" where
  "lock_acquire l k = do {
     let (old_level, k1) = intr_disable k;
     ASSERT (l \<noteq> NULL);
     ASSERT (\<not> intr_context k1);
     held \<leftarrow> lock_held_by_current_thread l k1;
     ASSERT (\<not> held);
     t \<leftarrow> thread_current k1;
     (lp, k2) \<leftarrow> lock_acquire_donate l t k1;
     sema_down (LockSema l) (push_frame (LockAcquireTail l t lp old_level) k2)
   }"

text \<open>\<open>lock_acquire\<close> after \<open>sema_down\<close>; without a record the code writes through a null pointer.\<close>

definition lock_acquire_tail :: "ptr \<Rightarrow> ptr \<Rightarrow> nat option \<Rightarrow> intr_level \<Rightarrow> kernel \<Rightarrow> kernel option" where
  "lock_acquire_tail l t lp old_level k = do {
     ASSERT (intr_get_level k = INTR_OFF);
     let k1 = k\<lparr>k_holder := (k_holder k)(l := t)\<rparr>;
     k2 \<leftarrow> (if priority_donation_enabled k1 then
              (case lp of None \<Rightarrow> None | Some i \<Rightarrow> Some (upd_lp i (\<lambda>x. x\<lparr>lp_waiting := False\<rparr>) k1))
            else Some k1);
     intr_set_level old_level k2
   }"

text \<open>
  \<open>lock_try_acquire\<close> runs with interrupts on; another thread may run between the
  \<open>sema_try_down\<close> and the assignment of the holder, which is \<open>lock_try_tail\<close>.
\<close>

definition lock_try_acquire :: "ptr \<Rightarrow> kernel \<Rightarrow> (bool \<times> kernel) option" where
  "lock_try_acquire l k = do {
     ASSERT (l \<noteq> NULL);
     held \<leftarrow> lock_held_by_current_thread l k;
     ASSERT (\<not> held);
     (success, k1) \<leftarrow> sema_try_down (LockSema l) k;
     Some (success, if success then push_frame (LockTryTail l) k1 else k1)
   }"

definition lock_try_tail :: "ptr \<Rightarrow> kernel \<Rightarrow> kernel option" where
  "lock_try_tail l k = do {
     t \<leftarrow> thread_current k;
     Some (k\<lparr>k_holder := (k_holder k)(l := t)\<rparr>)
   }"

text \<open>\<open>lock_release\<close> takes the lock's record off the thread's list and clears it.\<close>

definition drop_lock_priority :: "ptr \<Rightarrow> ptr \<Rightarrow> kernel \<Rightarrow> kernel option" where
  "drop_lock_priority l t k =
     (if priority_donation_enabled k then do {
        i \<leftarrow> find_lock_priority k (t_lock_priority_list (k_threads k t)) l;
        let k1 = upd_thread t
          (\<lambda>x. x\<lparr>t_lock_priority_list := remove1 i (t_lock_priority_list x)\<rparr>) k;
        Some (upd_lp i (\<lambda>_. zero_lp) k1)
      } else Some k)"

definition lock_release :: "ptr \<Rightarrow> kernel \<Rightarrow> kernel option" where
  "lock_release l k = do {
     let (old_level, k1) = intr_disable k;
     ASSERT (l \<noteq> NULL);
     held \<leftarrow> lock_held_by_current_thread l k1;
     ASSERT held;
     t \<leftarrow> thread_current k1;
     k2 \<leftarrow> drop_lock_priority l t (k1\<lparr>k_holder := (k_holder k1)(l := NULL)\<rparr>);
     sema_up (LockSema l) (push_frame (LockReleaseTail t old_level) k2)
   }"

text \<open>The highest priority among the thread's own and its lock-priority records.\<close>

definition effective_priority :: "kernel \<Rightarrow> ptr \<Rightarrow> int" where
  "effective_priority k t =
     (let lps = t_lock_priority_list (k_threads k t); orig = t_original_priority (k_threads k t)
      in if lps = [] then orig
         else let best = lock_priority_convert_func k
                (pick (\<lambda>a b. lock_priority_convert_func k a < lock_priority_convert_func k b) (hd lps) (tl lps))
              in if best \<ge> orig then best else orig)"

definition lock_release_tail :: "ptr \<Rightarrow> intr_level \<Rightarrow> kernel \<Rightarrow> kernel option" where
  "lock_release_tail t old_level k =
     (if priority_donation_enabled k then do {
        old_priority \<leftarrow> thread_get_priority k;
        let new_priority = effective_priority k t;
        let k1 = upd_thread t (\<lambda>x. x\<lparr>t_priority := new_priority\<rparr>) k;
        if old_priority > new_priority
        then thread_yield (push_frame (SetLevel old_level) k1)
        else intr_set_level old_level k1
      } else intr_set_level old_level k)"

subsection \<open>Condition variables\<close>

definition cond_init :: "ptr \<Rightarrow> kernel \<Rightarrow> kernel option" where
  "cond_init c k = do {
     ASSERT (c \<noteq> NULL);
     Some (k\<lparr>k_cond_waiters := (k_cond_waiters k)(c := [])\<rparr>)
   }"

text \<open>
  The waiter lives on the stack of the thread that waits, so it is named by that thread;
  the frames run \<open>sema_down\<close> on its semaphore, then \<open>lock_acquire\<close>, then restore the level.
\<close>

definition cond_wait :: "ptr \<Rightarrow> ptr \<Rightarrow> kernel \<Rightarrow> kernel option" where
  "cond_wait c l k = do {
     let (old_level, k1) = intr_disable k;
     ASSERT (c \<noteq> NULL);
     ASSERT (l \<noteq> NULL);
     ASSERT (\<not> intr_context k1);
     held \<leftarrow> lock_held_by_current_thread l k1;
     ASSERT held;
     t \<leftarrow> thread_current k1;
     k2 \<leftarrow> sema_init (WaiterSema t) 0 k1;
     let k3 = k2\<lparr>k_cond_waiters := (k_cond_waiters k2)(c := k_cond_waiters k2 c @ [t])\<rparr>;
     lock_release l (push_frame (CondWaitDown l) (push_frame (SetLevel old_level) k3))
   }"

definition cond_wait_down :: "ptr \<Rightarrow> kernel \<Rightarrow> kernel option" where
  "cond_wait_down l k = do {
     t \<leftarrow> thread_current k;
     sema_down (WaiterSema t) (push_frame (CondWaitAcquire l) k)
   }"

definition waiter_priority_convert_func :: "kernel \<Rightarrow> ptr \<Rightarrow> int" where
  "waiter_priority_convert_func k waiter = t_priority (k_threads k waiter)"

definition cond_signal :: "ptr \<Rightarrow> ptr \<Rightarrow> kernel \<Rightarrow> kernel option" where
  "cond_signal c l k = do {
     let (old_level, k1) = intr_disable k;
     ASSERT (c \<noteq> NULL);
     ASSERT (l \<noteq> NULL);
     ASSERT (\<not> intr_context k1);
     held \<leftarrow> lock_held_by_current_thread l k1;
     ASSERT held;
     if k_cond_waiters k1 c = [] then intr_set_level old_level k1
     else do {
       let w = list_max_by (waiter_priority_convert_func k1) (k_cond_waiters k1 c);
       let k2 = k1\<lparr>k_cond_waiters := (k_cond_waiters k1)(c := remove1 w (k_cond_waiters k1 c))\<rparr>;
       sema_up (WaiterSema w) (push_frame (SetLevel old_level) k2)
     }
   }"

text \<open>One turn of the loop of \<open>cond_broadcast\<close>; the rest of the loop is a frame.\<close>

definition cond_broadcast :: "ptr \<Rightarrow> ptr \<Rightarrow> kernel \<Rightarrow> kernel option" where
  "cond_broadcast c l k = do {
     ASSERT (c \<noteq> NULL);
     ASSERT (l \<noteq> NULL);
     if k_cond_waiters k c = [] then Some k
     else cond_signal c l (push_frame (CondBroadcast c l) k)
   }"

end
