(* ===== verification/Threads.thy ===== *)
theory Threads
  imports Synch
begin

text \<open>
  Thread creation and exit, the idle thread, sleeping and the timer interrupt
  (\<open>threads/thread.c\<close>, \<open>devices/timer.c\<close>, \<open>intr_handler\<close> of \<open>threads/interrupt.c\<close>).

  The page that \<open>thread_create\<close> gets from \<open>palloc_get_page\<close> is an argument (null
  when the allocator has none); \<open>process_exit\<close> runs before \<open>thread_exit\<close> as modelled
  here, which is the part that leaves the scheduler.
\<close>

subsection \<open>Creation\<close>

text \<open>The thread's name is the first word of \<open>name\<close>, cut to fit.\<close>

definition thread_name_of :: "string \<Rightarrow> string" where
  "thread_name_of nm =
     (let len = length (takeWhile (\<lambda>c. c \<noteq> CHR '' '') nm);
          len' = (if len < THREAD_NAME_LENGTH then 1 + len else THREAD_NAME_LENGTH)
      in take (len' - 1) nm)"

definition new_thread :: "ptr \<Rightarrow> string \<Rightarrow> int \<Rightarrow> thread" where
  "new_thread t nm pri = \<lparr>t_tid = 0, t_status = THREAD_BLOCKED, t_name = thread_name_of nm,
     t_stack = t + PGSIZE, t_original_priority = pri, t_priority = pri,
     t_lock_priority_list = [], t_awake_tick = 0, t_pagedir = NULL, t_magic = THREAD_MAGIC\<rparr>"

definition init_thread :: "ptr \<Rightarrow> string \<Rightarrow> int \<Rightarrow> kernel \<Rightarrow> kernel option" where
  "init_thread t nm pri k = do {
     ASSERT (t \<noteq> NULL);
     ASSERT (PRI_MIN \<le> pri \<and> pri \<le> PRI_MAX);
     let k1 = upd_thread t (\<lambda>_. new_thread t nm pri) k;
     let (old_level, k2) = intr_disable k1;
     intr_set_level old_level (k2\<lparr>all_list := all_list k2 @ [t]\<rparr>)
   }"

text \<open>
  \<open>allocate_tid\<close>: acquire the lock, then (frame \<open>AllocTid\<close>) take the next identifier and release it.
  The identifier is left in the thread's return register.
\<close>

definition allocate_tid :: "kernel \<Rightarrow> kernel option" where
  "allocate_tid k = lock_acquire tid_lock (push_frame AllocTid k)"

definition allocate_tid_tail :: "kernel \<Rightarrow> kernel option" where
  "allocate_tid_tail k =
     lock_release tid_lock (k\<lparr>k_ret := (k_ret k)(k_cur k := next_tid k), next_tid := wrap32 (next_tid k + 1)\<rparr>)"

definition alloc_frame :: "ptr \<Rightarrow> u32 \<Rightarrow> kernel \<Rightarrow> (ptr \<times> kernel) option" where
  "alloc_frame t sz k = do {
     ASSERT (is_thread k t);
     ASSERT (sz mod 4 = 0);
     let k1 = upd_thread t (\<lambda>x. x\<lparr>t_stack := t_stack x - sz\<rparr>) k;
     Some (t_stack (k_threads k1 t), k1)
   }"

text \<open>\<open>thread_create\<close> up to \<open>allocate_tid\<close>; the new thread starts in \<open>kernel_thread\<close>.\<close>

definition thread_create :: "ptr \<Rightarrow> string \<Rightarrow> int \<Rightarrow> thread_func \<Rightarrow> kernel \<Rightarrow> kernel option" where
  "thread_create page nm pri func k = do {
     ASSERT (func \<noteq> NoFunc);
     if page = NULL then Some (k\<lparr>k_ret := (k_ret k)(k_cur k := TID_ERROR)\<rparr>)
     else do {
       k1 \<leftarrow> init_thread page nm pri k;
       let k2 = k1\<lparr>k_frames := (k_frames k1)(page := [KernelThread func])\<rparr>;
       allocate_tid (push_frame (CreateTail page pri) k2)
     }
   }"

definition thread_create_tail :: "ptr \<Rightarrow> int \<Rightarrow> kernel \<Rightarrow> kernel option" where
  "thread_create_tail t pri k = do {
     let k1 = upd_thread t (\<lambda>x. x\<lparr>t_tid := k_ret k (k_cur k)\<rparr>) k;
     (kf, k2) \<leftarrow> alloc_frame t 12 k1;
     (ef, k3) \<leftarrow> alloc_frame t 4 k2;
     (sf, k4) \<leftarrow> alloc_frame t 28 k3;
     k5 \<leftarrow> thread_unblock t k4;
     cur_priority \<leftarrow> thread_get_priority k5;
     if pri > cur_priority then thread_yield k5 else Some k5
   }"

subsection \<open>Starting and ending\<close>

definition thread_init :: "ptr \<Rightarrow> kernel \<Rightarrow> kernel option" where
  "thread_init page k = do {
     ASSERT (intr_get_level k = INTR_OFF);
     k1 \<leftarrow> lock_init tid_lock k;
     let k2 = k1\<lparr>ready_list := [], all_list := [], sleep_list := [], k_cur := page, initial_thread := page\<rparr>;
     k3 \<leftarrow> init_thread page ''main'' PRI_DEFAULT k2;
     let k4 = upd_thread page (\<lambda>x. x\<lparr>t_status := THREAD_RUNNING\<rparr>) k3;
     allocate_tid (push_frame (ReturnTid page) k4)
   }"

definition thread_start :: "ptr \<Rightarrow> kernel \<Rightarrow> kernel option" where
  "thread_start page k = do {
     k1 \<leftarrow> sema_init idle_started 0 k;
     thread_create page ''idle'' PRI_MIN (IdleFunc idle_started) (push_frame (StartDown idle_started) k1)
   }"

definition thread_start_tail :: "sema_ref \<Rightarrow> kernel \<Rightarrow> kernel option" where
  "thread_start_tail s k = do {
     (old, k1) \<leftarrow> intr_enable k;
     sema_down s k1
   }"

definition kernel_thread :: "thread_func \<Rightarrow> kernel \<Rightarrow> kernel option" where
  "kernel_thread func k = do {
     ASSERT (func \<noteq> NoFunc);
     (old, k1) \<leftarrow> intr_enable k;
     case func of
       IdleFunc s \<Rightarrow> do {
         t \<leftarrow> thread_current k1;
         sema_up s (push_frame IdleBlock (k1\<lparr>idle_thread := t\<rparr>))
       }
     | _ \<Rightarrow> Some k1
   }"

definition idle_block :: "kernel \<Rightarrow> kernel option" where
  "idle_block k = thread_block (push_frame IdleHalt (snd (intr_disable k)))"

definition idle_halt :: "kernel \<Rightarrow> kernel option" where
  "idle_halt k = Some (push_frame IdleBlock (k\<lparr>k_intr := INTR_ON\<rparr>))"

definition thread_exit :: "kernel \<Rightarrow> kernel option" where
  "thread_exit k = do {
     ASSERT (\<not> intr_context k);
     let (old, k1) = intr_disable k;
     t \<leftarrow> thread_current k1;
     let k2 = upd_thread t (\<lambda>x. x\<lparr>t_status := THREAD_DYING\<rparr>) (k1\<lparr>all_list := remove1 t (all_list k1)\<rparr>);
     schedule k2
   }"

subsection \<open>Sleeping and the timer\<close>

definition thread_sleep :: "kernel \<Rightarrow> kernel option" where
  "thread_sleep k = do {
     t \<leftarrow> thread_current k;
     thread_block (k\<lparr>sleep_list := sleep_list k @ [t]\<rparr>)
   }"

definition timer_ticks :: "kernel \<Rightarrow> (int \<times> kernel) option" where
  "timer_ticks k = do {
     let (old_level, k1) = intr_disable k;
     let t = k_ticks k1;
     k2 \<leftarrow> intr_set_level old_level k1;
     Some (t, k2)
   }"

definition timer_elapsed :: "int \<Rightarrow> kernel \<Rightarrow> (int \<times> kernel) option" where
  "timer_elapsed thn k = do { (t, k1) \<leftarrow> timer_ticks k; Some (wrap64 (t - thn), k1) }"

definition timer_sleep :: "int \<Rightarrow> kernel \<Rightarrow> kernel option" where
  "timer_sleep n k =
     (if n \<le> 0 then Some k
      else do {
        let (prev_level, k1) = intr_disable k;
        t \<leftarrow> thread_current k1;
        (now, k2) \<leftarrow> timer_ticks k1;
        let k3 = upd_thread t (\<lambda>x. x\<lparr>t_awake_tick := wrap64 (now + n)\<rparr>) k2;
        thread_sleep (push_frame (SetLevel prev_level) k3)
      })"

text \<open>The loop of \<open>thread_tick\<close> over the sleeping threads; the next element is read before a removal.\<close>

fun wake_sleepers :: "int \<Rightarrow> ptr list \<Rightarrow> kernel \<Rightarrow> kernel option" where
  "wake_sleepers current_tick [] k = Some k"
| "wake_sleepers current_tick (t # ts) k =
     (if current_tick \<ge> t_awake_tick (k_threads k t) then do {
        let k1 = upd_thread t (\<lambda>x. x\<lparr>t_awake_tick := 0\<rparr>) k;
        let k2 = k1\<lparr>sleep_list := remove1 t (sleep_list k1)\<rparr>;
        k3 \<leftarrow> thread_unblock t k2;
        wake_sleepers current_tick ts k3
      } else wake_sleepers current_tick ts k)"

definition tick_statistics :: "ptr \<Rightarrow> kernel \<Rightarrow> kernel" where
  "tick_statistics t k =
     (if t = idle_thread k then k\<lparr>idle_ticks := wrap64 (idle_ticks k + 1)\<rparr>
      else if t_pagedir (k_threads k t) \<noteq> NULL then k\<lparr>user_ticks := wrap64 (user_ticks k + 1)\<rparr>
      else k\<lparr>kernel_ticks := wrap64 (kernel_ticks k + 1)\<rparr>)"

definition thread_tick :: "kernel \<Rightarrow> kernel option" where
  "thread_tick k = do {
     ASSERT (intr_get_level k = INTR_OFF);
     t \<leftarrow> thread_current k;
     let k1 = tick_statistics t k;
     (current_tick, k2) \<leftarrow> timer_ticks k1;
     k3 \<leftarrow> wake_sleepers current_tick (sleep_list k2) k2;
     let k4 = k3\<lparr>thread_ticks := thread_ticks k3 + 1\<rparr>;
     if thread_ticks k4 \<ge> TIME_SLICE then intr_yield_on_return k4 else Some k4
   }"

definition timer_interrupt :: "kernel \<Rightarrow> kernel option" where
  "timer_interrupt k = thread_tick (k\<lparr>k_ticks := wrap64 (k_ticks k + 1)\<rparr>)"

text \<open>
  An external interrupt (\<open>intr_handler\<close> with a handler for its vector): the processor
  disables interrupts, the handler runs, the thread yields if it asked for that, and
  the return from the interrupt (frame \<open>IntrReturn\<close>) enables interrupts again.
\<close>

definition intr_handler :: "(kernel \<Rightarrow> kernel option) \<Rightarrow> kernel \<Rightarrow> kernel option" where
  "intr_handler handler k = do {
     ASSERT (intr_get_level k = INTR_OFF);
     ASSERT (\<not> intr_context k);
     k1 \<leftarrow> handler (k\<lparr>k_in_external_intr := True, k_yield_on_return := False\<rparr>);
     ASSERT (intr_get_level k1 = INTR_OFF);
     ASSERT (intr_context k1);
     let k2 = k1\<lparr>k_in_external_intr := False\<rparr>;
     if k_yield_on_return k2 then thread_yield k2 else Some k2
   }"

definition external_interrupt :: "(kernel \<Rightarrow> kernel option) \<Rightarrow> kernel \<Rightarrow> kernel option" where
  "external_interrupt handler k = intr_handler handler (push_frame IntrReturn (k\<lparr>k_intr := INTR_OFF\<rparr>))"

definition intr_return :: "kernel \<Rightarrow> kernel option" where
  "intr_return k = Some (k\<lparr>k_intr := INTR_ON\<rparr>)"

end
