(* ===== verification/Kernel_Run.thy ===== *)
theory Kernel_Run
  imports Threads
begin

text \<open>
  The kernel as a transition system.  The running thread either continues its innermost suspended call
  (\<open>run_frame\<close>), or, while it executes its own code with interrupts enabled, calls a kernel function
  (\<open>do_call\<close>); a timer interrupt arrives at any moment with interrupts enabled.
  The sections that the code protects by disabling interrupts lie within one step, so they are atomic in
  the code as well.  Some steps also hold code that runs with interrupts enabled: \<open>thread_set_priority\<close> up to
  its yield, \<open>thread_create\<close> before it asks for an identifier and after it has one, the increment of
  \<open>next_tid\<close> under \<open>tid_lock\<close>, the look at the waiters in \<open>cond_broadcast\<close> and the assertions of
  \<open>lock_try_acquire\<close>.  There the timer interrupt comes before or after the step in this relation, while on
  the machine it may also come in between, so interleavings within these stretches are not covered.

  \<open>reachable\<close> is what any number of steps reach from the boot state; the invariants of these states
  are proved in \<open>Kernel_Inv\<close> and \<open>Kernel_Locks\<close>.
\<close>

fun run_frame :: "frame \<Rightarrow> kernel \<Rightarrow> kernel option" where
  "run_frame (SemaDownLoop s old) k = sema_down_loop s old k"
| "run_frame (SetLevel old) k = intr_set_level old k"
| "run_frame (LockAcquireTail l t lp old) k = lock_acquire_tail l t lp old k"
| "run_frame (LockTryTail l) k = lock_try_tail l k"
| "run_frame (LockReleaseTail t old) k = lock_release_tail t old k"
| "run_frame (CondWaitDown l) k = cond_wait_down l k"
| "run_frame (CondWaitAcquire l) k = lock_acquire l k"
| "run_frame (CondBroadcast c l) k = cond_broadcast c l k"
| "run_frame AllocTid k = allocate_tid_tail k"
| "run_frame (CreateTail t pri) k = thread_create_tail t pri k"
| "run_frame (ReturnTid t) k = Some (upd_thread t (\<lambda>x. x\<lparr>t_tid := k_ret k (k_cur k)\<rparr>) k)"
| "run_frame (KernelThread f) k = kernel_thread f k"
| "run_frame IdleBlock k = idle_block k"
| "run_frame IdleHalt k = idle_halt k"
| "run_frame IntrReturn k = intr_return k"
| "run_frame (StartDown s) k = thread_start_tail s k"

definition resume :: "kernel \<Rightarrow> kernel option" where
  "resume k = (case k_frames k (k_cur k) of [] \<Rightarrow> None | f # fs \<Rightarrow> run_frame f (pop_frame k))"

datatype call =
    SemaInit ptr u32 | SemaDown ptr | SemaTryDown ptr | SemaUp ptr
  | LockInit ptr | LockAcquire ptr | LockTryAcquire ptr | LockRelease ptr
  | CondInit ptr | CondWait ptr ptr | CondSignal ptr ptr | CondBcast ptr ptr
  | ThreadCreate ptr string int thread_func | ThreadExit | ThreadYield
  | ThreadSetPriority int | TimerSleep int
  | ThreadStart ptr | SynchInit

fun do_call :: "call \<Rightarrow> kernel \<Rightarrow> kernel option" where
  "do_call (SemaInit s v) k = sema_init (Sema s) v k"
| "do_call (SemaDown s) k = sema_down (Sema s) k"
| "do_call (SemaTryDown s) k = map_option snd (sema_try_down (Sema s) k)"
| "do_call (SemaUp s) k = sema_up (Sema s) k"
| "do_call (LockInit l) k = lock_init l k"
| "do_call (LockAcquire l) k = lock_acquire l k"
| "do_call (LockTryAcquire l) k = map_option snd (lock_try_acquire l k)"
| "do_call (LockRelease l) k = lock_release l k"
| "do_call (CondInit c) k = cond_init c k"
| "do_call (CondWait c l) k = cond_wait c l k"
| "do_call (CondSignal c l) k = cond_signal c l k"
| "do_call (CondBcast c l) k = cond_broadcast c l k"
| "do_call (ThreadCreate page nm pri f) k = thread_create page nm pri f k"
| "do_call ThreadExit k = thread_exit k"
| "do_call ThreadYield k = thread_yield k"
| "do_call (ThreadSetPriority p) k = thread_set_priority p k"
| "do_call (TimerSleep n) k = timer_sleep n k"
| "do_call (ThreadStart page) k = thread_start page k"
| "do_call SynchInit k = Some (synch_init k)"

subsection \<open>Steps\<close>

text \<open>
  What a caller owes: a semaphore is initialised only while no thread waits for it, a lock only while
  no thread acquires it, and the page for a new thread is not the page of a live one
  (\<open>palloc_get_page\<close> returns free pages).  The function \<open>idle\<close> is static to \<open>thread.c\<close>, where only
  \<open>thread_start\<close> creates a thread that runs it.
\<close>

definition acquiring :: "ptr \<Rightarrow> frame list \<Rightarrow> int" where
  "acquiring l fs = int (length (filter (\<lambda>f. case f of LockAcquireTail l' t lp old \<Rightarrow> l' = l | LockTryTail l' \<Rightarrow> l' = l | _ \<Rightarrow> False) fs)) -
     int (length (filter (\<lambda>f. case f of SemaDownLoop s old \<Rightarrow> s = LockSema l | _ \<Rightarrow> False) fs))"

fun call_ok :: "kernel \<Rightarrow> call \<Rightarrow> bool" where
  "call_ok k (SemaInit s v) \<longleftrightarrow> sema_waiters (k_semas k (Sema s)) = []"
| "call_ok k (LockInit l) \<longleftrightarrow> sema_waiters (k_semas k (LockSema l)) = [] \<and> (\<forall>t. acquiring l (k_frames k t) = 0)"
| "call_ok k (ThreadCreate page nm pri f) \<longleftrightarrow> (page = NULL \<or> \<not> is_thread k page) \<and> (\<forall>s. f \<noteq> IdleFunc s)"
| "call_ok k (ThreadStart page) \<longleftrightarrow> (page = NULL \<or> \<not> is_thread k page) \<and> sema_waiters (k_semas k idle_started) = []"
| "call_ok k c \<longleftrightarrow> True"

inductive step :: "kernel \<Rightarrow> kernel \<Rightarrow> bool" where
  step_resume: "resume k = Some k' \<Longrightarrow> step k k'"
| step_call: "k_frames k (k_cur k) = [] \<Longrightarrow> call_ok k c \<Longrightarrow> do_call c k = Some k' \<Longrightarrow> step k k'"
| step_timer: "k_intr k = INTR_ON \<Longrightarrow> external_interrupt timer_interrupt k = Some k' \<Longrightarrow> step k k'"

inductive reachable :: "kernel \<Rightarrow> kernel \<Rightarrow> bool" for k0 where
  reach_init: "reachable k0 k0"
| reach_step: "reachable k0 k \<Longrightarrow> step k k' \<Longrightarrow> reachable k0 k'"

text \<open>The zeroed memory in which \<open>main\<close> starts, with interrupts disabled.\<close>

definition zero_thread :: thread where
  "zero_thread = \<lparr>t_tid = 0, t_status = THREAD_RUNNING, t_name = [], t_stack = 0, t_original_priority = 0,
     t_priority = 0, t_lock_priority_list = [], t_awake_tick = 0, t_pagedir = 0, t_magic = 0\<rparr>"

definition zero_kernel :: kernel where
  "zero_kernel = \<lparr>k_threads = (\<lambda>_. zero_thread), k_frames = (\<lambda>_. []), k_cur = NULL, k_intr = INTR_OFF,
     k_in_external_intr = False, k_yield_on_return = False, k_cr3 = 0, k_esp0 = 0, ready_list = [],
     all_list = [], sleep_list = [], idle_thread = NULL, initial_thread = NULL, next_tid = 1,
     thread_ticks = 0, idle_ticks = 0, kernel_ticks = 0, user_ticks = 0, k_ticks = 0,
     k_semas = (\<lambda>_. \<lparr>sema_value = 0, sema_waiters = []\<rparr>), k_holder = (\<lambda>_. NULL),
     k_cond_waiters = (\<lambda>_. []), lock_priority_page = [], priority_donation_enabled = False,
     k_ret = (\<lambda>_. 0)\<rparr>"

text \<open>\<open>main\<close> turns the code that runs, whose stack is in \<open>page\<close>, into the first thread.\<close>

definition boot :: "ptr \<Rightarrow> kernel option" where
  "boot page = thread_init page zero_kernel"

end
