(* ===== verification/Kernel_Inv.thy ===== *)
theory Kernel_Inv
  imports Kernel_Run
begin

text \<open>
  The scheduling invariant: a thread on the ready list, among the sleepers or among the waiters of a
  semaphore is a valid thread in the status of that queue; the frame on top of a blocked thread's stack
  tells the one queue it can be on; the idle thread is on no queue; exactly the
  current thread is running.  \<open>queues_ok\<close> holds at every moment between two operations of the
  scheduler, \<open>op_inv\<close> while an operation of the running thread is under way, \<open>sched_inv\<close> between
  two steps.  Each operation has one lemma; \<open>step_inv\<close> puts them together.
\<close>

subsection \<open>Views of the state\<close>

definition st :: "kernel \<Rightarrow> ptr \<Rightarrow> thread_status" where
  "st k t = t_status (k_threads k t)"

definition vd :: "kernel \<Rightarrow> ptr \<Rightarrow> bool" where
  "vd k t = is_thread k t"

definition wt :: "kernel \<Rightarrow> sema_ref \<Rightarrow> ptr list" where
  "wt k s = sema_waiters (k_semas k s)"

lemma st_frame [simp]:
  "st (k\<lparr>k_frames := x_k_frames\<rparr>) = st k"
  "st (k\<lparr>k_cur := x_k_cur\<rparr>) = st k"
  "st (k\<lparr>k_intr := x_k_intr\<rparr>) = st k"
  "st (k\<lparr>k_in_external_intr := x_k_in_external_intr\<rparr>) = st k"
  "st (k\<lparr>k_yield_on_return := x_k_yield_on_return\<rparr>) = st k"
  "st (k\<lparr>k_cr3 := x_k_cr3\<rparr>) = st k"
  "st (k\<lparr>k_esp0 := x_k_esp0\<rparr>) = st k"
  "st (k\<lparr>ready_list := x_ready_list\<rparr>) = st k"
  "st (k\<lparr>all_list := x_all_list\<rparr>) = st k"
  "st (k\<lparr>sleep_list := x_sleep_list\<rparr>) = st k"
  "st (k\<lparr>idle_thread := x_idle_thread\<rparr>) = st k"
  "st (k\<lparr>initial_thread := x_initial_thread\<rparr>) = st k"
  "st (k\<lparr>next_tid := x_next_tid\<rparr>) = st k"
  "st (k\<lparr>thread_ticks := x_thread_ticks\<rparr>) = st k"
  "st (k\<lparr>idle_ticks := x_idle_ticks\<rparr>) = st k"
  "st (k\<lparr>kernel_ticks := x_kernel_ticks\<rparr>) = st k"
  "st (k\<lparr>user_ticks := x_user_ticks\<rparr>) = st k"
  "st (k\<lparr>k_ticks := x_k_ticks\<rparr>) = st k"
  "st (k\<lparr>k_semas := x_k_semas\<rparr>) = st k"
  "st (k\<lparr>k_holder := x_k_holder\<rparr>) = st k"
  "st (k\<lparr>k_cond_waiters := x_k_cond_waiters\<rparr>) = st k"
  "st (k\<lparr>lock_priority_page := x_lock_priority_page\<rparr>) = st k"
  "st (k\<lparr>priority_donation_enabled := x_priority_donation_enabled\<rparr>) = st k"
  "st (k\<lparr>k_ret := x_k_ret\<rparr>) = st k"
  "st (upd_sema s g k) = st k"
  "st (upd_lp i j k) = st k"
  "st (push_frame fr k) = st k"
  "st (pop_frame k) = st k"
  by (simp_all add: st_def fun_eq_iff)

lemma vd_frame [simp]:
  "vd (k\<lparr>k_frames := x_k_frames\<rparr>) = vd k"
  "vd (k\<lparr>k_cur := x_k_cur\<rparr>) = vd k"
  "vd (k\<lparr>k_intr := x_k_intr\<rparr>) = vd k"
  "vd (k\<lparr>k_in_external_intr := x_k_in_external_intr\<rparr>) = vd k"
  "vd (k\<lparr>k_yield_on_return := x_k_yield_on_return\<rparr>) = vd k"
  "vd (k\<lparr>k_cr3 := x_k_cr3\<rparr>) = vd k"
  "vd (k\<lparr>k_esp0 := x_k_esp0\<rparr>) = vd k"
  "vd (k\<lparr>ready_list := x_ready_list\<rparr>) = vd k"
  "vd (k\<lparr>all_list := x_all_list\<rparr>) = vd k"
  "vd (k\<lparr>sleep_list := x_sleep_list\<rparr>) = vd k"
  "vd (k\<lparr>idle_thread := x_idle_thread\<rparr>) = vd k"
  "vd (k\<lparr>initial_thread := x_initial_thread\<rparr>) = vd k"
  "vd (k\<lparr>next_tid := x_next_tid\<rparr>) = vd k"
  "vd (k\<lparr>thread_ticks := x_thread_ticks\<rparr>) = vd k"
  "vd (k\<lparr>idle_ticks := x_idle_ticks\<rparr>) = vd k"
  "vd (k\<lparr>kernel_ticks := x_kernel_ticks\<rparr>) = vd k"
  "vd (k\<lparr>user_ticks := x_user_ticks\<rparr>) = vd k"
  "vd (k\<lparr>k_ticks := x_k_ticks\<rparr>) = vd k"
  "vd (k\<lparr>k_semas := x_k_semas\<rparr>) = vd k"
  "vd (k\<lparr>k_holder := x_k_holder\<rparr>) = vd k"
  "vd (k\<lparr>k_cond_waiters := x_k_cond_waiters\<rparr>) = vd k"
  "vd (k\<lparr>lock_priority_page := x_lock_priority_page\<rparr>) = vd k"
  "vd (k\<lparr>priority_donation_enabled := x_priority_donation_enabled\<rparr>) = vd k"
  "vd (k\<lparr>k_ret := x_k_ret\<rparr>) = vd k"
  "vd (upd_sema s g k) = vd k"
  "vd (upd_lp i j k) = vd k"
  "vd (push_frame fr k) = vd k"
  "vd (pop_frame k) = vd k"
  by (simp_all add: vd_def is_thread_def fun_eq_iff)

lemma wt_frame [simp]:
  "wt (k\<lparr>k_threads := x_k_threads\<rparr>) = wt k"
  "wt (k\<lparr>k_frames := x_k_frames\<rparr>) = wt k"
  "wt (k\<lparr>k_cur := x_k_cur\<rparr>) = wt k"
  "wt (k\<lparr>k_intr := x_k_intr\<rparr>) = wt k"
  "wt (k\<lparr>k_in_external_intr := x_k_in_external_intr\<rparr>) = wt k"
  "wt (k\<lparr>k_yield_on_return := x_k_yield_on_return\<rparr>) = wt k"
  "wt (k\<lparr>k_cr3 := x_k_cr3\<rparr>) = wt k"
  "wt (k\<lparr>k_esp0 := x_k_esp0\<rparr>) = wt k"
  "wt (k\<lparr>ready_list := x_ready_list\<rparr>) = wt k"
  "wt (k\<lparr>all_list := x_all_list\<rparr>) = wt k"
  "wt (k\<lparr>sleep_list := x_sleep_list\<rparr>) = wt k"
  "wt (k\<lparr>idle_thread := x_idle_thread\<rparr>) = wt k"
  "wt (k\<lparr>initial_thread := x_initial_thread\<rparr>) = wt k"
  "wt (k\<lparr>next_tid := x_next_tid\<rparr>) = wt k"
  "wt (k\<lparr>thread_ticks := x_thread_ticks\<rparr>) = wt k"
  "wt (k\<lparr>idle_ticks := x_idle_ticks\<rparr>) = wt k"
  "wt (k\<lparr>kernel_ticks := x_kernel_ticks\<rparr>) = wt k"
  "wt (k\<lparr>user_ticks := x_user_ticks\<rparr>) = wt k"
  "wt (k\<lparr>k_ticks := x_k_ticks\<rparr>) = wt k"
  "wt (k\<lparr>k_holder := x_k_holder\<rparr>) = wt k"
  "wt (k\<lparr>k_cond_waiters := x_k_cond_waiters\<rparr>) = wt k"
  "wt (k\<lparr>lock_priority_page := x_lock_priority_page\<rparr>) = wt k"
  "wt (k\<lparr>priority_donation_enabled := x_priority_donation_enabled\<rparr>) = wt k"
  "wt (k\<lparr>k_ret := x_k_ret\<rparr>) = wt k"
  "wt (upd_thread t f k) = wt k"
  "wt (upd_lp i j k) = wt k"
  "wt (push_frame fr k) = wt k"
  "wt (pop_frame k) = wt k"
  by (simp_all add: wt_def fun_eq_iff)


lemma vd_upd_thread [simp]:
  "(\<And>x. t_magic (f x) = t_magic x) \<Longrightarrow> vd (upd_thread t f k) = vd k"
  by (simp add: vd_def is_thread_def fun_eq_iff)

lemma st_upd_thread [simp]:
  "(\<And>x. t_status (f x) = t_status x) \<Longrightarrow> st (upd_thread t f k) = st k"
  "st (upd_thread t (\<lambda>x. x\<lparr>t_status := s\<rparr>) k) = (st k)(t := s)"
  by (simp_all add: st_def fun_eq_iff)

lemma wt_upd_sema [simp]:
  "(\<And>x. sema_waiters (g x) = sema_waiters x) \<Longrightarrow> wt (upd_sema s g k) = wt k"
  "wt (upd_sema s (\<lambda>x. x\<lparr>sema_waiters := w x\<rparr>) k) = (wt k)(s := w (k_semas k s))"
  by (simp_all add: wt_def fun_eq_iff)

lemma view_fold: "t_status (k_threads k t) = st k t" "is_thread k t = vd k t" "sema_waiters (k_semas k s) = wt k s"
  by (simp_all add: st_def vd_def wt_def)


subsection \<open>The scheduling invariant\<close>

text \<open>The frames of the idle thread: its loop, possibly interrupted.\<close>

fun idle_frame :: "frame \<Rightarrow> bool" where
  "idle_frame (SetLevel old) = True"
| "idle_frame IdleBlock = True"
| "idle_frame IdleHalt = True"
| "idle_frame IntrReturn = True"
| "idle_frame _ = False"

definition idle_stack :: "frame list \<Rightarrow> bool" where
  "idle_stack fs \<longleftrightarrow> fs \<noteq> [] \<and> list_all idle_frame fs \<and> last fs \<in> {IdleBlock, IdleHalt}"

text \<open>The threads that a stack is about to make ready for the first time.\<close>

fun creating :: "frame list \<Rightarrow> ptr list" where
  "creating [] = []"
| "creating (CreateTail t p # fs) = t # creating fs"
| "creating (f # fs) = creating fs"

definition ready_ok :: "(ptr \<Rightarrow> bool) \<Rightarrow> (ptr \<Rightarrow> thread_status) \<Rightarrow> ptr \<Rightarrow> ptr list \<Rightarrow> bool" where
  "ready_ok v s idl rdy \<longleftrightarrow> distinct rdy \<and> (\<forall>t\<in>set rdy. v t \<and> s t = THREAD_READY \<and> t \<noteq> idl)"

definition blocked_ok ::
    "(ptr \<Rightarrow> bool) \<Rightarrow> (ptr \<Rightarrow> thread_status) \<Rightarrow> (ptr \<Rightarrow> frame list) \<Rightarrow> ptr \<Rightarrow> (frame \<Rightarrow> bool) \<Rightarrow> ptr list \<Rightarrow> bool" where
  "blocked_ok v s fr idl P q \<longleftrightarrow> distinct q \<and>
     (\<forall>t\<in>set q. v t \<and> s t = THREAD_BLOCKED \<and> t \<noteq> idl \<and> fr t \<noteq> [] \<and> P (hd (fr t)))"

fun sleeping :: "frame \<Rightarrow> bool" where
  "sleeping (SetLevel old) = True"
| "sleeping _ = False"

fun downing :: "sema_ref \<Rightarrow> frame \<Rightarrow> bool" where
  "downing s (SemaDownLoop s' old) = (s' = s)"
| "downing s _ = False"

definition idle_ok :: "(ptr \<Rightarrow> bool) \<Rightarrow> (ptr \<Rightarrow> thread_status) \<Rightarrow> (ptr \<Rightarrow> frame list) \<Rightarrow> ptr \<Rightarrow> bool" where
  "idle_ok v s fr idl \<longleftrightarrow> (idl \<noteq> NULL \<longrightarrow> v idl \<and> s idl \<noteq> THREAD_DYING \<and> idle_stack (fr idl))"

definition is_fresh :: "frame list \<Rightarrow> bool" where
  "is_fresh fs \<longleftrightarrow> (\<exists>f. fs = [KernelThread f])"

definition creating_ok :: "(ptr \<Rightarrow> bool) \<Rightarrow> (ptr \<Rightarrow> thread_status) \<Rightarrow> (ptr \<Rightarrow> frame list) \<Rightarrow> ptr \<Rightarrow> bool" where
  "creating_ok v s fr idl \<longleftrightarrow>
     (\<forall>u. \<forall>t\<in>set (creating (fr u)). v t \<and> s t = THREAD_BLOCKED \<and> t \<noteq> idl \<and> is_fresh (fr t))"

definition creating_inj :: "(ptr \<Rightarrow> frame list) \<Rightarrow> bool" where
  "creating_inj fr \<longleftrightarrow> (\<forall>u. distinct (creating (fr u))) \<and>
     (\<forall>u w t. t \<in> set (creating (fr u)) \<longrightarrow> t \<in> set (creating (fr w)) \<longrightarrow> u = w)"

definition fresh_ok :: "(ptr \<Rightarrow> frame list) \<Rightarrow> bool" where
  "fresh_ok fr \<longleftrightarrow> (\<forall>u f. KernelThread f \<in> set (fr u) \<longrightarrow> fr u = [KernelThread f])"

definition dom_ok :: "(ptr \<Rightarrow> bool) \<Rightarrow> (ptr \<Rightarrow> frame list) \<Rightarrow> bool" where
  "dom_ok v fr \<longleftrightarrow> (\<forall>t. fr t \<noteq> [] \<longrightarrow> v t)"

text \<open>A thread only ever waits on its own condition waiter, and its lock frames name itself.\<close>

fun frame_own :: "ptr \<Rightarrow> frame \<Rightarrow> bool" where
  "frame_own u (SemaDownLoop (WaiterSema t) old) = (t = u)"
| "frame_own u (LockAcquireTail l t lp old) = (t = u)"
| "frame_own u (LockReleaseTail t old) = (t = u)"
| "frame_own u (StartDown (WaiterSema t)) = (t = u)"
| "frame_own u f = True"

definition own_ok :: "(ptr \<Rightarrow> frame list) \<Rightarrow> bool" where
  "own_ok fr \<longleftrightarrow> (\<forall>u. list_all (frame_own u) (fr u))"

definition frames_ok ::
    "(ptr \<Rightarrow> bool) \<Rightarrow> (ptr \<Rightarrow> thread_status) \<Rightarrow> (ptr \<Rightarrow> frame list) \<Rightarrow> ptr \<Rightarrow> bool" where
  "frames_ok v s fr idl \<longleftrightarrow>
     dom_ok v fr \<and> idle_ok v s fr idl \<and> creating_ok v s fr idl \<and> creating_inj fr \<and> fresh_ok fr \<and> own_ok fr"

definition queues_ok :: "kernel \<Rightarrow> bool" where
  "queues_ok k \<longleftrightarrow>
     ready_ok (vd k) (st k) (idle_thread k) (ready_list k) \<and>
     blocked_ok (vd k) (st k) (k_frames k) (idle_thread k) sleeping (sleep_list k) \<and>
     (\<forall>s. blocked_ok (vd k) (st k) (k_frames k) (idle_thread k) (downing s) (wt k s)) \<and>
     frames_ok (vd k) (st k) (k_frames k) (idle_thread k)"

definition running_ok :: "kernel \<Rightarrow> bool" where
  "running_ok k \<longleftrightarrow> vd k (k_cur k) \<and> st k (k_cur k) = THREAD_RUNNING \<and>
     (\<forall>t. vd k t \<longrightarrow> st k t = THREAD_RUNNING \<longrightarrow> t = k_cur k)"

definition none_running :: "kernel \<Rightarrow> bool" where
  "none_running k \<longleftrightarrow> (\<forall>t. vd k t \<longrightarrow> st k t \<noteq> THREAD_RUNNING)"

text \<open>A thread that has not started yet runs with interrupts disabled.\<close>

definition fresh_off :: "kernel \<Rightarrow> bool" where
  "fresh_off k \<longleftrightarrow> (\<forall>f. k_frames k (k_cur k) = [KernelThread f] \<longrightarrow> k_intr k = INTR_OFF)"

definition started :: "kernel \<Rightarrow> bool" where
  "started k \<longleftrightarrow> (\<forall>f. k_frames k (k_cur k) \<noteq> [KernelThread f])"

definition sched_inv :: "kernel \<Rightarrow> bool" where
  "sched_inv k \<longleftrightarrow> queues_ok k \<and> running_ok k \<and> fresh_off k"

lemmas inv_defs = queues_ok_def running_ok_def none_running_def fresh_off_def started_def
  ready_ok_def blocked_ok_def

lemma readyD: "queues_ok k \<Longrightarrow> t \<in> set (ready_list k) \<Longrightarrow> vd k t \<and> st k t = THREAD_READY \<and> t \<noteq> idle_thread k"
  by (simp add: queues_ok_def ready_ok_def)

lemma sleepD:
  "queues_ok k \<Longrightarrow> t \<in> set (sleep_list k) \<Longrightarrow>
    vd k t \<and> st k t = THREAD_BLOCKED \<and> t \<noteq> idle_thread k \<and> k_frames k t \<noteq> [] \<and> sleeping (hd (k_frames k t))"
  by (simp add: queues_ok_def blocked_ok_def)

lemma waitD:
  "queues_ok k \<Longrightarrow> t \<in> set (wt k s) \<Longrightarrow>
    vd k t \<and> st k t = THREAD_BLOCKED \<and> t \<noteq> idle_thread k \<and> k_frames k t \<noteq> [] \<and> downing s (hd (k_frames k t))"
  by (simp add: queues_ok_def blocked_ok_def)

lemma createD:
  "queues_ok k \<Longrightarrow> t \<in> set (creating (k_frames k u)) \<Longrightarrow>
    vd k t \<and> st k t = THREAD_BLOCKED \<and> t \<noteq> idle_thread k \<and> is_fresh (k_frames k t)"
  by (simp add: queues_ok_def frames_ok_def creating_ok_def)

lemma freshD: "queues_ok k \<Longrightarrow> KernelThread f \<in> set (k_frames k u) \<Longrightarrow> k_frames k u = [KernelThread f]"
  by (simp add: queues_ok_def frames_ok_def fresh_ok_def)

lemma pick_hd_tl: "xs \<noteq> [] \<Longrightarrow> list_max_by conv xs \<in> set xs"
  using pick_in [of "default_list_less_func conv" "hd xs" "tl xs"]
  by (cases xs) (auto simp: list_max_by_def)

lemma frames_ok_status:
  "frames_ok v s fr idl \<Longrightarrow> (\<And>u. t \<notin> set (creating (fr u))) \<Longrightarrow> t \<noteq> idl \<or> x \<noteq> THREAD_DYING \<Longrightarrow>
    frames_ok v (s(t := x)) fr idl"
  by (auto simp: frames_ok_def idle_ok_def creating_ok_def)

definition queued :: "kernel \<Rightarrow> ptr \<Rightarrow> bool" where
  "queued k t \<longleftrightarrow> t \<in> set (ready_list k) \<or> t \<in> set (sleep_list k) \<or> (\<exists>s. t \<in> set (wt k s)) \<or>
     (\<exists>u. t \<in> set (creating (k_frames k u)))"

lemma set_status_ok:
  assumes q: "queues_ok k" and t: "\<not> queued k t" "t \<noteq> idle_thread k \<or> x \<noteq> THREAD_DYING"
  shows "queues_ok (upd_thread t (\<lambda>y. y\<lparr>t_status := x\<rparr>) k)"
proof -
  have "frames_ok (vd k) ((st k)(t := x)) (k_frames k) (idle_thread k)"
    using q t by (intro frames_ok_status) (auto simp: queues_ok_def queued_def)
  moreover have "ready_ok (vd k) ((st k)(t := x)) (idle_thread k) (ready_list k)"
    using q t by (auto simp: queues_ok_def queued_def ready_ok_def)
  moreover have "blocked_ok (vd k) ((st k)(t := x)) (k_frames k) (idle_thread k) sleeping (sleep_list k)"
    using q t by (auto simp: queues_ok_def queued_def blocked_ok_def)
  moreover have "blocked_ok (vd k) ((st k)(t := x)) (k_frames k) (idle_thread k) (downing s) (wt k s)" for s
    using q t by (auto simp: queues_ok_def queued_def blocked_ok_def)
  ultimately show ?thesis by (simp add: queues_ok_def)
qed

lemma make_ready_ok:
  assumes q: "queues_ok k" and t: "\<not> queued k t" "vd k t" "t \<noteq> idle_thread k"
  shows "queues_ok (upd_thread t (\<lambda>x. x\<lparr>t_status := THREAD_READY\<rparr>) (k\<lparr>ready_list := ready_list k @ [t]\<rparr>))"
  using set_status_ok [OF q t(1), of THREAD_READY] t
  by (auto simp: queues_ok_def queued_def ready_ok_def)

text \<open>What the choice of the next thread leaves: it is on no queue and can be marked as running.\<close>

lemma ready_not_queued:
  assumes q: "queues_ok k" and t: "t \<in> set (ready_list k)"
  shows "\<not> queued (k\<lparr>ready_list := remove1 t (ready_list k)\<rparr>) t"
  using readyD [OF q t] sleepD [OF q, of t] waitD [OF q, of t] createD [OF q, of t] q
  by (auto simp: queued_def queues_ok_def ready_ok_def)

lemma idle_not_queued:
  assumes q: "queues_ok k" shows "\<not> queued k (idle_thread k)"
  using readyD [OF q, of "idle_thread k"] sleepD [OF q, of "idle_thread k"] waitD [OF q, of "idle_thread k"]
    createD [OF q, of "idle_thread k"]
  by (auto simp: queued_def)

lemma queues_ok_remove_ready: "queues_ok k \<Longrightarrow> queues_ok (k\<lparr>ready_list := remove1 t (ready_list k)\<rparr>)"
  by (auto simp: queues_ok_def ready_ok_def dest: notin_set_remove1)

lemma next_thread_queues:
  assumes q: "queues_ok k" and nx: "next_thread_to_run k = (t, k1)"
  shows "queues_ok (upd_thread t (\<lambda>x. x\<lparr>t_status := THREAD_RUNNING\<rparr>) k1)"
proof (cases "ready_list k = []")
  case True
  then have "k1 = k" "t = idle_thread k" using nx by (auto simp: next_thread_to_run_def)
  with q show ?thesis using set_status_ok [OF q idle_not_queued [OF q]] by simp
next
  case False
  then have t: "t \<in> set (ready_list k)" and k1: "k1 = k\<lparr>ready_list := remove1 t (ready_list k)\<rparr>"
    using nx pick_hd_tl [OF False] by (auto simp: next_thread_to_run_def Let_def)
  show ?thesis unfolding k1
    by (rule set_status_ok [OF queues_ok_remove_ready [OF q] ready_not_queued [OF q t]]) simp
qed

lemma next_thread_frame:
  "next_thread_to_run k = (t, k1) \<Longrightarrow> vd k1 = vd k \<and> st k1 = st k \<and> k_cur k1 = k_cur k \<and>
     k_intr k1 = k_intr k \<and> k_frames k1 = k_frames k \<and> idle_thread k1 = idle_thread k \<and> initial_thread k1 = initial_thread k"
  by (auto simp: next_thread_to_run_def Let_def split: if_splits)

lemma free_thread_page_views [simp]:
  "vd (free_thread_page t k) = (vd k)(t := False)" "st (free_thread_page t k) = st k"
  "wt (free_thread_page t k) = wt k" "k_cur (free_thread_page t k) = k_cur k"
  "k_frames (free_thread_page t k) = (k_frames k)(t := [])" "k_intr (free_thread_page t k) = k_intr k"
  "ready_list (free_thread_page t k) = ready_list k" "sleep_list (free_thread_page t k) = sleep_list k"
  "idle_thread (free_thread_page t k) = idle_thread k" "k_holder (free_thread_page t k) = k_holder k"
  "k_semas (free_thread_page t k) = k_semas k"
  by (simp_all add: free_thread_page_def vd_def is_thread_def THREAD_MAGIC_def fun_eq_iff)

lemma free_queues_ok:
  "queues_ok k \<Longrightarrow> st k t = THREAD_DYING \<Longrightarrow> queues_ok (free_thread_page t k)"
  by (auto simp: queues_ok_def ready_ok_def blocked_ok_def frames_ok_def dom_ok_def idle_ok_def
      creating_ok_def creating_inj_def fresh_ok_def is_fresh_def own_ok_def)

lemma free_running_ok: "running_ok k \<Longrightarrow> t \<noteq> k_cur k \<Longrightarrow> running_ok (free_thread_page t k)"
  by (simp add: running_ok_def)

lemma queues_ok_cong:
  assumes "vd k' = vd k" "st k' = st k" "wt k' = wt k" "k_frames k' = k_frames k" "ready_list k' = ready_list k"
    "sleep_list k' = sleep_list k" "idle_thread k' = idle_thread k"
  shows "queues_ok k' = queues_ok k"
  by (simp add: queues_ok_def assms)

text \<open>The processor switched to thread \<open>t\<close>.\<close>

definition switched :: "ptr \<Rightarrow> kernel \<Rightarrow> kernel" where
  "switched t k = (upd_thread t (\<lambda>x. x\<lparr>t_status := THREAD_RUNNING\<rparr>) (k\<lparr>k_cur := t\<rparr>))
     \<lparr>thread_ticks := 0,
      k_cr3 := (if t_pagedir (k_threads k t) = NULL then init_page_dir else t_pagedir (k_threads k t)),
      k_esp0 := t + PGSIZE\<rparr>"

lemma switched_views [simp]:
  "vd (switched t k) = vd k" "st (switched t k) = (st k)(t := THREAD_RUNNING)" "wt (switched t k) = wt k"
  "k_cur (switched t k) = t" "k_frames (switched t k) = k_frames k" "k_intr (switched t k) = k_intr k"
  "ready_list (switched t k) = ready_list k" "sleep_list (switched t k) = sleep_list k"
  "idle_thread (switched t k) = idle_thread k" "k_holder (switched t k) = k_holder k"
  "k_semas (switched t k) = k_semas k"
  by (simp_all add: switched_def)

lemma thread_schedule_tail_eq:
  assumes "vd k t" "prev \<noteq> t"
  shows "thread_schedule_tail prev (k\<lparr>k_cur := t\<rparr>) = (if k_intr k = INTR_OFF then
    Some (if prev \<noteq> NULL \<and> st k prev = THREAD_DYING \<and> prev \<noteq> initial_thread k
          then free_thread_page prev (switched t k) else switched t k) else None)"
  using assms
  by (simp add: thread_schedule_tail_def process_activate_def thread_current_def running_thread_def
      intr_get_level_def switched_def st_def vd_def is_thread_def Let_def)

lemma schedule_Some:
  assumes "schedule k = Some k'"
  obtains t k1 prev where "next_thread_to_run k = (t, k1)" "vd k t" "k_intr k = INTR_OFF" "prev \<noteq> t"
    "k' = switched t k1 \<or> k' = free_thread_page prev (switched t k1) \<and> st k prev = THREAD_DYING"
proof -
  obtain t k1 where nx: "next_thread_to_run k = (t, k1)" by fastforce
  note fr = next_thread_frame [OF nx]
  let ?prev = "if k_cur k = t then NULL else k_cur k"
  have off: "k_intr k = INTR_OFF" and v: "vd k1 t" and tl: "thread_schedule_tail ?prev (k1\<lparr>k_cur := t\<rparr>) = Some k'"
    using assms nx fr
    by (auto simp: schedule_def running_thread_def intr_get_level_def view_fold Let_def split: if_splits)
  have p: "?prev \<noteq> t" using v by (auto simp: vd_def is_thread_def)
  note thread_schedule_tail_eq [OF v p]
  with tl fr have "k' = switched t k1 \<or> k' = free_thread_page ?prev (switched t k1) \<and> st k ?prev = THREAD_DYING"
    using off by (simp split: if_splits)
  then show ?thesis using v fr by (intro that [OF nx _ off p]) simp_all
qed

lemma schedule_inv:
  assumes q: "queues_ok k" and n: "none_running k" and s: "schedule k = Some k'"
  shows "queues_ok k' \<and> running_ok k' \<and> k_intr k' = INTR_OFF"
  using s
proof (rule schedule_Some)
  fix t k1 prev
  assume nx: "next_thread_to_run k = (t, k1)" and v: "vd k t" and off: "k_intr k = INTR_OFF" and p: "prev \<noteq> t"
    and k': "k' = switched t k1 \<or> k' = free_thread_page prev (switched t k1) \<and> st k prev = THREAD_DYING"
  note fr = next_thread_frame [OF nx]
  have "queues_ok (upd_thread t (\<lambda>x. x\<lparr>t_status := THREAD_RUNNING\<rparr>) k1)"
    using next_thread_queues [OF q nx] v fr by simp
  then have q3: "queues_ok (switched t k1)" by (simp add: queues_ok_def)
  have r3: "running_ok (switched t k1)" "k_intr (switched t k1) = INTR_OFF"
    using n v off fr by (auto simp: running_ok_def none_running_def)
  from k' show ?thesis
  proof
    assume "k' = switched t k1" with q3 r3 show ?thesis by simp
  next
    assume a: "k' = free_thread_page prev (switched t k1) \<and> st k prev = THREAD_DYING"
    with q3 p fr have "queues_ok k'" using free_queues_ok [of "switched t k1" prev] by simp
    with free_running_ok [OF r3(1), of prev] r3(2) a p show ?thesis by simp
  qed
qed

subsection \<open>The operations of the scheduler keep the invariant\<close>

text \<open>The state inside an operation of the running thread.\<close>

definition op_inv :: "kernel \<Rightarrow> bool" where
  "op_inv k \<longleftrightarrow> queues_ok k \<and> running_ok k \<and> started k"

lemma op_inv_sched: "op_inv k \<Longrightarrow> sched_inv k"
  by (simp add: op_inv_def sched_inv_def fresh_off_def started_def)

lemma op_inv_frame [simp]:
  "op_inv (k\<lparr>k_intr := x_k_intr\<rparr>) = op_inv k"
  "op_inv (k\<lparr>k_in_external_intr := x_k_in_external_intr\<rparr>) = op_inv k"
  "op_inv (k\<lparr>k_yield_on_return := x_k_yield_on_return\<rparr>) = op_inv k"
  "op_inv (k\<lparr>k_cr3 := x_k_cr3\<rparr>) = op_inv k"
  "op_inv (k\<lparr>k_esp0 := x_k_esp0\<rparr>) = op_inv k"
  "op_inv (k\<lparr>all_list := x_all_list\<rparr>) = op_inv k"
  "op_inv (k\<lparr>initial_thread := x_initial_thread\<rparr>) = op_inv k"
  "op_inv (k\<lparr>next_tid := x_next_tid\<rparr>) = op_inv k"
  "op_inv (k\<lparr>thread_ticks := x_thread_ticks\<rparr>) = op_inv k"
  "op_inv (k\<lparr>idle_ticks := x_idle_ticks\<rparr>) = op_inv k"
  "op_inv (k\<lparr>kernel_ticks := x_kernel_ticks\<rparr>) = op_inv k"
  "op_inv (k\<lparr>user_ticks := x_user_ticks\<rparr>) = op_inv k"
  "op_inv (k\<lparr>k_ticks := x_k_ticks\<rparr>) = op_inv k"
  "op_inv (k\<lparr>k_holder := x_k_holder\<rparr>) = op_inv k"
  "op_inv (k\<lparr>k_cond_waiters := x_k_cond_waiters\<rparr>) = op_inv k"
  "op_inv (k\<lparr>lock_priority_page := x_lock_priority_page\<rparr>) = op_inv k"
  "op_inv (k\<lparr>priority_donation_enabled := x_priority_donation_enabled\<rparr>) = op_inv k"
  "op_inv (k\<lparr>k_ret := x_k_ret\<rparr>) = op_inv k"
  "op_inv (upd_lp i j k) = op_inv k"
  "(\<And>x. sema_waiters (g x) = sema_waiters x) \<Longrightarrow> op_inv (upd_sema s g k) = op_inv k"
  "(\<And>x. t_status (f x) = t_status x) \<Longrightarrow> (\<And>x. t_magic (f x) = t_magic x) \<Longrightarrow>
    op_inv (upd_thread t f k) = op_inv k"
  by (simp_all add: op_inv_def queues_ok_def running_ok_def started_def)

lemma op_inv_cur:
  assumes k: "op_inv k"
  shows "vd k (k_cur k)" "st k (k_cur k) = THREAD_RUNNING" "k_cur k \<notin> set (ready_list k)"
    "k_cur k \<notin> set (sleep_list k)" "k_cur k \<notin> set (wt k s)" "k_cur k \<noteq> NULL"
    "k_cur k \<notin> set (creating (k_frames k u))" "KernelThread f \<notin> set (k_frames k (k_cur k))"
proof -
  show v: "vd k (k_cur k)" and r: "st k (k_cur k) = THREAD_RUNNING"
    using k by (simp_all add: op_inv_def running_ok_def)
  have q: "queues_ok k" using k by (simp add: op_inv_def)
  show "k_cur k \<notin> set (ready_list k)" using readyD [OF q] r by fastforce
  show "k_cur k \<notin> set (sleep_list k)" using sleepD [OF q] r by fastforce
  show "k_cur k \<notin> set (wt k s)" using waitD [OF q] r by fastforce
  show "k_cur k \<notin> set (creating (k_frames k u))" using createD [OF q] r by fastforce
  show "k_cur k \<noteq> NULL" using v by (simp add: vd_def is_thread_def)
  show "KernelThread f \<notin> set (k_frames k (k_cur k))"
    using freshD [OF q] k by (auto simp: op_inv_def started_def)
qed

fun plain_frame :: "frame \<Rightarrow> bool" where
  "plain_frame (CreateTail t p) = False"
| "plain_frame (KernelThread f) = False"
| "plain_frame _ = True"

lemma creating_plain [simp]: "plain_frame f \<Longrightarrow> creating (f # fs) = creating fs"
  by (cases f) simp_all

lemma creating_injD:
  "creating_inj fr \<Longrightarrow> distinct (creating (fr u))"
  "creating_inj fr \<Longrightarrow> t \<in> set (creating (fr u)) \<Longrightarrow> t \<in> set (creating (fr w)) \<Longrightarrow> u = w"
  by (simp_all add: creating_inj_def)

lemma creating_inj_sub:
  assumes "creating_inj fr" "\<And>u. set (creating (fr' u)) \<subseteq> set (creating (fr u))" "\<And>u. distinct (creating (fr' u))"
  shows "creating_inj fr'"
  unfolding creating_inj_def using assms(3) creating_injD(2) [OF assms(1)] assms(2) by blast

lemma creating_ok_sub:
  assumes "creating_ok v s fr idl" "\<And>u. set (creating (fr' u)) \<subseteq> set (creating (fr u))"
    "\<And>u t. t \<in> set (creating (fr' u)) \<Longrightarrow> fr' t = fr t"
  shows "creating_ok v s fr' idl"
  unfolding creating_ok_def
proof (intro allI ballI)
  fix u t assume t: "t \<in> set (creating (fr' u))"
  with assms(2) have "t \<in> set (creating (fr u))" by blast
  with assms(1) assms(3) [OF t] show "v t \<and> s t = THREAD_BLOCKED \<and> t \<noteq> idl \<and> is_fresh (fr' t)"
    by (simp add: creating_ok_def)
qed

lemma idleD: "queues_ok k \<Longrightarrow> idle_thread k \<noteq> NULL \<Longrightarrow> idle_stack (k_frames k (idle_thread k))"
  by (simp add: queues_ok_def frames_ok_def idle_ok_def)

lemma creating_distinct: "queues_ok k \<Longrightarrow> distinct (creating (k_frames k u))"
  by (simp add: queues_ok_def frames_ok_def creating_injD)

text \<open>Replacing the frames of the running thread.\<close>

lemma cur_frames_inv:
  assumes q: "queues_ok k" and r: "running_ok k"
    and c: "set (creating fs) \<subseteq> set (creating (k_frames k (k_cur k)))" "distinct (creating fs)"
    and kt: "\<And>g. KernelThread g \<notin> set fs" and i: "k_cur k = idle_thread k \<Longrightarrow> idle_stack fs"
    and ow: "list_all (frame_own (k_cur k)) fs"
  shows "op_inv (k\<lparr>k_frames := (k_frames k)(k_cur k := fs)\<rparr>)"
proof -
  let ?fr = "(k_frames k)(k_cur k := fs)"
  have fo: "frames_ok (vd k) (st k) (k_frames k) (idle_thread k)" using q by (simp add: queues_ok_def)
  have ci: "creating_inj (k_frames k)" using fo by (simp add: frames_ok_def)
  have cs: "set (creating (?fr u)) \<subseteq> set (creating (k_frames k u))" for u using c by simp
  have cur: "k_cur k \<notin> set (creating (k_frames k u))" "k_cur k \<notin> set (sleep_list k)" "k_cur k \<notin> set (wt k s)" for u s
    using createD [OF q, of "k_cur k" u] sleepD [OF q, of "k_cur k"] waitD [OF q, of "k_cur k"] r
    by (auto simp: running_ok_def)
  have "dom_ok (vd k) ?fr" "idle_ok (vd k) (st k) ?fr (idle_thread k)"
    using fo i r by (auto simp: frames_ok_def dom_ok_def idle_ok_def running_ok_def)
  moreover have "creating_inj ?fr"
  proof (rule creating_inj_sub [OF ci cs])
    show "distinct (creating (?fr u))" for u
      using creating_injD(1) [OF ci, of u] c by (cases "u = k_cur k") simp_all
  qed
  moreover have "creating_ok (vd k) (st k) ?fr (idle_thread k)"
  proof (rule creating_ok_sub [OF _ cs])
    show "creating_ok (vd k) (st k) (k_frames k) (idle_thread k)" using fo by (simp add: frames_ok_def)
    show "?fr t = k_frames k t" if "t \<in> set (creating (?fr u))" for u t
      using that cs [of u] cur(1) [of u] by auto
  qed
  moreover have "fresh_ok ?fr" "own_ok ?fr" using fo kt ow by (auto simp: frames_ok_def fresh_ok_def own_ok_def)
  ultimately have "frames_ok (vd k) (st k) ?fr (idle_thread k)" by (simp add: frames_ok_def)
  moreover have "blocked_ok (vd k) (st k) ?fr (idle_thread k) sleeping (sleep_list k)"
    "blocked_ok (vd k) (st k) ?fr (idle_thread k) (downing s) (wt k s)" for s
    using q cur(2,3) by (auto simp: queues_ok_def blocked_ok_def)
  moreover have "fs \<noteq> [KernelThread g]" for g using kt [of g] by auto
  ultimately show ?thesis using q r by (simp add: op_inv_def queues_ok_def running_ok_def started_def)
qed

lemma ownD: "queues_ok k \<Longrightarrow> list_all (frame_own u) (k_frames k u)"
  by (simp add: queues_ok_def frames_ok_def own_ok_def)

lemma push_frame_inv:
  assumes k: "op_inv k" and f: "plain_frame f" "k_cur k = idle_thread k \<Longrightarrow> idle_frame f" "frame_own (k_cur k) f"
  shows "op_inv (push_frame f k)"
proof -
  have q: "queues_ok k" and r: "running_ok k" using k by (simp_all add: op_inv_def)
  show ?thesis unfolding push_frame_def
  proof (rule cur_frames_inv [OF q r])
    show "set (creating (f # k_frames k (k_cur k))) \<subseteq> set (creating (k_frames k (k_cur k)))"
      "distinct (creating (f # k_frames k (k_cur k)))"
      using f(1) creating_distinct [OF q] by simp_all
    show "KernelThread g \<notin> set (f # k_frames k (k_cur k))" for g
      using op_inv_cur(8) [OF k, of g] f(1) by auto
    show "idle_stack (f # k_frames k (k_cur k))" if "k_cur k = idle_thread k"
      using idleD [OF q] op_inv_cur(6) [OF k] f(2) that by (simp add: idle_stack_def)
    show "list_all (frame_own (k_cur k)) (f # k_frames k (k_cur k))" using ownD [OF q] f(3) by simp
  qed
qed

lemma intr_set_level_Some:
  "intr_set_level l k = Some k' \<Longrightarrow> k' = k\<lparr>k_intr := l\<rparr>"
  by (cases l) (auto simp: intr_set_level_def intr_enable_def intr_disable_def split: if_splits)

lemma intr_disable_eq [simp]: "intr_disable k = (k_intr k, k\<lparr>k_intr := INTR_OFF\<rparr>)"
  by (simp add: intr_disable_def intr_get_level_def)

lemma intr_set_level_inv: "op_inv k \<Longrightarrow> intr_set_level l k = Some k' \<Longrightarrow> op_inv k'"
  by (auto dest: intr_set_level_Some)

lemma intr_set_level_sched: "op_inv k \<Longrightarrow> intr_set_level l k = Some k' \<Longrightarrow> sched_inv k'"
  by (rule op_inv_sched [OF intr_set_level_inv])

lemma thread_current_eq: "running_ok k \<Longrightarrow> thread_current k = Some (k_cur k)"
  by (simp add: running_ok_def thread_current_def running_thread_def view_fold)

lemma thread_current_op [simp]: "op_inv k \<Longrightarrow> thread_current k = Some (k_cur k)"
  by (simp add: op_inv_def thread_current_eq)

lemma none_running_upd:
  "running_ok k \<Longrightarrow> s \<noteq> THREAD_RUNNING \<Longrightarrow> none_running (upd_thread (k_cur k) (\<lambda>x. x\<lparr>t_status := s\<rparr>) k)"
  by (auto simp: running_ok_def none_running_def)

lemma schedule_sched_inv: "queues_ok k \<Longrightarrow> none_running k \<Longrightarrow> schedule k = Some k' \<Longrightarrow> sched_inv k'"
  using schedule_inv [of k k'] by (simp add: sched_inv_def fresh_off_def)

lemma thread_block_inv:
  assumes "running_ok k" "queues_ok (upd_thread (k_cur k) (\<lambda>x. x\<lparr>t_status := THREAD_BLOCKED\<rparr>) k)"
    and "thread_block k = Some k'"
  shows "sched_inv k'"
  using assms schedule_sched_inv [OF assms(2) none_running_upd]
  by (auto simp: thread_block_def thread_current_eq split: if_splits)

lemma op_inv_not_queued: "op_inv k \<Longrightarrow> \<not> queued k (k_cur k)"
  using op_inv_cur [of k] by (auto simp: queued_def)

lemma thread_yield_inv:
  assumes k: "op_inv k" and y: "thread_yield k = Some k'"
  shows "sched_inv k'"
proof -
  let ?k0 = "k\<lparr>k_intr := INTR_OFF\<rparr>"
  let ?k1 = "push_frame (SetLevel (k_intr k)) ?k0"
  let ?k2 = "if k_cur k \<noteq> idle_thread k then ?k0\<lparr>ready_list := ready_list ?k0 @ [k_cur k]\<rparr> else ?k0"
  let ?k3 = "push_frame (SetLevel (k_intr k)) (upd_thread (k_cur k) (\<lambda>x. x\<lparr>t_status := THREAD_READY\<rparr>) ?k2)"
  have k1: "op_inv ?k1" using k by (intro push_frame_inv) auto
  have "queues_ok ?k3"
    using make_ready_ok [of ?k1 "k_cur k"] set_status_ok [of ?k1 "k_cur k" THREAD_READY]
      op_inv_not_queued [OF k1] op_inv_cur(1) [OF k1] k1
    by (cases "k_cur k = idle_thread k") (simp_all add: op_inv_def queues_ok_def)
  moreover have "none_running ?k3"
    using k by (auto simp: op_inv_def none_running_def running_ok_def)
  moreover have "schedule ?k3 = Some k'"
    using y k by (simp add: thread_yield_def Let_def split: if_splits)
  ultimately show ?thesis by (rule schedule_sched_inv)
qed

lemma thread_unblock_Some:
  assumes "thread_unblock t k = Some k'"
  shows "vd k t \<and> st k t = THREAD_BLOCKED \<and>
    k' = (upd_thread t (\<lambda>x. x\<lparr>t_status := THREAD_READY\<rparr>)
      (k\<lparr>k_intr := INTR_OFF, ready_list := ready_list k @ [t]\<rparr>))\<lparr>k_intr := k_intr k\<rparr>"
  using assms
  by (simp add: thread_unblock_def view_fold Let_def split: if_splits) (auto dest: intr_set_level_Some)

lemma make_ready_inv:
  assumes k: "op_inv k" and t: "\<not> queued k t" "vd k t" "t \<noteq> idle_thread k" "st k t = THREAD_BLOCKED"
  shows "op_inv (upd_thread t (\<lambda>x. x\<lparr>t_status := THREAD_READY\<rparr>) (k\<lparr>ready_list := ready_list k @ [t]\<rparr>))"
proof -
  have "t \<noteq> k_cur k" using op_inv_cur(2) [OF k] t(4) by auto
  then have "running_ok (upd_thread t (\<lambda>x. x\<lparr>t_status := THREAD_READY\<rparr>) (k\<lparr>ready_list := ready_list k @ [t]\<rparr>))"
    using k by (simp add: op_inv_def running_ok_def)
  then show ?thesis using make_ready_ok [of k t] k t by (simp add: op_inv_def started_def)
qed

lemma thread_unblock_inv:
  assumes "op_inv k" "\<not> queued k t" "t \<noteq> idle_thread k" "thread_unblock t k = Some k'"
  shows "op_inv k' \<and> k_cur k' = k_cur k \<and> idle_thread k' = idle_thread k \<and> k_frames k' = k_frames k"
  using make_ready_inv [of "k\<lparr>k_intr := INTR_OFF\<rparr>" t] thread_unblock_Some [OF assms(4)] assms
  by (simp add: queued_def)

text \<open>A thread taken off a wait queue or off the sleepers is on no queue.\<close>

lemma wait_not_queued:
  assumes q: "queues_ok k" and t: "t \<in> set (wt k s)"
  shows "\<not> queued (upd_sema s (\<lambda>x. x\<lparr>sema_waiters := remove1 t (sema_waiters x)\<rparr>) k) t"
proof -
  note w = waitD [OF q t]
  have "t \<notin> set (ready_list k)" using readyD [OF q, of t] w by auto
  moreover have "t \<notin> set (sleep_list k)"
    using sleepD [OF q, of t] w by (cases "hd (k_frames k t)") auto
  moreover have "t \<notin> set (creating (k_frames k u))" for u
    using createD [OF q, of t u] w by (auto simp: is_fresh_def)
  moreover have "t \<notin> set (wt k s')" if "s' \<noteq> s" for s'
    using waitD [OF q, of t s'] w that by (cases "hd (k_frames k t)") auto
  moreover have "t \<notin> set (remove1 t (wt k s))"
    using q by (auto simp: queues_ok_def blocked_ok_def)
  ultimately show ?thesis by (auto simp: queued_def wt_def)
qed

lemma sleep_not_queued:
  assumes q: "queues_ok k" and t: "t \<in> set (sleep_list k)"
  shows "\<not> queued (k\<lparr>sleep_list := remove1 t (sleep_list k)\<rparr>) t"
proof -
  note w = sleepD [OF q t]
  have "t \<notin> set (ready_list k)" using readyD [OF q, of t] w by auto
  moreover have "t \<notin> set (creating (k_frames k u))" for u
    using createD [OF q, of t u] w by (auto simp: is_fresh_def)
  moreover have "t \<notin> set (wt k s)" for s
    using waitD [OF q, of t s] w by (cases "hd (k_frames k t)") auto
  moreover have "t \<notin> set (remove1 t (sleep_list k))"
    using q by (auto simp: queues_ok_def blocked_ok_def)
  ultimately show ?thesis by (auto simp: queued_def)
qed

lemma queues_ok_remove:
  "queues_ok k \<Longrightarrow> queues_ok (upd_sema s (\<lambda>x. x\<lparr>sema_waiters := remove1 t (sema_waiters x)\<rparr>) k)"
  "queues_ok k \<Longrightarrow> queues_ok (k\<lparr>sleep_list := remove1 t (sleep_list k)\<rparr>)"
  by (auto simp: queues_ok_def blocked_ok_def view_fold dest: notin_set_remove1)

lemma op_inv_remove:
  "op_inv k \<Longrightarrow> op_inv (upd_sema s (\<lambda>x. x\<lparr>sema_waiters := remove1 t (sema_waiters x)\<rparr>) k)"
  "op_inv k \<Longrightarrow> op_inv (k\<lparr>sleep_list := remove1 t (sleep_list k)\<rparr>)"
  using queues_ok_remove [of k] by (simp_all add: op_inv_def running_ok_def started_def)

text \<open>The running thread goes to a wait queue or to the sleepers.\<close>

definition own_sema :: "sema_ref \<Rightarrow> ptr \<Rightarrow> bool" where
  "own_sema s u \<longleftrightarrow> (\<forall>t. s = WaiterSema t \<longrightarrow> t = u)"

lemma frame_own_down [simp]: "frame_own u (SemaDownLoop s old) = own_sema s u"
  by (cases s) (auto simp: own_sema_def)

lemma frame_own_start [simp]: "frame_own u (StartDown s) = own_sema s u"
  by (cases s) (auto simp: own_sema_def)

lemma own_sema_simps [simp]: "own_sema (Sema p) u" "own_sema (LockSema l) u" "own_sema (WaiterSema u) u"
  by (simp_all add: own_sema_def)

lemma wait_push_ok:
  assumes k: "op_inv k" and c: "k_cur k \<noteq> idle_thread k" "own_sema s (k_cur k)"
  shows "queues_ok (upd_thread (k_cur k) (\<lambda>x. x\<lparr>t_status := THREAD_BLOCKED\<rparr>)
    (push_frame (SemaDownLoop s old) (upd_sema s (\<lambda>x. x\<lparr>sema_waiters := sema_waiters x @ [k_cur k]\<rparr>) k)))"
proof -
  let ?k1 = "push_frame (SemaDownLoop s old) k"
  have k1: "op_inv ?k1" using k c by (intro push_frame_inv) auto
  have "queues_ok (upd_thread (k_cur k) (\<lambda>x. x\<lparr>t_status := THREAD_BLOCKED\<rparr>) ?k1)"
    using set_status_ok [of ?k1 "k_cur k" THREAD_BLOCKED] op_inv_not_queued [OF k1] k1 by (simp add: op_inv_def)
  then show ?thesis
    using op_inv_cur(1) [OF k1] op_inv_cur(5) [OF k1, of s] c
    by (auto simp: queues_ok_def blocked_ok_def view_fold)
qed

lemma sleep_push_ok:
  assumes k: "op_inv k" and c: "k_cur k \<noteq> idle_thread k" "k_frames k (k_cur k) = SetLevel old # fs"
  shows "queues_ok (upd_thread (k_cur k) (\<lambda>x. x\<lparr>t_status := THREAD_BLOCKED\<rparr>)
    (k\<lparr>sleep_list := sleep_list k @ [k_cur k]\<rparr>))"
proof -
  have "queues_ok (upd_thread (k_cur k) (\<lambda>x. x\<lparr>t_status := THREAD_BLOCKED\<rparr>) k)"
    using set_status_ok [of k "k_cur k" THREAD_BLOCKED] op_inv_not_queued [OF k] k by (simp add: op_inv_def)
  then show ?thesis
    using op_inv_cur(1,4) [OF k] c by (auto simp: queues_ok_def blocked_ok_def)
qed

subsection \<open>The operations of \<open>synch.c\<close> keep the invariant\<close>

lemma sema_down_loop_inv:
  assumes k: "op_inv k" and c: "k_cur k \<noteq> idle_thread k" "own_sema s (k_cur k)"
    and d: "sema_down_loop s old k = Some k'"
  shows "sched_inv k'"
proof (cases "sema_value (k_semas k s) = 0")
  case True
  let ?k1 = "push_frame (SemaDownLoop s old) (upd_sema s (\<lambda>x. x\<lparr>sema_waiters := sema_waiters x @ [k_cur k]\<rparr>) k)"
  have "thread_block ?k1 = Some k'" using d True k by (simp add: sema_down_loop_def Let_def)
  moreover have "running_ok ?k1" using k by (simp add: op_inv_def running_ok_def)
  ultimately show ?thesis using thread_block_inv [of ?k1 k'] wait_push_ok [OF k c, of old] by simp
next
  case False
  with d have "intr_set_level old (upd_sema s (\<lambda>x. x\<lparr>sema_value := sema_value x - 1\<rparr>) k) = Some k'"
    by (simp add: sema_down_loop_def)
  then show ?thesis using k by (intro intr_set_level_sched) simp_all
qed

lemma sema_down_inv:
  "op_inv k \<Longrightarrow> k_cur k \<noteq> idle_thread k \<Longrightarrow> own_sema s (k_cur k) \<Longrightarrow> sema_down s k = Some k' \<Longrightarrow> sched_inv k'"
  using sema_down_loop_inv [of "k\<lparr>k_intr := INTR_OFF\<rparr>" s "k_intr k" k']
  by (simp add: sema_down_def split: if_splits)

lemma sema_up_inv:
  assumes k: "op_inv k" and u: "sema_up s k = Some k'"
  shows "sched_inv k'"
proof -
  let ?k2 = "upd_sema s (\<lambda>x. x\<lparr>sema_value := sema_value x + 1\<rparr>) (k\<lparr>k_intr := INTR_OFF\<rparr>)"
  have k2: "op_inv ?k2" using k by simp
  show ?thesis
  proof (cases "wt k s = []")
    case True
    then show ?thesis
      using u intr_set_level_inv [OF k2, of "k_intr k" k'] by (simp add: sema_up_def view_fold op_inv_sched split: if_splits)
  next
    case False
    let ?t = "list_max_by (thread_priority_convert_func ?k2) (wt k s)"
    let ?k3 = "upd_sema s (\<lambda>x. x\<lparr>sema_waiters := remove1 ?t (sema_waiters x)\<rparr>) ?k2"
    have t: "?t \<in> set (wt ?k2 s)" using pick_hd_tl [OF False] by simp
    obtain k4 where k4: "thread_unblock ?t ?k3 = Some k4"
      using u False by (auto simp: sema_up_def view_fold Let_def split: if_splits bind_splits)
    have "queues_ok ?k2" using k2 by (simp add: op_inv_def)
    then have "\<not> queued ?k3 ?t" "?t \<noteq> idle_thread ?k3"
      using wait_not_queued [OF _ t] waitD [OF _ t] by simp_all
    with op_inv_remove(1) [OF k2] k4 have k4i: "op_inv k4" using thread_unblock_inv [of ?k3 ?t k4] by simp
    have "op_inv (push_frame (SetLevel (k_intr k)) k4)"
      using k4i by (intro push_frame_inv) auto
    with u k4 k4i False show ?thesis
      by (auto simp: sema_up_def view_fold Let_def intro: thread_yield_inv intr_set_level_sched
          split: if_splits bind_splits)
  qed
qed

lemma sema_try_down_inv: "op_inv k \<Longrightarrow> sema_try_down s k = Some (b, k') \<Longrightarrow> op_inv k'"
  by (auto simp: sema_try_down_def Let_def split: if_splits bind_splits dest!: intr_set_level_Some)

text \<open>Donation changes priorities only.\<close>

definition erase_priorities :: "kernel \<Rightarrow> kernel" where
  "erase_priorities k = k\<lparr>k_threads := (\<lambda>t. (k_threads k t)\<lparr>t_priority := 0\<rparr>), lock_priority_page := []\<rparr>"

definition donation_only :: "kernel \<Rightarrow> kernel \<Rightarrow> bool" where
  "donation_only k k' \<longleftrightarrow> erase_priorities k' = erase_priorities k"

lemma donation_only_refl: "donation_only k k"
  and donation_only_trans: "donation_only k k1 \<Longrightarrow> donation_only k1 k2 \<Longrightarrow> donation_only k k2"
  by (simp_all add: donation_only_def)

lemma donation_onlyD:
  assumes "donation_only k k'"
  shows "st k' = st k" "vd k' = vd k" "wt k' = wt k" "k_frames k' = k_frames k" "k_cur k' = k_cur k"
    "k_intr k' = k_intr k" "ready_list k' = ready_list k" "sleep_list k' = sleep_list k"
    "idle_thread k' = idle_thread k" "k_semas k' = k_semas k" "k_holder k' = k_holder k"
    "priority_donation_enabled k' = priority_donation_enabled k"
    "k_in_external_intr k' = k_in_external_intr k"
    "t_lock_priority_list (k_threads k' t) = t_lock_priority_list (k_threads k t)"
    "t_original_priority (k_threads k' t) = t_original_priority (k_threads k t)"
proof -
  have e: "erase_priorities k' = erase_priorities k" using assms by (simp add: donation_only_def)
  have s: "g (erase_priorities k') = g (erase_priorities k)" for g :: "kernel \<Rightarrow> 'a" using e by simp
  show "st k' = st k" using arg_cong [OF e, of st] by (simp add: erase_priorities_def st_def fun_eq_iff)
  show "vd k' = vd k" using arg_cong [OF e, of vd] by (simp add: erase_priorities_def vd_def is_thread_def fun_eq_iff)
  show "wt k' = wt k" using arg_cong [OF e, of wt] by (simp add: erase_priorities_def)
  show "k_frames k' = k_frames k" using arg_cong [OF e, of k_frames] by (simp add: erase_priorities_def)
  show "k_cur k' = k_cur k" using arg_cong [OF e, of k_cur] by (simp add: erase_priorities_def)
  show "k_intr k' = k_intr k" using arg_cong [OF e, of k_intr] by (simp add: erase_priorities_def)
  show "ready_list k' = ready_list k" using arg_cong [OF e, of ready_list] by (simp add: erase_priorities_def)
  show "sleep_list k' = sleep_list k" using arg_cong [OF e, of sleep_list] by (simp add: erase_priorities_def)
  show "idle_thread k' = idle_thread k" using arg_cong [OF e, of idle_thread] by (simp add: erase_priorities_def)
  show "k_semas k' = k_semas k" using arg_cong [OF e, of k_semas] by (simp add: erase_priorities_def)
  show "k_holder k' = k_holder k" using arg_cong [OF e, of k_holder] by (simp add: erase_priorities_def)
  show "priority_donation_enabled k' = priority_donation_enabled k"
    using arg_cong [OF e, of priority_donation_enabled] by (simp add: erase_priorities_def)
  show "k_in_external_intr k' = k_in_external_intr k"
    using arg_cong [OF e, of k_in_external_intr] by (simp add: erase_priorities_def)
  show "t_lock_priority_list (k_threads k' t) = t_lock_priority_list (k_threads k t)"
    using arg_cong [OF e, of "\<lambda>x. t_lock_priority_list (k_threads x t)"] by (simp add: erase_priorities_def)
  show "t_original_priority (k_threads k' t) = t_original_priority (k_threads k t)"
    using arg_cong [OF e, of "\<lambda>x. t_original_priority (k_threads x t)"] by (simp add: erase_priorities_def)
qed

lemma donate_priority_only: "donate_priority l pri k = Some (b, k') \<Longrightarrow> donation_only k k'"
  by (auto simp: donate_priority_def donation_only_def erase_priorities_def Let_def fun_eq_iff upd_thread_def upd_lp_def
      split: if_splits bind_splits)

lemma donate_priority_recursively_only:
  assumes "donate_priority_recursively l pri k = Some k'"
  shows "donation_only k k'"
proof (rule donate_priority_recursively.raw_induct [OF _ assms])
  fix f :: "ptr \<Rightarrow> int \<Rightarrow> kernel \<Rightarrow> kernel option" and l pri k k'
  assume IH: "\<And>l pri k k'. f l pri k = Some k' \<Longrightarrow> donation_only k k'"
    and eq: "do {
     ASSERT (l \<noteq> NULL);
     ASSERT (k_holder k l \<noteq> NULL);
     ASSERT (PRI_MIN \<le> pri \<and> pri \<le> PRI_MAX);
     (donated, k1) \<leftarrow> donate_priority l pri k;
     if donated then do {
       let holder = k_holder k1 l;
       let lps = t_lock_priority_list (k_threads k1 holder);
       ASSERT (lps \<noteq> []);
       let top = lock_priority_page k1 ! hd lps;
       if lp_waiting top \<and> k_holder k1 (lp_lock top) \<noteq> NULL
       then f (lp_lock top) pri k1
       else Some k1
     } else Some k1
   } = Some k'"
  from eq show "donation_only k k'"
    by (auto simp: Let_def split: if_splits bind_splits dest!: donate_priority_only IH intro: donation_only_trans)
qed

lemma op_inv_donation: "donation_only k k' \<Longrightarrow> op_inv k' = op_inv k"
  using donation_onlyD [of k k'] by (simp add: op_inv_def queues_ok_def running_ok_def started_def)

lemma lock_acquire_donate_inv:
  assumes k: "op_inv k" and d: "lock_acquire_donate l t k = Some (lp, k')"
  shows "op_inv k'" "k_cur k' = k_cur k" "idle_thread k' = idle_thread k" "k_frames k' = k_frames k"
    "k_semas k' = k_semas k" "k_holder k' = k_holder k" "k_intr k' = k_intr k"
proof -
  show "op_inv k'" "k_cur k' = k_cur k" "idle_thread k' = idle_thread k" "k_frames k' = k_frames k"
    "k_semas k' = k_semas k" "k_holder k' = k_holder k" "k_intr k' = k_intr k"
    using k d
    by (auto simp: lock_acquire_donate_def get_new_lock_priority_def Let_def op_inv_donation donation_onlyD
        split: if_splits bind_splits option.splits dest!: donate_priority_recursively_only)
qed

lemma lock_acquire_inv:
  assumes k: "op_inv k" and c: "k_cur k \<noteq> idle_thread k" and a: "lock_acquire l k = Some k'"
  shows "sched_inv k'"
proof -
  let ?k1 = "k\<lparr>k_intr := INTR_OFF\<rparr>"
  obtain lp k2 where k2: "lock_acquire_donate l (k_cur k) ?k1 = Some (lp, k2)"
    and d: "sema_down (LockSema l) (push_frame (LockAcquireTail l (k_cur k) lp (k_intr k)) k2) = Some k'"
    using a k by (auto simp: lock_acquire_def Let_def split: if_splits bind_splits)
  have k1: "op_inv ?k1" using k by simp
  note f = lock_acquire_donate_inv [OF k1 k2]
  have "op_inv (push_frame (LockAcquireTail l (k_cur k) lp (k_intr k)) k2)"
    using f c by (intro push_frame_inv) auto
  then show ?thesis using d f c by (intro sema_down_inv [OF _ _ _ d]) auto
qed

lemma lock_acquire_tail_inv: "op_inv k \<Longrightarrow> lock_acquire_tail l t lp old k = Some k' \<Longrightarrow> sched_inv k'"
  by (auto simp: lock_acquire_tail_def Let_def split: if_splits bind_splits option.splits
      dest!: intr_set_level_Some intro!: op_inv_sched)

lemma lock_try_acquire_inv:
  assumes k: "op_inv k" and c: "k_cur k \<noteq> idle_thread k" and a: "lock_try_acquire l k = Some (b, k')"
  shows "op_inv k'"
proof -
  obtain k1 where k1: "sema_try_down (LockSema l) k = Some (b, k1)"
    and k': "k' = (if b then push_frame (LockTryTail l) k1 else k1)"
    using a by (auto simp: lock_try_acquire_def split: if_splits bind_splits)
  have "k_cur k1 = k_cur k \<and> idle_thread k1 = idle_thread k"
    using k1 by (auto simp: sema_try_down_def Let_def split: if_splits bind_splits dest!: intr_set_level_Some)
  with sema_try_down_inv [OF k k1] c show ?thesis
    unfolding k' by (auto intro!: push_frame_inv)
qed

lemma drop_lock_priority_frame:
  assumes "drop_lock_priority l t k = Some k'"
  shows "op_inv k' = op_inv k" "k_cur k' = k_cur k" "idle_thread k' = idle_thread k" "k_frames k' = k_frames k"
    "k_semas k' = k_semas k" "k_holder k' = k_holder k" "k_intr k' = k_intr k" "st k' = st k" "vd k' = vd k"
  using assms by (auto simp: drop_lock_priority_def Let_def split: if_splits bind_splits)

lemma lock_release_Some:
  assumes k: "op_inv k" and a: "lock_release l k = Some k'"
  obtains k2 where "k_holder k l = k_cur k" "l \<noteq> NULL"
    "drop_lock_priority l (k_cur k) (k\<lparr>k_intr := INTR_OFF, k_holder := (k_holder k)(l := NULL)\<rparr>) = Some k2"
    "sema_up (LockSema l) (push_frame (LockReleaseTail (k_cur k) (k_intr k)) k2) = Some k'"
  using a k by (auto simp: lock_release_def lock_held_by_current_thread_def Let_def split: if_splits bind_splits)

lemma lock_release_inv:
  assumes k: "op_inv k" and c: "k_cur k \<noteq> idle_thread k" and a: "lock_release l k = Some k'"
  shows "sched_inv k'"
  using k a
proof (rule lock_release_Some)
  fix k2
  assume k2: "drop_lock_priority l (k_cur k) (k\<lparr>k_intr := INTR_OFF, k_holder := (k_holder k)(l := NULL)\<rparr>) = Some k2"
    and u: "sema_up (LockSema l) (push_frame (LockReleaseTail (k_cur k) (k_intr k)) k2) = Some k'"
  note f = drop_lock_priority_frame [OF k2]
  show ?thesis
    by (rule sema_up_inv [OF push_frame_inv u]) (use f k c in auto)
qed

lemma lock_release_tail_inv:
  assumes k: "op_inv k" and a: "lock_release_tail t old k = Some k'"
  shows "sched_inv k'"
proof -
  let ?k1 = "upd_thread t (\<lambda>x. x\<lparr>t_priority := effective_priority k t\<rparr>) k"
  have "op_inv (push_frame (SetLevel old) ?k1)" using k by (auto intro!: push_frame_inv)
  moreover have "thread_yield (push_frame (SetLevel old) ?k1) = Some k' \<or> intr_set_level old ?k1 = Some k' \<or> intr_set_level old k = Some k'"
    using a by (auto simp: lock_release_tail_def Let_def split: if_splits bind_splits)
  ultimately show ?thesis
    using k thread_yield_inv [of "push_frame (SetLevel old) ?k1" k'] intr_set_level_sched [of ?k1 old k'] intr_set_level_sched [of k old k']
    by auto
qed

lemma sema_init_inv: "op_inv k \<Longrightarrow> wt k s = [] \<Longrightarrow> sema_init s v k = Some k' \<Longrightarrow> op_inv k'"
proof -
  assume k: "op_inv k" "wt k s = []" "sema_init s v k = Some k'"
  then have k': "k' = upd_sema s (\<lambda>_. \<lparr>sema_value = v, sema_waiters = []\<rparr>) k" by (simp add: sema_init_def split: if_splits)
  have "wt k' = wt k" using k(2) by (auto simp: k' wt_def fun_eq_iff)
  with k(1) show ?thesis by (simp add: k' op_inv_def queues_ok_def running_ok_def started_def)
qed

lemma cond_wait_inv:
  assumes k: "op_inv k" and c: "k_cur k \<noteq> idle_thread k" and w: "wt k (WaiterSema (k_cur k)) = []"
    and a: "cond_wait cv l k = Some k'"
  shows "sched_inv k'"
proof -
  let ?k1 = "k\<lparr>k_intr := INTR_OFF\<rparr>"
  obtain k2 where k2: "sema_init (WaiterSema (k_cur k)) 0 ?k1 = Some k2"
    and r: "lock_release l (push_frame (CondWaitDown l) (push_frame (SetLevel (k_intr k))
       (k2\<lparr>k_cond_waiters := (k_cond_waiters k2)(cv := k_cond_waiters k2 cv @ [k_cur k])\<rparr>))) = Some k'"
    using a k by (auto simp: cond_wait_def Let_def split: if_splits bind_splits)
  have i: "op_inv k2" using sema_init_inv [OF _ _ k2] k w by simp
  have f: "k_cur k2 = k_cur k" "idle_thread k2 = idle_thread k" using k2 by (auto simp: sema_init_def split: if_splits)
  show ?thesis
    by (rule lock_release_inv [OF _ _ r]) (use i f c in \<open>auto intro!: push_frame_inv\<close>)
qed

lemma cond_signal_inv:
  assumes k: "op_inv k" and a: "cond_signal cv l k = Some k'"
  shows "sched_inv k'"
proof -
  let ?k1 = "k\<lparr>k_intr := INTR_OFF\<rparr>"
  let ?w = "list_max_by (waiter_priority_convert_func ?k1) (k_cond_waiters k cv)"
  let ?k2 = "?k1\<lparr>k_cond_waiters := (k_cond_waiters k)(cv := remove1 ?w (k_cond_waiters k cv))\<rparr>"
  have "intr_set_level (k_intr k) ?k1 = Some k' \<or> sema_up (WaiterSema ?w) (push_frame (SetLevel (k_intr k)) ?k2) = Some k'"
    using a by (auto simp: cond_signal_def Let_def split: if_splits bind_splits)
  moreover have "op_inv (push_frame (SetLevel (k_intr k)) ?k2)" using k by (auto intro!: push_frame_inv)
  ultimately show ?thesis
    using sema_up_inv [of "push_frame (SetLevel (k_intr k)) ?k2" _ k'] intr_set_level_sched [of ?k1 _ k'] k by auto
qed

lemma cond_broadcast_inv:
  assumes k: "op_inv k" and c: "k_cur k \<noteq> idle_thread k" and a: "cond_broadcast cv l k = Some k'"
  shows "sched_inv k'"
proof (cases "k_cond_waiters k cv = []")
  case True
  with a k show ?thesis by (auto simp: cond_broadcast_def op_inv_sched split: if_splits)
next
  case False
  then have "cond_signal cv l (push_frame (CondBroadcast cv l) k) = Some k'"
    using a by (auto simp: cond_broadcast_def split: if_splits)
  moreover have "op_inv (push_frame (CondBroadcast cv l) k)" using k c by (intro push_frame_inv) auto
  ultimately show ?thesis using cond_signal_inv by blast
qed

subsection \<open>Frames\<close>

lemma upd_thread_const_views [simp]:
  "vd (upd_thread t (\<lambda>_. c) k) = (vd k)(t := t \<noteq> NULL \<and> t_magic c = THREAD_MAGIC)"
  "st (upd_thread t (\<lambda>_. c) k) = (st k)(t := t_status c)"
  by (auto simp: vd_def st_def is_thread_def fun_eq_iff)

lemma cur_not_NULL: "sched_inv k \<Longrightarrow> k_cur k \<noteq> NULL"
  by (simp add: sched_inv_def running_ok_def vd_def is_thread_def)

lemma idle_stack_tl: "idle_stack (f # fs) \<Longrightarrow> f \<notin> {IdleBlock, IdleHalt} \<Longrightarrow> idle_stack fs"
  by (auto simp: idle_stack_def split: if_splits)

lemma pop_frame_inv:
  assumes k: "sched_inv k" and f: "k_frames k (k_cur k) = f # fs" "f \<notin> {IdleBlock, IdleHalt}"
  shows "op_inv (pop_frame k)"
proof -
  have q: "queues_ok k" and r: "running_ok k" using k by (simp_all add: sched_inv_def)
  have "op_inv (k\<lparr>k_frames := (k_frames k)(k_cur k := fs)\<rparr>)"
  proof (rule cur_frames_inv [OF q r])
    show "set (creating fs) \<subseteq> set (creating (k_frames k (k_cur k)))" using f(1) by (cases f) auto
    show "distinct (creating fs)" using creating_distinct [OF q, of "k_cur k"] f(1) by (cases f) auto
    show "KernelThread g \<notin> set fs" for g using freshD [OF q, of g "k_cur k"] f(1) by auto
    show "idle_stack fs" if "k_cur k = idle_thread k"
      by (rule idle_stack_tl [OF _ f(2)]) (use idleD [OF q] cur_not_NULL [OF k] that f(1) in simp)
    show "list_all (frame_own (k_cur k)) fs" using ownD [OF q, of "k_cur k"] f(1) by simp
  qed
  with f(1) show ?thesis by (simp add: pop_frame_def)
qed

lemma not_idle:
  assumes "sched_inv k" "k_frames k (k_cur k) = [] \<or> \<not> idle_frame (hd (k_frames k (k_cur k)))"
  shows "k_cur k \<noteq> idle_thread k"
proof
  assume c: "k_cur k = idle_thread k"
  have "idle_stack (k_frames k (idle_thread k))"
    using idleD [of k] cur_not_NULL [OF assms(1)] assms(1) c by (simp add: sched_inv_def)
  then have "k_frames k (k_cur k) \<noteq> []" "list_all idle_frame (k_frames k (k_cur k))"
    using c by (simp_all add: idle_stack_def)
  with assms(2) show False by (cases "k_frames k (k_cur k)") simp_all
qed

text \<open>The loop of the idle thread replaces its only frame.\<close>

lemma idle_loop_inv:
  assumes k: "sched_inv k" and f: "k_frames k (k_cur k) = f # fs" "f \<in> {IdleBlock, IdleHalt}" "f' \<in> {IdleBlock, IdleHalt}"
  shows "op_inv (push_frame f' (pop_frame k))"
proof -
  have q: "queues_ok k" and r: "running_ok k" using k by (simp_all add: sched_inv_def)
  have "op_inv (k\<lparr>k_frames := (k_frames k)(k_cur k := f' # fs)\<rparr>)"
  proof (rule cur_frames_inv [OF q r])
    show "set (creating (f' # fs)) \<subseteq> set (creating (k_frames k (k_cur k)))" "distinct (creating (f' # fs))"
      using f creating_distinct [OF q, of "k_cur k"] by auto
    show "KernelThread g \<notin> set (f' # fs)" for g using freshD [OF q, of g "k_cur k"] f by auto
    show "idle_stack (f' # fs)" if "k_cur k = idle_thread k"
      using idleD [OF q] cur_not_NULL [OF k] that f by (auto simp: idle_stack_def)
    show "list_all (frame_own (k_cur k)) (f' # fs)" using ownD [OF q, of "k_cur k"] f by auto
  qed
  with f(1) show ?thesis by (simp add: pop_frame_def push_frame_def)
qed

lemma push_create_inv:
  assumes k: "op_inv k" and c: "k_cur k \<noteq> idle_thread k" and t: "\<not> queued k t" "vd k t" "st k t = THREAD_BLOCKED"
     "t \<noteq> idle_thread k" "is_fresh (k_frames k t)"
  shows "op_inv (push_frame (CreateTail t pri) k)"
proof -
  have q: "queues_ok k" and r: "running_ok k" using k by (simp_all add: op_inv_def)
  note cur = op_inv_cur [OF k]
  let ?fr = "(k_frames k)(k_cur k := CreateTail t pri # k_frames k (k_cur k))"
  have fo: "frames_ok (vd k) (st k) (k_frames k) (idle_thread k)" using q by (simp add: queues_ok_def)
  have tc: "t \<notin> set (creating (k_frames k u))" for u using t(1) by (auto simp: queued_def)
  have cs: "set (creating (?fr u)) = set (creating (k_frames k u)) \<union> (if u = k_cur k then {t} else {})" for u by simp
  have tn: "t \<noteq> k_cur k" using cur(2) t(3) by auto
  have "dom_ok (vd k) ?fr" "idle_ok (vd k) (st k) ?fr (idle_thread k)" "fresh_ok ?fr" "own_ok ?fr"
    using fo c cur(1,8) by (auto simp: frames_ok_def dom_ok_def idle_ok_def fresh_ok_def own_ok_def)
  moreover have "creating_inj ?fr"
    unfolding creating_inj_def
  proof (intro conjI allI impI)
    have ci: "creating_inj (k_frames k)" using fo by (simp add: frames_ok_def)
    show "distinct (creating (?fr u))" for u using creating_injD(1) [OF ci] tc by simp
    show "u = w" if "x \<in> set (creating (?fr u))" "x \<in> set (creating (?fr w))" for u w x
      using that creating_injD(2) [OF ci, of x u w] tc unfolding cs by (auto split: if_splits)
  qed
  moreover have "creating_ok (vd k) (st k) ?fr (idle_thread k)"
    unfolding creating_ok_def
  proof (intro allI ballI)
    fix u x assume "x \<in> set (creating (?fr u))"
    then have "x = t \<or> x \<in> set (creating (k_frames k u))" unfolding cs by (auto split: if_splits)
    then show "vd k x \<and> st k x = THREAD_BLOCKED \<and> x \<noteq> idle_thread k \<and> is_fresh (?fr x)"
      using t tn createD [OF q, of x u] cur(7) [of u] by auto
  qed
  ultimately have "frames_ok (vd k) (st k) ?fr (idle_thread k)" by (simp add: frames_ok_def)
  moreover have "blocked_ok (vd k) (st k) ?fr (idle_thread k) sleeping (sleep_list k)"
    "blocked_ok (vd k) (st k) ?fr (idle_thread k) (downing s) (wt k s)" for s
    using q cur(4,5) by (auto simp: queues_ok_def blocked_ok_def)
  ultimately show ?thesis using q r by (simp add: op_inv_def queues_ok_def running_ok_def started_def)
qed

lemma create_not_queued:
  assumes k: "sched_inv k" and f: "k_frames k (k_cur k) = CreateTail t pri # fs"
  shows "\<not> queued (pop_frame k) t" "t \<noteq> idle_thread k"
proof -
  have q: "queues_ok k" using k by (simp add: sched_inv_def)
  have t: "t \<in> set (creating (k_frames k (k_cur k)))" by (simp add: f)
  note c = createD [OF q t]
  then show "t \<noteq> idle_thread k" by simp
  obtain g where g: "k_frames k t = [KernelThread g]" using c by (auto simp: is_fresh_def)
  have ci: "creating_inj (k_frames k)" using q by (simp add: queues_ok_def frames_ok_def)
  have "t \<notin> set (ready_list k)" "t \<notin> set (sleep_list k)" "t \<notin> set (wt k s)" for s
    using readyD [OF q, of t] sleepD [OF q, of t] waitD [OF q, of t] c g by auto
  moreover have "t \<notin> set (creating (k_frames (pop_frame k) u))" for u
  proof (cases "u = k_cur k")
    case True
    then show ?thesis using creating_injD(1) [OF ci, of "k_cur k"] by (simp add: f)
  next
    case False
    then show ?thesis using creating_injD(2) [OF ci t, of u] by auto
  qed
  ultimately show "\<not> queued (pop_frame k) t" by (simp add: queued_def)
qed

subsection \<open>The operations of \<open>thread.c\<close> and \<open>timer.c\<close> keep the invariant\<close>

lemma new_thread_inv:
  assumes k: "op_inv k" and t: "\<not> vd k t" "t \<noteq> NULL" and c: "t_magic c = THREAD_MAGIC" "t_status c = THREAD_BLOCKED"
  shows "op_inv ((upd_thread t (\<lambda>_. c) k)\<lparr>k_frames := (k_frames k)(t := [KernelThread f])\<rparr>)"
    and "\<not> queued ((upd_thread t (\<lambda>_. c) k)\<lparr>k_frames := (k_frames k)(t := [KernelThread f])\<rparr>) t"
    and "t \<noteq> idle_thread k" "t \<noteq> k_cur k"
proof -
  have q: "queues_ok k" and r: "running_ok k" using k by (simp_all add: op_inv_def)
  have fo: "frames_ok (vd k) (st k) (k_frames k) (idle_thread k)" using q by (simp add: queues_ok_def)
  show ti: "t \<noteq> idle_thread k" using fo t by (auto simp: frames_ok_def idle_ok_def)
  show tc: "t \<noteq> k_cur k" using op_inv_cur(1) [OF k] t by auto
  have t0: "k_frames k t = []" using fo t by (auto simp: frames_ok_def dom_ok_def)
  have nq: "t \<notin> set (ready_list k)" "t \<notin> set (sleep_list k)" "t \<notin> set (wt k s)" "t \<notin> set (creating (k_frames k u))" for s u
    using readyD [OF q, of t] sleepD [OF q, of t] waitD [OF q, of t s] createD [OF q, of t u] t by auto
  let ?fr = "(k_frames k)(t := [KernelThread f])" and ?v = "(vd k)(t := True)" and ?s = "(st k)(t := THREAD_BLOCKED)"
  have cr: "creating (?fr u) = creating (k_frames k u)" for u using t0 by simp
  have "dom_ok ?v ?fr" "idle_ok ?v ?s ?fr (idle_thread k)" "creating_inj ?fr" "fresh_ok ?fr" "own_ok ?fr"
    using fo ti unfolding frames_ok_def dom_ok_def idle_ok_def creating_inj_def cr fresh_ok_def own_ok_def by auto
  moreover have "creating_ok ?v ?s ?fr (idle_thread k)"
    using fo nq(4) unfolding frames_ok_def creating_ok_def cr by auto
  ultimately have "frames_ok ?v ?s ?fr (idle_thread k)" by (simp add: frames_ok_def)
  moreover have "ready_ok ?v ?s (idle_thread k) (ready_list k)"
    "blocked_ok ?v ?s ?fr (idle_thread k) sleeping (sleep_list k)"
    "blocked_ok ?v ?s ?fr (idle_thread k) (downing s) (wt k s)" for s
    using q nq(1-3) by (auto simp: queues_ok_def ready_ok_def blocked_ok_def)
  moreover have "running_ok ((upd_thread t (\<lambda>_. c) k)\<lparr>k_frames := ?fr\<rparr>)"
    using r tc c t(2) by (simp add: running_ok_def)
  ultimately show "op_inv ((upd_thread t (\<lambda>_. c) k)\<lparr>k_frames := ?fr\<rparr>)"
    using k c t(2) tc by (simp add: op_inv_def queues_ok_def started_def)
  show "\<not> queued ((upd_thread t (\<lambda>_. c) k)\<lparr>k_frames := ?fr\<rparr>) t"
    using nq cr by (simp add: queued_def)
qed

lemma op_inv_cong:
  assumes "vd k' = vd k" "st k' = st k" "wt k' = wt k" "k_frames k' = k_frames k" "ready_list k' = ready_list k"
    "sleep_list k' = sleep_list k" "idle_thread k' = idle_thread k" "k_cur k' = k_cur k"
  shows "op_inv k' = op_inv k" "queued k' t = queued k t"
  using assms by (simp_all add: op_inv_def queues_ok_def running_ok_def started_def queued_def)

lemma thread_create_Some:
  assumes k: "op_inv k" and c: "k_cur k \<noteq> idle_thread k" and p: "page \<noteq> NULL" "\<not> vd k page"
    and x: "thread_create page nm pri func k = Some k'"
  obtains k3 where "op_inv k3" "k_cur k3 = k_cur k" "idle_thread k3 = idle_thread k" "k_semas k3 = k_semas k"
    "k_holder k3 = k_holder k" "k_frames k page = []" "page \<noteq> k_cur k"
    "k_frames k3 = (k_frames k)(page := [KernelThread func],
       k_cur k := AllocTid # CreateTail page pri # k_frames k (k_cur k))"
    "lock_acquire tid_lock k3 = Some k'"
proof -
  obtain k1 where k1: "init_thread page nm pri k = Some k1"
    and a: "allocate_tid (push_frame (CreateTail page pri) (k1\<lparr>k_frames := (k_frames k1)(page := [KernelThread func])\<rparr>)) = Some k'"
    using x p by (auto simp: thread_create_def Let_def split: if_splits bind_splits)
  let ?k2 = "k1\<lparr>k_frames := (k_frames k1)(page := [KernelThread func])\<rparr>"
  let ?rec = "new_thread page nm pri"
  have rec: "t_magic ?rec = THREAD_MAGIC" "t_status ?rec = THREAD_BLOCKED" by (simp_all add: new_thread_def)
  have k1e: "k1 = (upd_thread page (\<lambda>_. ?rec) k)\<lparr>all_list := all_list k @ [page], k_intr := k_intr k\<rparr>"
    using k1 by (auto simp: init_thread_def Let_def split: if_splits dest!: intr_set_level_Some)
  let ?k3 = "(upd_thread page (\<lambda>_. ?rec) k)\<lparr>k_frames := (k_frames k)(page := [KernelThread func])\<rparr>"
  let ?k4 = "push_frame AllocTid (push_frame (CreateTail page pri) ?k2)"
  note n = new_thread_inv(1,2) [OF k p(2,1) rec, of func] new_thread_inv(3,4) [OF k p(2,1) rec]
  have e: "op_inv ?k2 = op_inv ?k3" "queued ?k2 page = queued ?k3 page"
    by (rule op_inv_cong; simp add: k1e)+
  have "op_inv (push_frame (CreateTail page pri) ?k2)"
    by (rule push_create_inv) (use n e p rec c in \<open>simp_all add: k1e is_fresh_def\<close>)
  then have o: "op_inv ?k4" by (rule push_frame_inv) (use c in \<open>simp_all add: k1e\<close>)
  have f0: "k_frames k page = []"
    using k p by (auto simp: op_inv_def queues_ok_def frames_ok_def dom_ok_def)
  have fr: "k_frames ?k4 = (k_frames k)(page := [KernelThread func], k_cur k := AllocTid # CreateTail page pri # k_frames k (k_cur k))"
    using n(4) by (simp add: k1e)
  show ?thesis
    by (rule that [OF o _ _ _ _ f0 n(4) fr]) (use a in \<open>simp_all add: k1e allocate_tid_def\<close>)
qed

lemma thread_create_inv:
  assumes k: "op_inv k" and c: "k_cur k \<noteq> idle_thread k" and p: "page = NULL \<or> \<not> vd k page"
    and x: "thread_create page nm pri func k = Some k'"
  shows "sched_inv k'"
proof (cases "page = NULL")
  case True
  with x k show ?thesis by (auto simp: thread_create_def op_inv_sched split: if_splits)
next
  case False
  with p have "\<not> vd k page" by simp
  from thread_create_Some [OF k c False this x] c show ?thesis by (metis lock_acquire_inv)
qed

lemma thread_exit_inv:
  assumes k: "op_inv k" and c: "k_cur k \<noteq> idle_thread k" and x: "thread_exit k = Some k'"
  shows "sched_inv k'"
proof -
  let ?k1 = "k\<lparr>k_intr := INTR_OFF, all_list := remove1 (k_cur k) (all_list k)\<rparr>"
  let ?k2 = "upd_thread (k_cur k) (\<lambda>x. x\<lparr>t_status := THREAD_DYING\<rparr>) ?k1"
  have k1: "op_inv ?k1" using k by simp
  have "queues_ok ?k2"
    using set_status_ok [of ?k1 "k_cur k" THREAD_DYING] op_inv_not_queued [OF k1] k1 c by (simp add: op_inv_def)
  moreover have "none_running ?k2" using none_running_upd [of ?k1 THREAD_DYING] k1 by (simp add: op_inv_def)
  moreover have "schedule ?k2 = Some k'" using x k by (simp add: thread_exit_def Let_def split: if_splits)
  ultimately show ?thesis by (rule schedule_sched_inv)
qed

lemma timer_ticks_Some: "timer_ticks k = Some (n, k') \<Longrightarrow> n = k_ticks k \<and> k' = k\<lparr>k_intr := INTR_OFF, k_intr := k_intr k\<rparr>"
  by (auto simp: timer_ticks_def Let_def split: bind_splits dest!: intr_set_level_Some)

lemma timer_sleep_inv:
  assumes k: "op_inv k" and c: "k_cur k \<noteq> idle_thread k" and x: "timer_sleep n k = Some k'"
  shows "sched_inv k'"
proof (cases "n \<le> 0")
  case True
  with x k show ?thesis by (simp add: timer_sleep_def op_inv_sched)
next
  case False
  obtain now k2 where k2: "timer_ticks (k\<lparr>k_intr := INTR_OFF\<rparr>) = Some (now, k2)"
    and sl: "thread_sleep (push_frame (SetLevel (k_intr k))
      (upd_thread (k_cur k) (\<lambda>x. x\<lparr>t_awake_tick := wrap64 (now + n)\<rparr>) k2)) = Some k'"
    using x k False by (auto simp: timer_sleep_def Let_def split: bind_splits)
  have f: "k_cur k2 = k_cur k" "idle_thread k2 = idle_thread k" "op_inv k2"
    using timer_ticks_Some [OF k2] k by simp_all
  let ?k3 = "push_frame (SetLevel (k_intr k)) (upd_thread (k_cur k) (\<lambda>x. x\<lparr>t_awake_tick := wrap64 (now + n)\<rparr>) k2)"
  have k3: "op_inv ?k3" using f c by (intro push_frame_inv) auto
  have "thread_block (?k3\<lparr>sleep_list := sleep_list ?k3 @ [k_cur ?k3]\<rparr>) = Some k'"
    using sl k3 by (simp add: thread_sleep_def)
  moreover have "running_ok (?k3\<lparr>sleep_list := sleep_list ?k3 @ [k_cur ?k3]\<rparr>)"
    using k3 by (simp add: op_inv_def running_ok_def)
  moreover have "queues_ok (upd_thread (k_cur ?k3) (\<lambda>x. x\<lparr>t_status := THREAD_BLOCKED\<rparr>)
      (?k3\<lparr>sleep_list := sleep_list ?k3 @ [k_cur ?k3]\<rparr>))"
    using f c by (intro sleep_push_ok [OF k3]) simp_all
  ultimately show ?thesis
    using thread_block_inv [of "?k3\<lparr>sleep_list := sleep_list ?k3 @ [k_cur ?k3]\<rparr>" k'] by simp
qed

lemma wake_sleepers_inv:
  "op_inv k \<Longrightarrow> distinct ts \<Longrightarrow> set ts \<subseteq> set (sleep_list k) \<Longrightarrow> wake_sleepers n ts k = Some k' \<Longrightarrow>
    op_inv k' \<and> k_cur k' = k_cur k \<and> k_intr k' = k_intr k"
proof (induction ts arbitrary: k)
  case Nil
  then show ?case by simp
next
  case (Cons t ts)
  show ?case
  proof (cases "n \<ge> t_awake_tick (k_threads k t)")
    case True
    let ?k1 = "upd_thread t (\<lambda>x. x\<lparr>t_awake_tick := 0\<rparr>) k"
    let ?k2 = "?k1\<lparr>sleep_list := remove1 t (sleep_list ?k1)\<rparr>"
    obtain k3 where k3: "thread_unblock t ?k2 = Some k3" and w: "wake_sleepers n ts k3 = Some k'"
      using Cons.prems True by (auto simp: Let_def split: bind_splits)
    have k1: "op_inv ?k1" using Cons.prems by simp
    then have q: "queues_ok ?k1" by (simp add: op_inv_def)
    have t: "t \<in> set (sleep_list ?k1)" using Cons.prems by simp
    note u = thread_unblock_inv [OF op_inv_remove(2) [OF k1] sleep_not_queued [OF q t] _ k3]
    have "sleep_list k3 = remove1 t (sleep_list k)" "k_intr k3 = k_intr k"
      using thread_unblock_Some [OF k3] by simp_all
    moreover have "set ts \<subseteq> set (remove1 t (sleep_list k))"
      using Cons.prems q by (auto simp: queues_ok_def blocked_ok_def)
    ultimately show ?thesis
      using Cons.IH [of k3] u sleepD [OF q t] Cons.prems w by simp
  next
    case False
    with Cons show ?thesis by simp
  qed
qed

lemma thread_create_tail_inv:
  assumes k: "op_inv k" and t: "\<not> queued k t" "t \<noteq> idle_thread k" and x: "thread_create_tail t pri k = Some k'"
  shows "sched_inv k'"
proof -
  obtain k4 k5 where k4: "k4 = upd_thread t (\<lambda>x. x\<lparr>t_stack := t_stack x - 28\<rparr>)
      (upd_thread t (\<lambda>x. x\<lparr>t_stack := t_stack x - 4\<rparr>) (upd_thread t (\<lambda>x. x\<lparr>t_stack := t_stack x - 12\<rparr>)
      (upd_thread t (\<lambda>x. x\<lparr>t_tid := k_ret k (k_cur k)\<rparr>) k)))"
    and k5: "thread_unblock t k4 = Some k5" and y: "thread_yield k5 = Some k' \<or> k' = k5"
    using x by (auto simp: thread_create_tail_def alloc_frame_def Let_def split: if_splits bind_splits)
  have q4: "op_inv k4" "\<not> queued k4 t" "t \<noteq> idle_thread k4"
    using k t op_inv_cong(2) [of k4 k t] by (simp_all add: k4)
  have "op_inv k5" using thread_unblock_inv [OF q4 k5] by simp
  with y show ?thesis using thread_yield_inv op_inv_sched by auto
qed

lemma intr_enable_Some: "intr_enable k = Some (old, k') \<Longrightarrow> k' = k\<lparr>k_intr := INTR_ON\<rparr>"
  by (simp add: intr_enable_def split: if_splits)

text \<open>The idle thread registers itself when it starts.\<close>

lemma become_idle_inv:
  assumes k: "op_inv k" and f: "k_frames k (k_cur k) = []"
  shows "op_inv (push_frame IdleBlock (k\<lparr>idle_thread := k_cur k\<rparr>))"
proof -
  have q: "queues_ok k" and r: "running_ok k" using k by (simp_all add: op_inv_def)
  note cur = op_inv_cur [OF k]
  let ?fr = "(k_frames k)(k_cur k := [IdleBlock])" and ?i = "k_cur k"
  have fo: "frames_ok (vd k) (st k) (k_frames k) (idle_thread k)" using q by (simp add: queues_ok_def)
  have cr: "creating (?fr u) = creating (k_frames k u)" for u using f by simp
  have "dom_ok (vd k) ?fr" "idle_ok (vd k) (st k) ?fr ?i" "creating_inj ?fr" "fresh_ok ?fr" "own_ok ?fr"
    using fo cur(1,2) unfolding frames_ok_def dom_ok_def idle_ok_def creating_inj_def cr fresh_ok_def own_ok_def
    by (auto simp: idle_stack_def)
  moreover have "creating_ok (vd k) (st k) ?fr ?i"
    unfolding creating_ok_def cr
  proof (intro allI ballI)
    fix u t assume "t \<in> set (creating (k_frames k u))"
    with createD [OF q this] cur(7) [of u] show "vd k t \<and> st k t = THREAD_BLOCKED \<and> t \<noteq> ?i \<and> is_fresh (?fr t)" by auto
  qed
  ultimately have "frames_ok (vd k) (st k) ?fr ?i" by (simp add: frames_ok_def)
  moreover have "ready_ok (vd k) (st k) ?i (ready_list k)"
    "blocked_ok (vd k) (st k) ?fr ?i sleeping (sleep_list k)"
    "blocked_ok (vd k) (st k) ?fr ?i (downing s) (wt k s)" for s
    using q cur(3-5) by (auto simp: queues_ok_def ready_ok_def blocked_ok_def)
  ultimately show ?thesis
    using q r f by (simp add: op_inv_def queues_ok_def running_ok_def started_def)
qed

lemma kernel_thread_inv:
  assumes k: "op_inv k" and f: "k_frames k (k_cur k) = []" and x: "kernel_thread func k = Some k'"
  shows "sched_inv k'"
proof -
  let ?k1 = "k\<lparr>k_intr := INTR_ON\<rparr>"
  have k1: "op_inv ?k1" using k by simp
  have "k' = ?k1 \<or> (\<exists>s. sema_up s (push_frame IdleBlock (?k1\<lparr>idle_thread := k_cur ?k1\<rparr>)) = Some k')"
    using x k1 by (auto simp: kernel_thread_def split: if_splits bind_splits thread_func.splits dest!: intr_enable_Some)
  with become_idle_inv [OF k1] f k1 show ?thesis
    using sema_up_inv op_inv_sched by fastforce
qed

lemma idle_block_inv:
  assumes k: "op_inv (push_frame IdleHalt k)" and x: "idle_block k = Some k'"
  shows "sched_inv k'"
proof -
  let ?k1 = "push_frame IdleHalt (k\<lparr>k_intr := INTR_OFF\<rparr>)"
  have k1: "op_inv ?k1" using k op_inv_cong(1) [of ?k1 "push_frame IdleHalt k"] by simp
  have "queues_ok (upd_thread (k_cur ?k1) (\<lambda>x. x\<lparr>t_status := THREAD_BLOCKED\<rparr>) ?k1)"
    using set_status_ok [of ?k1 "k_cur ?k1" THREAD_BLOCKED] op_inv_not_queued [OF k1] k1 by (simp add: op_inv_def)
  then show ?thesis using thread_block_inv [of ?k1 k'] k1 x by (simp add: idle_block_def op_inv_def)
qed

lemma thread_tick_inv:
  assumes k: "op_inv k" and x: "thread_tick k = Some k'"
  shows "op_inv k'"
proof -
  have s: "op_inv (tick_statistics t k)" for t using k by (simp add: tick_statistics_def)
  obtain n k2 k3 where k2: "timer_ticks (tick_statistics (k_cur k) k) = Some (n, k2)"
    and k3: "wake_sleepers n (sleep_list k2) k2 = Some k3"
    and k': "k' = k3\<lparr>thread_ticks := thread_ticks k3 + 1\<rparr> \<or>
      k' = k3\<lparr>thread_ticks := thread_ticks k3 + 1, k_yield_on_return := True\<rparr>"
    using x k by (auto simp: thread_tick_def intr_yield_on_return_def Let_def split: if_splits bind_splits)
  have "op_inv k2" using timer_ticks_Some [OF k2] s by simp
  moreover from this have "distinct (sleep_list k2)" by (simp add: op_inv_def queues_ok_def blocked_ok_def)
  ultimately have "op_inv k3" using wake_sleepers_inv [OF _ _ _ k3] by simp
  with k' show ?thesis by auto
qed

lemma timer_intr_inv:
  assumes k: "op_inv k" and x: "external_interrupt timer_interrupt k = Some k'"
  shows "sched_inv k'"
proof -
  let ?k0 = "push_frame IntrReturn (k\<lparr>k_intr := INTR_OFF\<rparr>)"
  have k0: "op_inv ?k0" using k by (intro push_frame_inv) auto
  obtain k1 where k1: "timer_interrupt (?k0\<lparr>k_in_external_intr := True, k_yield_on_return := False\<rparr>) = Some k1"
    and k': "k' = k1\<lparr>k_in_external_intr := False\<rparr> \<or> thread_yield (k1\<lparr>k_in_external_intr := False\<rparr>) = Some k'"
    using x by (auto simp: external_interrupt_def intr_handler_def Let_def split: if_splits bind_splits)
  have "op_inv k1" using thread_tick_inv [OF _ k1 [unfolded timer_interrupt_def]] k0 by simp
  with k' show ?thesis using thread_yield_inv [of "k1\<lparr>k_in_external_intr := False\<rparr>" k'] op_inv_sched by auto
qed

lemma thread_set_priority_inv:
  assumes k: "op_inv k" and x: "thread_set_priority p k = Some k'"
  shows "sched_inv k'"
proof -
  let ?k1 = "upd_thread (k_cur k) (\<lambda>x. x\<lparr>t_original_priority := p\<rparr>) k"
  let ?k2 = "upd_thread (k_cur k) (\<lambda>x. x\<lparr>t_priority := p\<rparr>) ?k1"
  have "k' \<in> {?k1, ?k2} \<or> thread_yield ?k1 = Some k' \<or> thread_yield ?k2 = Some k'"
    using x k by (auto simp: thread_set_priority_def Let_def split: if_splits bind_splits)
  moreover have "op_inv ?k1" "op_inv ?k2" using k by simp_all
  ultimately show ?thesis using thread_yield_inv op_inv_sched by blast
qed

lemma waiter_free:
  assumes k: "op_inv k" shows "wt k (WaiterSema (k_cur k)) = []"
proof (rule ccontr)
  assume "wt k (WaiterSema (k_cur k)) \<noteq> []"
  then obtain u where u: "u \<in> set (wt k (WaiterSema (k_cur k)))" by (cases "wt k (WaiterSema (k_cur k))") auto
  have q: "queues_ok k" using k by (simp add: op_inv_def)
  obtain f fs where f: "k_frames k u = f # fs" "downing (WaiterSema (k_cur k)) f"
    using waitD [OF q u] by (cases "k_frames k u") auto
  then have "frame_own u f" using ownD [OF q, of u] by simp
  with f(2) have "u = k_cur k" by (cases f) (auto simp: own_sema_def)
  with u op_inv_cur(5) [OF k] show False by simp
qed

lemma thread_start_inv:
  assumes k: "op_inv k" and c: "k_cur k \<noteq> idle_thread k" "page = NULL \<or> \<not> vd k page" "wt k idle_started = []"
    and x: "thread_start page k = Some k'"
  shows "sched_inv k'"
proof -
  obtain k1 where k1: "sema_init idle_started 0 k = Some k1"
    and t: "thread_create page ''idle'' PRI_MIN (IdleFunc idle_started) (push_frame (StartDown idle_started) k1) = Some k'"
    using x by (auto simp: thread_start_def split: bind_splits)
  have i: "op_inv k1" using sema_init_inv [OF k c(3) k1] .
  have f: "k_cur k1 = k_cur k" "idle_thread k1 = idle_thread k" "vd k1 = vd k"
    using k1 by (auto simp: sema_init_def split: if_splits)
  show ?thesis
    by (rule thread_create_inv [OF _ _ _ t]) (use i f c in \<open>auto simp: idle_started_def intro!: push_frame_inv\<close>)
qed

lemma thread_start_tail_inv:
  "op_inv k \<Longrightarrow> k_cur k \<noteq> idle_thread k \<Longrightarrow> own_sema s (k_cur k) \<Longrightarrow> thread_start_tail s k = Some k' \<Longrightarrow> sched_inv k'"
  by (auto simp: thread_start_tail_def split: bind_splits dest!: intr_enable_Some
      intro: sema_down_inv [of "k\<lparr>k_intr := INTR_ON\<rparr>" s])

text \<open>A call of the running thread keeps the invariant.\<close>

lemma do_call_inv:
  assumes k: "sched_inv k" and f: "k_frames k (k_cur k) = []" and ok: "call_ok k c" and x: "do_call c k = Some k'"
  shows "sched_inv k'"
proof -
  have o: "op_inv k" using k f by (simp add: sched_inv_def op_inv_def started_def)
  have i: "k_cur k \<noteq> idle_thread k" using not_idle [OF k] f by simp
  note rules = sema_down_inv [OF o i own_sema_simps(1)] sema_up_inv [OF o] lock_acquire_inv [OF o i] lock_release_inv [OF o i]
    cond_wait_inv [OF o i waiter_free [OF o]] cond_signal_inv [OF o] cond_broadcast_inv [OF o i]
    thread_exit_inv [OF o i] thread_yield_inv [OF o] thread_set_priority_inv [OF o] timer_sleep_inv [OF o i]
  show ?thesis
  proof (cases c)
    case (SemaInit s v)
    with x ok sema_init_inv [OF o, of "Sema s" v k'] show ?thesis by (simp add: op_inv_sched view_fold)
  next
    case (SemaTryDown s)
    with x show ?thesis using sema_try_down_inv [OF o] op_inv_sched by auto
  next
    case (LockInit l)
    have "op_inv (k\<lparr>k_holder := (k_holder k)(l := NULL)\<rparr>)" using o by simp
    with LockInit x ok show ?thesis
      using sema_init_inv [of "k\<lparr>k_holder := (k_holder k)(l := NULL)\<rparr>" "LockSema l" 1 k']
      by (auto simp: lock_init_def op_inv_sched view_fold split: if_splits)
  next
    case (LockTryAcquire l)
    with x show ?thesis using lock_try_acquire_inv [OF o i] op_inv_sched by auto
  next
    case (CondInit cv)
    with x o show ?thesis by (auto simp: cond_init_def op_inv_sched split: if_splits)
  next
    case (ThreadCreate page nm pri f)
    with x ok show ?thesis using thread_create_inv [OF o i, of page nm pri f k'] by (simp add: view_fold)
  next
    case (ThreadStart page)
    with x ok show ?thesis using thread_start_inv [OF o i, of page k'] by (simp add: view_fold)
  next
    case SynchInit
    with x o show ?thesis by (auto simp: synch_init_def op_inv_sched)
  qed (use x in \<open>auto intro: rules\<close>)
qed

text \<open>The continuation of a suspended call keeps the invariant.\<close>

lemma resume_inv:
  assumes k: "sched_inv k" and x: "resume k = Some k'"
  shows "sched_inv k'"
proof -
  obtain f fs where f: "k_frames k (k_cur k) = f # fs" and r: "run_frame f (pop_frame k) = Some k'"
    using x by (cases "k_frames k (k_cur k)") (simp_all add: resume_def)
  have q: "queues_ok k" using k by (simp add: sched_inv_def)
  have own: "frame_own (k_cur k) f" using ownD [OF q, of "k_cur k"] f by simp
  have i: "\<not> idle_frame f \<Longrightarrow> k_cur (pop_frame k) \<noteq> idle_thread (pop_frame k)" using not_idle [OF k] f by simp
  show ?thesis
  proof (cases "f \<in> {IdleBlock, IdleHalt}")
    case True
    then show ?thesis
      using idle_loop_inv [OF k f True, of IdleHalt] idle_loop_inv [OF k f True, of IdleBlock] r
        op_inv_cong(1) [of k' "push_frame IdleBlock (pop_frame k)"] idle_block_inv [of "pop_frame k" k']
        op_inv_sched [of k']
      by (auto simp: idle_halt_def)
  next
    case False
    have o: "op_inv (pop_frame k)" by (rule pop_frame_inv [OF k f False])
    have kt: "f = KernelThread g \<Longrightarrow> k_frames (pop_frame k) (k_cur (pop_frame k)) = []" for g
      using freshD [OF q, of g "k_cur k"] f by simp
    note rules = sema_down_loop_inv [OF o i] intr_set_level_sched [OF o] lock_acquire_tail_inv [OF o]
      lock_release_tail_inv [OF o] lock_acquire_inv [OF o i] cond_broadcast_inv [OF o i]
      kernel_thread_inv [OF o] thread_start_tail_inv [OF o i]
    show ?thesis
    proof (cases f)
      case (LockTryTail l)
      with r o show ?thesis by (auto simp: lock_try_tail_def op_inv_sched)
    next
      case (CondWaitDown l)
      have "op_inv (push_frame (CondWaitAcquire l) (pop_frame k))"
        using o i CondWaitDown by (intro push_frame_inv) simp_all
      with CondWaitDown r o i show ?thesis
        by (auto simp: cond_wait_down_def intro!: sema_down_inv [of "push_frame (CondWaitAcquire l) (pop_frame k)"])
    next
      case AllocTid
      with r o i show ?thesis
        by (auto simp: allocate_tid_tail_def intro!: lock_release_inv [of "pop_frame k\<lparr>k_ret := r, next_tid := n\<rparr>" for r n])
    next
      case (CreateTail t pri)
      with r f create_not_queued [OF k, of t pri fs] show ?thesis
        by (auto intro: thread_create_tail_inv [OF o])
    next
      case (ReturnTid t)
      with r o show ?thesis by (auto intro: op_inv_sched)
    next
      case (KernelThread g)
      with r kt show ?thesis using kernel_thread_inv [OF o, of g k'] by simp
    next
      case IntrReturn
      with r o show ?thesis by (auto simp: intr_return_def intro: op_inv_sched)
    qed (use r own False in \<open>auto intro: rules\<close>)
  qed
qed

lemma step_inv: "step k k' \<Longrightarrow> sched_inv k \<Longrightarrow> sched_inv k'"
proof (induction rule: step.induct)
  case (step_resume k k')
  then show ?case by (blast intro: resume_inv)
next
  case (step_call k c k')
  then show ?case by (blast intro: do_call_inv)
next
  case (step_timer k k')
  have "op_inv k" using step_timer(1,3) by (auto simp: sched_inv_def op_inv_def fresh_off_def started_def)
  then show ?case by (rule timer_intr_inv [OF _ step_timer(2)])
qed

lemma reachable_inv: "reachable k0 k \<Longrightarrow> sched_inv k0 \<Longrightarrow> sched_inv k"
  by (induction rule: reachable.induct) (auto intro: step_inv)
subsection \<open>From boot\<close>

text \<open>At boot the first thread is the only one and is about to take its thread id.\<close>

lemma boot_start:
  assumes "boot page = Some k"
  obtains k5 where "op_inv k5" "k_cur k5 \<noteq> idle_thread k5"
    "k_frames k5 = (\<lambda>_. [])(page := [AllocTid, ReturnTid page])" "k_holder k5 = (\<lambda>_. NULL)"
    "k_semas k5 = (\<lambda>_. \<lparr>sema_value = 0, sema_waiters = []\<rparr>)(LockSema tid_lock := \<lparr>sema_value = 1, sema_waiters = []\<rparr>)"
    "lock_acquire tid_lock k5 = Some k"
proof
  let ?m = "zero_kernel\<lparr>k_holder := (k_holder zero_kernel)(tid_lock := NULL)\<rparr>"
  let ?k2 = "(upd_sema (LockSema tid_lock) (\<lambda>_. \<lparr>sema_value = 1, sema_waiters = []\<rparr>) ?m)
    \<lparr>ready_list := [], all_list := [], sleep_list := [], k_cur := page, initial_thread := page\<rparr>"
  let ?k3 = "(upd_thread page (\<lambda>_. new_thread page ''main'' PRI_DEFAULT) ?k2)\<lparr>all_list := [page], k_intr := INTR_OFF\<rparr>"
  let ?k4 = "upd_thread page (\<lambda>x. x\<lparr>t_status := THREAD_RUNNING\<rparr>) ?k3"
  have p: "page \<noteq> NULL" and a: "allocate_tid (push_frame (ReturnTid page) ?k4) = Some k"
    using assms
    by (auto simp: boot_def thread_init_def lock_init_def sema_init_def init_thread_def Let_def intr_get_level_def
        zero_kernel_def tid_lock_def split: if_splits bind_splits dest!: intr_set_level_Some)
  have v: "vd ?k4 = (\<lambda>t. t = page)" "st ?k4 = (\<lambda>t. THREAD_RUNNING)" "wt ?k4 = (\<lambda>_. [])"
    "k_frames ?k4 = (\<lambda>_. [])" "idle_thread ?k4 = NULL"
    using p by (auto simp: fun_eq_iff vd_def st_def wt_def is_thread_def zero_kernel_def zero_thread_def
        new_thread_def THREAD_MAGIC_def)
  have k4: "op_inv ?k4"
    unfolding op_inv_def queues_ok_def running_ok_def started_def v
    by (simp add: ready_ok_def blocked_ok_def frames_ok_def dom_ok_def idle_ok_def creating_ok_def creating_inj_def
        fresh_ok_def own_ok_def)
  show "lock_acquire tid_lock (push_frame AllocTid (push_frame (ReturnTid page) ?k4)) = Some k"
    using a by (simp add: allocate_tid_def)
  have "op_inv (push_frame (ReturnTid page) ?k4)" by (rule push_frame_inv [OF k4]) (use p v in simp_all)
  then show "op_inv (push_frame AllocTid (push_frame (ReturnTid page) ?k4))"
    by (rule push_frame_inv) (use p v in simp_all)
  show "k_cur (push_frame AllocTid (push_frame (ReturnTid page) ?k4)) \<noteq>
    idle_thread (push_frame AllocTid (push_frame (ReturnTid page) ?k4))" using p by (simp add: zero_kernel_def)
qed (simp_all add: zero_kernel_def fun_eq_iff)

lemma boot_inv: "boot page = Some k \<Longrightarrow> sched_inv k"
  by (erule boot_start) (rule lock_acquire_inv)

end
