(* ===== verification/Kernel_Locks.thy ===== *)
theory Kernel_Locks
  imports Kernel_Inv
begin

text \<open>
  Mutual exclusion of locks by counting.  The value of a lock's semaphore, one for its holder, and one for
  every thread that has taken the semaphore and not yet stored itself as the holder
  (\<open>acquiring\<close>) sum up to at most one.  Each operation keeps the sum; \<open>step_lock_inv\<close> puts the
  operations together and \<open>boot_lock_inv\<close> starts the count.
\<close>

subsection \<open>Counting the owners of a lock\<close>

text \<open>
  A thread that waits for a lock's semaphore is inside \<open>lock_acquire\<close> of that lock, and the semaphore
  that the idle thread signals at its start is not that of a lock.
\<close>

fun waits_in_acquire :: "frame list \<Rightarrow> bool" where
  "waits_in_acquire (SemaDownLoop (LockSema l) old # fs) \<longleftrightarrow>
     (case fs of LockAcquireTail l' t lp old' # _ \<Rightarrow> l' = l | _ \<Rightarrow> False) \<and> waits_in_acquire fs"
| "waits_in_acquire (KernelThread (IdleFunc (LockSema l)) # fs) = False"
| "waits_in_acquire (StartDown (LockSema l) # fs) = False"
| "waits_in_acquire (f # fs) = waits_in_acquire fs"
| "waits_in_acquire [] = True"

definition lock_units :: "(sema_ref \<Rightarrow> semaphore) \<Rightarrow> (ptr \<Rightarrow> ptr) \<Rightarrow> (ptr \<Rightarrow> frame list) \<Rightarrow> ptr \<Rightarrow> int" where
  "lock_units sm ho fr l = uint (sema_value (sm (LockSema l))) + (if ho l \<noteq> NULL then 1 else 0) +
     (\<Sum>t\<in>UNIV. acquiring l (fr t))"

definition locks_ok :: "(sema_ref \<Rightarrow> semaphore) \<Rightarrow> (ptr \<Rightarrow> ptr) \<Rightarrow> (ptr \<Rightarrow> frame list) \<Rightarrow> bool" where
  "locks_ok sm ho fr \<longleftrightarrow> (\<forall>t. waits_in_acquire (fr t)) \<and> (\<forall>l. lock_units sm ho fr l \<le> 1)"

definition lock_inv :: "kernel \<Rightarrow> bool" where
  "lock_inv k \<longleftrightarrow> locks_ok (k_semas k) (k_holder k) (k_frames k)"

fun lock_frame :: "frame \<Rightarrow> bool" where
  "lock_frame (SemaDownLoop (LockSema l) old) = True"
| "lock_frame (LockAcquireTail l t lp old) = True"
| "lock_frame (LockTryTail l) = True"
| "lock_frame (KernelThread (IdleFunc (LockSema l))) = True"
| "lock_frame (StartDown (LockSema l)) = True"
| "lock_frame _ = False"

lemma acquiring_simps [simp]:
  "acquiring l [] = 0"
  "acquiring l (LockAcquireTail l' t lp old # fs) = acquiring l fs + (if l' = l then 1 else 0)"
  "acquiring l (LockTryTail l' # fs) = acquiring l fs + (if l' = l then 1 else 0)"
  "acquiring l (SemaDownLoop s old # fs) = acquiring l fs - (if s = LockSema l then 1 else 0)"
  by (simp_all add: acquiring_def)

lemma acquiring_neutral [simp]: "\<not> lock_frame f \<Longrightarrow> acquiring l (f # fs) = acquiring l fs"
  by (cases f rule: lock_frame.cases) (auto simp: acquiring_def)

lemma waits_neutral [simp]: "\<not> lock_frame f \<Longrightarrow> waits_in_acquire (f # fs) = waits_in_acquire fs"
  by (cases f rule: lock_frame.cases) auto

lemma acquiring_nonneg: "waits_in_acquire fs \<Longrightarrow> 0 \<le> acquiring l fs"
proof (induction fs rule: length_induct)
  case (1 fs)
  show ?case
  proof (cases fs)
    case (Cons f gs)
    have gs: "waits_in_acquire gs \<Longrightarrow> 0 \<le> acquiring l gs" using 1(1) Cons by simp
    show ?thesis
    proof (cases "lock_frame f")
      case False
      with 1(2) gs Cons show ?thesis by simp
    next
      case True
      then show ?thesis
      proof (cases f rule: lock_frame.cases)
        case (1 l' old)
        then obtain t lp old' hs where hs: "gs = LockAcquireTail l' t lp old' # hs" "waits_in_acquire hs"
          using \<open>waits_in_acquire fs\<close> Cons by (auto split: list.splits frame.splits)
        moreover have "waits_in_acquire hs \<longrightarrow> 0 \<le> acquiring l hs"
          using \<open>\<forall>ys. length ys < length fs \<longrightarrow> waits_in_acquire ys \<longrightarrow> 0 \<le> acquiring l ys\<close> hs Cons by simp
        ultimately show ?thesis using 1 Cons by simp
      qed (use 1(2) gs Cons True in auto)
    qed
  qed simp
qed

lemma sum_acquiring_upd:
  fixes fr :: "ptr \<Rightarrow> frame list"
  shows "(\<Sum>t\<in>UNIV. acquiring l ((fr(u := fs)) t)) = (\<Sum>t\<in>UNIV. acquiring l (fr t)) - acquiring l (fr u) + acquiring l fs"
proof -
  have "(\<Sum>t\<in>UNIV. acquiring l ((fr(u := fs)) t)) = acquiring l fs + (\<Sum>t\<in>UNIV - {u}. acquiring l (fr t))"
    by (subst sum.remove [of UNIV u]) (auto intro: sum.cong)
  moreover have "(\<Sum>t\<in>UNIV. acquiring l (fr t)) = acquiring l (fr u) + (\<Sum>t\<in>UNIV - {u}. acquiring l (fr t))"
    by (subst sum.remove [of UNIV u]) auto
  ultimately show ?thesis by simp
qed

lemma lock_units_frame [simp]:
  "lock_units sm ho (fr(u := fs)) l = lock_units sm ho fr l - acquiring l (fr u) + acquiring l fs"
  by (simp add: lock_units_def sum_acquiring_upd del: fun_upd_apply)

lemma locks_ok_frame:
  "locks_ok sm ho fr \<Longrightarrow> waits_in_acquire fs \<Longrightarrow> (\<And>l. acquiring l fs = acquiring l (fr u)) \<Longrightarrow> locks_ok sm ho (fr(u := fs))"
  by (simp add: locks_ok_def del: lock_units_frame) (simp add: lock_units_def sum_acquiring_upd del: fun_upd_apply)

lemma waits_tl: "waits_in_acquire (f # fs) \<Longrightarrow> waits_in_acquire fs"
  by (cases f rule: lock_frame.cases) auto

lemma lock_inv_frame [simp]:
  "lock_inv (k\<lparr>k_threads := x_k_threads\<rparr>) = lock_inv k"
  "lock_inv (k\<lparr>k_cur := x_k_cur\<rparr>) = lock_inv k"
  "lock_inv (k\<lparr>k_intr := x_k_intr\<rparr>) = lock_inv k"
  "lock_inv (k\<lparr>k_in_external_intr := x_k_in_external_intr\<rparr>) = lock_inv k"
  "lock_inv (k\<lparr>k_yield_on_return := x_k_yield_on_return\<rparr>) = lock_inv k"
  "lock_inv (k\<lparr>k_cr3 := x_k_cr3\<rparr>) = lock_inv k"
  "lock_inv (k\<lparr>k_esp0 := x_k_esp0\<rparr>) = lock_inv k"
  "lock_inv (k\<lparr>ready_list := x_ready_list\<rparr>) = lock_inv k"
  "lock_inv (k\<lparr>all_list := x_all_list\<rparr>) = lock_inv k"
  "lock_inv (k\<lparr>sleep_list := x_sleep_list\<rparr>) = lock_inv k"
  "lock_inv (k\<lparr>idle_thread := x_idle_thread\<rparr>) = lock_inv k"
  "lock_inv (k\<lparr>initial_thread := x_initial_thread\<rparr>) = lock_inv k"
  "lock_inv (k\<lparr>next_tid := x_next_tid\<rparr>) = lock_inv k"
  "lock_inv (k\<lparr>thread_ticks := x_thread_ticks\<rparr>) = lock_inv k"
  "lock_inv (k\<lparr>idle_ticks := x_idle_ticks\<rparr>) = lock_inv k"
  "lock_inv (k\<lparr>kernel_ticks := x_kernel_ticks\<rparr>) = lock_inv k"
  "lock_inv (k\<lparr>user_ticks := x_user_ticks\<rparr>) = lock_inv k"
  "lock_inv (k\<lparr>k_ticks := x_k_ticks\<rparr>) = lock_inv k"
  "lock_inv (k\<lparr>k_cond_waiters := x_k_cond_waiters\<rparr>) = lock_inv k"
  "lock_inv (k\<lparr>lock_priority_page := x_lock_priority_page\<rparr>) = lock_inv k"
  "lock_inv (k\<lparr>priority_donation_enabled := x_priority_donation_enabled\<rparr>) = lock_inv k"
  "lock_inv (k\<lparr>k_ret := x_k_ret\<rparr>) = lock_inv k"
  "lock_inv (upd_lp i j k) = lock_inv k"
  "lock_inv (upd_thread t f k) = lock_inv k"
  by (simp_all add: lock_inv_def)

lemma push_lock_inv [simp]:
  assumes f: "\<not> lock_frame f" shows "lock_inv (push_frame f k) = lock_inv k"
proof -
  have "waits_in_acquire (((k_frames k)(k_cur k := f # k_frames k (k_cur k))) t) = waits_in_acquire (k_frames k t)" for t
    using f by simp
  moreover have "lock_units sm ho ((k_frames k)(k_cur k := f # k_frames k (k_cur k))) l = lock_units sm ho (k_frames k) l" for sm ho l
    using f by simp
  ultimately show ?thesis by (simp only: lock_inv_def locks_ok_def upd_sel push_frame_sel)
qed

lemma lock_inv_cong:
  "k_semas k' = k_semas k \<Longrightarrow> k_holder k' = k_holder k \<Longrightarrow> k_frames k' = k_frames k \<Longrightarrow> lock_inv k' = lock_inv k"
  by (simp add: lock_inv_def)

lemma pop_lock_inv:
  assumes "lock_inv k" "k_frames k (k_cur k) = f # fs" "\<not> lock_frame f"
  shows "lock_inv (pop_frame k)"
  using assms locks_ok_frame [of "k_semas k" "k_holder k" "k_frames k" fs "k_cur k"]
  by (auto simp: lock_inv_def locks_ok_def dest: spec [of _ "k_cur k"])

lemma upd_sema_lock_inv:
  "(\<And>l. s = LockSema l \<Longrightarrow> sema_value (g (k_semas k s)) = sema_value (k_semas k s)) \<Longrightarrow> lock_inv (upd_sema s g k) = lock_inv k"
  by (auto simp: lock_inv_def locks_ok_def lock_units_def)

subsection \<open>Scheduling leaves locks alone\<close>

lemma schedule_locks:
  assumes "schedule k = Some k'"
  shows "k_semas k' = k_semas k" "k_holder k' = k_holder k"
    "k_frames k' = k_frames k \<or> st k (k_cur k) = THREAD_DYING \<and> k_frames k' = (k_frames k)(k_cur k := [])"
proof -
  obtain t k1 where nx: "next_thread_to_run k = (t, k1)" by fastforce
  have f: "k_semas k1 = k_semas k" "k_holder k1 = k_holder k" "k_frames k1 = k_frames k" "st k1 = st k" "k_cur k1 = k_cur k"
    using nx by (auto simp: next_thread_to_run_def Let_def split: if_splits)
  have e: "thread_schedule_tail prev k2 = Some k3 \<Longrightarrow> prev \<noteq> k_cur k2 \<Longrightarrow>
      k_semas k3 = k_semas k2 \<and> k_holder k3 = k_holder k2 \<and>
      (k_frames k3 = k_frames k2 \<or> prev \<noteq> NULL \<and> st k2 prev = THREAD_DYING \<and> k_frames k3 = (k_frames k2)(prev := []))"
    for prev k2 k3
    by (auto simp: thread_schedule_tail_def process_activate_def Let_def running_thread_def st_def
        split: if_splits bind_splits)
  have "(k_cur k \<noteq> t \<and> thread_schedule_tail (k_cur k) (k1\<lparr>k_cur := t\<rparr>) = Some k') \<or>
      (k_cur k = t \<and> is_thread k1 t \<and> thread_schedule_tail NULL k1 = Some k')"
    using assms nx by (auto simp: schedule_def running_thread_def Let_def split: if_splits)
  then have "k_semas k' = k_semas k \<and> k_holder k' = k_holder k \<and>
    (k_frames k' = k_frames k \<or> st k (k_cur k) = THREAD_DYING \<and> k_frames k' = (k_frames k)(k_cur k := []))"
    using e [of "k_cur k" "k1\<lparr>k_cur := t\<rparr>" k'] e [of NULL k1 k'] f by (auto simp: is_thread_def)
  then show "k_semas k' = k_semas k" "k_holder k' = k_holder k"
    "k_frames k' = k_frames k \<or> st k (k_cur k) = THREAD_DYING \<and> k_frames k' = (k_frames k)(k_cur k := [])" by auto
qed

lemma schedule_lock_inv:
  assumes "schedule k = Some k'" "st k (k_cur k) = THREAD_DYING \<Longrightarrow> k_frames k (k_cur k) = []"
  shows "lock_inv k' = lock_inv k"
  using schedule_locks [OF assms(1)] assms(2) by (intro lock_inv_cong) (auto simp: fun_upd_idem)

lemma thread_block_lock_inv: "thread_block k = Some k' \<Longrightarrow> lock_inv k' = lock_inv k"
  by (auto simp: thread_block_def thread_current_def running_thread_def split: if_splits
      dest!: schedule_lock_inv)

lemma thread_yield_lock_inv: "thread_yield k = Some k' \<Longrightarrow> lock_inv k' = lock_inv k"
  by (auto simp: thread_yield_def thread_current_def running_thread_def Let_def split: if_splits
      dest!: schedule_lock_inv)

lemma intr_set_level_lock_inv: "intr_set_level l k = Some k' \<Longrightarrow> lock_inv k' = lock_inv k"
  by (auto dest!: intr_set_level_Some)

lemma thread_unblock_locks:
  "thread_unblock t k = Some k' \<Longrightarrow> k_semas k' = k_semas k \<and> k_holder k' = k_holder k \<and> k_frames k' = k_frames k \<and> lock_inv k' = lock_inv k"
  by (auto dest!: thread_unblock_Some)

subsection \<open>Semaphores and locks\<close>

lemma lock_invD:
  assumes "lock_inv k"
  shows "waits_in_acquire (k_frames k t)" "lock_units (k_semas k) (k_holder k) (k_frames k) l \<le> 1"
    "0 \<le> (\<Sum>t\<in>UNIV. acquiring l (k_frames k t))" "acquiring l (k_frames k t) \<le> (\<Sum>t\<in>UNIV. acquiring l (k_frames k t))"
proof -
  show w: "waits_in_acquire (k_frames k t)" for t using assms by (simp add: lock_inv_def locks_ok_def)
  show "lock_units (k_semas k) (k_holder k) (k_frames k) l \<le> 1" using assms by (simp add: lock_inv_def locks_ok_def)
  show "0 \<le> (\<Sum>t\<in>UNIV. acquiring l (k_frames k t))" by (rule sum_nonneg) (use w acquiring_nonneg in blast)
  show "acquiring l (k_frames k t) \<le> (\<Sum>t\<in>UNIV. acquiring l (k_frames k t))"
    by (rule member_le_sum) (use w acquiring_nonneg in auto)
qed

lemma push_upd_sema: "push_frame f (upd_sema s g k) = upd_sema s g (push_frame f k)"
  by (simp add: push_frame_def upd_sema_def)

lemma uint_minus_1: "v \<noteq> 0 \<Longrightarrow> uint (v - 1 :: u32) = uint v - 1"
proof -
  assume "v \<noteq> 0"
  then have "uint v \<noteq> 0" by (simp add: uint_0_iff)
  then have "1 \<le> uint v" using uint_ge_0 [of v] by linarith
  then show ?thesis using uint_sub_lem [of "1 :: u32" v] by simp
qed

lemma lock_units_sema [simp]:
  "lock_units (sm(s := x)) ho fr l = lock_units sm ho fr l +
     (if s = LockSema l then uint (sema_value x) - uint (sema_value (sm s)) else 0)"
  by (auto simp: lock_units_def)

lemma lock_units_holder [simp]:
  "lock_units sm (ho(l' := t)) fr l = lock_units sm ho fr l +
     (if l' = l then (if t \<noteq> NULL then 1 else 0) - (if ho l \<noteq> NULL then 1 else 0) else 0)"
  by (auto simp: lock_units_def)

lemma sema_down_loop_lock_inv:
  assumes k: "lock_inv (push_frame (SemaDownLoop s old) k)" and d: "sema_down_loop s old k = Some k'"
  shows "lock_inv k'"
proof (cases "sema_value (k_semas k s) = 0")
  case True
  then obtain t where b: "thread_block (push_frame (SemaDownLoop s old)
      (upd_sema s (\<lambda>x. x\<lparr>sema_waiters := sema_waiters x @ [t]\<rparr>) k)) = Some k'"
    using d by (auto simp: sema_down_loop_def Let_def split: bind_splits)
  show ?thesis using thread_block_lock_inv [OF b] k by (simp add: push_upd_sema upd_sema_lock_inv)
next
  case False
  let ?k1 = "upd_sema s (\<lambda>x. x\<lparr>sema_value := sema_value x - 1\<rparr>) k"
  have "intr_set_level old ?k1 = Some k'" using d False by (simp add: sema_down_loop_def)
  moreover have "lock_inv ?k1"
    unfolding lock_inv_def locks_ok_def
  proof (intro conjI allI)
    fix t show "waits_in_acquire (k_frames ?k1 t)"
      using lock_invD(1) [OF k, of t] by (cases "t = k_cur k") (auto dest: waits_tl)
  next
    fix l show "lock_units (k_semas ?k1) (k_holder ?k1) (k_frames ?k1) l \<le> 1"
      using lock_invD(2) [OF k, of l] False by (simp add: uint_minus_1 split: if_splits)
  qed
  ultimately show ?thesis using intr_set_level_lock_inv by blast
qed

lemma sema_down_lock_inv:
  assumes "lock_inv (push_frame (SemaDownLoop s (k_intr k)) k)" "sema_down s k = Some k'"
  shows "lock_inv k'"
proof (rule sema_down_loop_lock_inv)
  show "sema_down_loop s (k_intr k) (k\<lparr>k_intr := INTR_OFF\<rparr>) = Some k'"
    using assms(2) by (simp add: sema_down_def split: if_splits)
  show "lock_inv (push_frame (SemaDownLoop s (k_intr k)) (k\<lparr>k_intr := INTR_OFF\<rparr>))"
    using assms(1) by (simp add: lock_inv_def)
qed

lemma sema_up_Some:
  assumes "sema_up s k = Some k'"
  obtains k4 where "k_holder k4 = k_holder k" "k_frames k4 = k_frames k" "\<And>x. sema_value (k_semas k4 x) =
      (if x = s then sema_value (k_semas k s) + 1 else sema_value (k_semas k x))"
    "lock_inv k' = lock_inv k4"
proof -
  let ?k2 = "upd_sema s (\<lambda>x. x\<lparr>sema_value := sema_value x + 1\<rparr>) (k\<lparr>k_intr := INTR_OFF\<rparr>)"
  show ?thesis
  proof (cases "sema_waiters (k_semas k s) = []")
    case True
    then have "intr_set_level (k_intr k) ?k2 = Some k'" using assms by (simp add: sema_up_def split: if_splits)
    then show ?thesis by (intro that [of ?k2]) (simp_all add: intr_set_level_lock_inv)
  next
    case False
    let ?t = "list_max_by (thread_priority_convert_func ?k2) (sema_waiters (k_semas k s))"
    let ?k3 = "upd_sema s (\<lambda>x. x\<lparr>sema_waiters := remove1 ?t (sema_waiters x)\<rparr>) ?k2"
    obtain k4 where k4: "thread_unblock ?t ?k3 = Some k4"
      and r: "thread_yield (push_frame (SetLevel (k_intr k)) k4) = Some k' \<or> intr_set_level (k_intr k) k4 = Some k'"
      using assms False by (auto simp: sema_up_def Let_def split: if_splits bind_splits)
    have "lock_inv k' = lock_inv k4" using r by (auto dest: thread_yield_lock_inv intr_set_level_lock_inv)
    with thread_unblock_locks [OF k4] show ?thesis by (intro that [of k4]) simp_all
  qed
qed

lemma units_bound: "a + (if P then 1 else 0) + s \<le> (0 :: int) \<Longrightarrow> 0 \<le> s \<Longrightarrow> a \<le> 0"
  by (simp split: if_splits)

lemma units_zero: "a + (if P then 1 else 0) \<le> (0 :: int) \<Longrightarrow> 0 \<le> a \<Longrightarrow> \<not> P \<and> a = 0"
  by (simp split: if_splits)

lemma sema_up_lock_inv:
  assumes k: "lock_inv k" and u: "sema_up s k = Some k'"
    and l: "\<And>l. s = LockSema l \<Longrightarrow> lock_units (k_semas k) (k_holder k) (k_frames k) l \<le> 0"
  shows "lock_inv k'"
  using u
proof (rule sema_up_Some)
  fix k4
  assume k4: "k_holder k4 = k_holder k" "k_frames k4 = k_frames k" "\<And>x. sema_value (k_semas k4 x) =
      (if x = s then sema_value (k_semas k s) + 1 else sema_value (k_semas k x))" "lock_inv k' = lock_inv k4"
  have "lock_units (k_semas k4) (k_holder k4) (k_frames k4) m \<le> 1" for m
  proof (cases "s = LockSema m")
    case True
    have "uint (sema_value (k_semas k s)) \<le> 0"
      using l [OF True] lock_invD(3) [OF k, of m] unfolding lock_units_def True by (rule units_bound)
    then have "uint (sema_value (k_semas k s)) = 0" using uint_ge_0 [of "sema_value (k_semas k s)"] by linarith
    then have "sema_value (k_semas k s) = 0" by (simp add: uint_0_iff)
    with True l [OF True] show ?thesis by (simp add: lock_units_def k4)
  next
    case False
    then have "LockSema m \<noteq> s" by blast
    with lock_invD(2) [OF k, of m] show ?thesis by (simp add: lock_units_def k4)
  qed
  with lock_invD(1) [OF k] have "lock_inv k4" by (simp add: k4(1,2) lock_inv_def locks_ok_def)
  with k4(4) show ?thesis by simp
qed

lemma lock_acquire_lock_inv:
  assumes k: "op_inv k" "lock_inv k" and a: "lock_acquire l k = Some k'"
  shows "lock_inv k'"
proof -
  let ?k1 = "k\<lparr>k_intr := INTR_OFF\<rparr>"
  obtain lp k2 where k2: "lock_acquire_donate l (k_cur k) ?k1 = Some (lp, k2)"
    and d: "sema_down (LockSema l) (push_frame (LockAcquireTail l (k_cur k) lp (k_intr k)) k2) = Some k'"
    using a k by (auto simp: lock_acquire_def Let_def split: if_splits bind_splits)
  have "op_inv ?k1" using k by simp
  note f = lock_acquire_donate_inv [OF this k2]
  let ?k3 = "push_frame (SemaDownLoop (LockSema l) (k_intr k2)) (push_frame (LockAcquireTail l (k_cur k) lp (k_intr k)) k2)"
  have "locks_ok (k_semas k) (k_holder k) (k_frames ?k3)"
    using locks_ok_frame [of "k_semas k" "k_holder k" "k_frames k" "SemaDownLoop (LockSema l) (k_intr k2) #
      LockAcquireTail l (k_cur k) lp (k_intr k) # k_frames k (k_cur k)" "k_cur k"] k(2) f
    by (simp add: lock_inv_def locks_ok_def)
  then have "lock_inv ?k3" using f by (simp add: lock_inv_def)
  then show ?thesis using sema_down_lock_inv [OF _ d] by simp
qed

lemma lock_release_lock_inv:
  assumes k: "op_inv k" "lock_inv k" and a: "lock_release l k = Some k'"
  shows "lock_inv k'"
  using k(1) a
proof (rule lock_release_Some)
  fix k2
  assume h: "k_holder k l = k_cur k"
    and k2: "drop_lock_priority l (k_cur k) (k\<lparr>k_intr := INTR_OFF, k_holder := (k_holder k)(l := NULL)\<rparr>) = Some k2"
    and u: "sema_up (LockSema l) (push_frame (LockReleaseTail (k_cur k) (k_intr k)) k2) = Some k'"
  note f = drop_lock_priority_frame [OF k2]
  have n: "k_holder k l \<noteq> NULL" using h op_inv_cur(6) [OF k(1)] by simp
  have "lock_units (k_semas k2) (k_holder k2) (k_frames k2) m \<le> 1" for m
    using lock_invD(2) [OF k(2), of m] n f(4-6) by (simp split: if_splits)
  then have "lock_inv k2" using lock_invD(1) [OF k(2)] f by (simp add: lock_inv_def locks_ok_def)
  moreover have "lock_units (k_semas k2) (k_holder k2) (k_frames k2) l \<le> 0"
    using lock_invD(2) [OF k(2), of l] n f by simp
  ultimately show ?thesis using f by (intro sema_up_lock_inv [OF _ u]) auto
qed

text \<open>A thread about to become the holder finds the lock taken by nobody else.\<close>

lemma take_lock_inv:
  assumes k: "lock_inv k" and f: "k_frames k (k_cur k) = f # fs" "f = LockTryTail l \<or> (\<exists>t lp old. f = LockAcquireTail l t lp old)"
    and t: "t \<noteq> NULL"
  shows "lock_inv ((pop_frame k)\<lparr>k_holder := (k_holder k)(l := t)\<rparr>)" "k_holder k l = NULL"
    "sema_value (k_semas k (LockSema l)) = 0"
proof -
  have w: "waits_in_acquire fs" using lock_invD(1) [OF k, of "k_cur k"] f(1) waits_tl by simp
  have a: "acquiring l (k_frames k (k_cur k)) \<ge> 1" "\<And>m. acquiring m (f # fs) = acquiring m fs + (if m = l then 1 else 0)"
    using f acquiring_nonneg [OF w, of l] by auto
  have b: "uint (sema_value (k_semas k (LockSema l))) + (if k_holder k l \<noteq> NULL then 1 else 0) \<le> (0 :: int)"
    using lock_invD(2) [OF k, of l] lock_invD(4) [OF k, of l "k_cur k"] a(1) unfolding lock_units_def by linarith
  note c = units_zero [OF b uint_ge_0]
  then show h: "k_holder k l = NULL" by simp
  from c show "sema_value (k_semas k (LockSema l)) = 0" by (simp add: uint_0_iff)
  have "lock_units (k_semas k) ((k_holder k)(l := t)) ((k_frames k)(k_cur k := fs)) m \<le> 1" for m
    using lock_invD(2) [OF k, of m] a(2) [of m] f(1) h t by (simp split: if_splits)
  with lock_invD(1) [OF k] w f(1) show "lock_inv ((pop_frame k)\<lparr>k_holder := (k_holder k)(l := t)\<rparr>)"
    by (simp add: lock_inv_def locks_ok_def)
qed

lemma wake_sleepers_lock_inv: "wake_sleepers n ts k = Some k' \<Longrightarrow> lock_inv k' = lock_inv k"
proof (induction ts arbitrary: k)
  case (Cons t ts)
  then show ?case by (auto simp: Let_def split: if_splits bind_splits dest!: thread_unblock_locks)
qed simp

lemma timer_intr_lock_inv: "external_interrupt timer_interrupt k = Some k' \<Longrightarrow> lock_inv k' = lock_inv k"
  by (auto simp: external_interrupt_def intr_handler_def timer_interrupt_def thread_tick_def intr_yield_on_return_def
      tick_statistics_def Let_def split: if_splits bind_splits
      dest!: wake_sleepers_lock_inv timer_ticks_Some thread_yield_lock_inv)

lemma thread_create_lock_inv:
  assumes k: "op_inv k" "lock_inv k" and c: "k_cur k \<noteq> idle_thread k" and p: "page = NULL \<or> \<not> vd k page"
    and g: "\<And>l. func \<noteq> IdleFunc (LockSema l)" and x: "thread_create page nm pri func k = Some k'"
  shows "lock_inv k'"
proof (cases "page = NULL")
  case True
  with x k show ?thesis by (auto simp: thread_create_def split: if_splits)
next
  case False
  with p have "\<not> vd k page" by simp
  from thread_create_Some [OF k(1) c False this x] obtain k3 where k3: "op_inv k3" "k_semas k3 = k_semas k"
    "k_holder k3 = k_holder k" "k_frames k page = []" "page \<noteq> k_cur k"
    "k_frames k3 = (k_frames k)(page := [KernelThread func],
       k_cur k := AllocTid # CreateTail page pri # k_frames k (k_cur k))" "lock_acquire tid_lock k3 = Some k'"
    by blast
  have n: "\<not> lock_frame (KernelThread func)" using g by (cases "KernelThread func" rule: lock_frame.cases) auto
  have "lock_units (k_semas k3) (k_holder k3) (k_frames k3) l \<le> 1" for l
    using lock_invD(2) [OF k(2), of l] k3(2-6) n by simp
  moreover have "waits_in_acquire (k_frames k3 t)" for t using lock_invD(1) [OF k(2)] k3(6) n by simp
  ultimately have "lock_inv k3" by (simp add: lock_inv_def locks_ok_def)
  then show ?thesis using lock_acquire_lock_inv [OF k3(1) _ k3(7)] by simp
qed

lemma lock_release_tail_lock_inv: "lock_release_tail t old k = Some k' \<Longrightarrow> lock_inv k' = lock_inv k"
  by (auto simp: lock_release_tail_def Let_def split: if_splits bind_splits
      dest!: thread_yield_lock_inv intr_set_level_lock_inv)

lemma sema_try_down_lock_inv:
  assumes k: "lock_inv k" and d: "sema_try_down s k = Some (b, k')"
  shows "k_holder k' = k_holder k" "k_frames k' = k_frames k" "k_cur k' = k_cur k" "lock_inv k'"
    "\<And>l. s = LockSema l \<Longrightarrow> b \<Longrightarrow>
       lock_units (k_semas k') (k_holder k') (k_frames k') l = lock_units (k_semas k) (k_holder k) (k_frames k) l - 1"
proof -
  have k': "k' = (if sema_value (k_semas k s) > 0 then upd_sema s (\<lambda>x. x\<lparr>sema_value := sema_value x - 1\<rparr>)
      (k\<lparr>k_intr := INTR_OFF\<rparr>) else k\<lparr>k_intr := INTR_OFF\<rparr>)\<lparr>k_intr := k_intr k\<rparr>"
    and b: "b \<longleftrightarrow> sema_value (k_semas k s) > 0"
    using d by (auto simp: sema_try_down_def Let_def split: if_splits bind_splits dest!: intr_set_level_Some)
  show f: "k_holder k' = k_holder k" "k_frames k' = k_frames k" "k_cur k' = k_cur k" by (simp_all add: k')
  show u: "\<And>l. s = LockSema l \<Longrightarrow> b \<Longrightarrow>
       lock_units (k_semas k') (k_holder k') (k_frames k') l = lock_units (k_semas k) (k_holder k) (k_frames k) l - 1"
    using b by (simp add: k' uint_minus_1 word_gt_0)
  have "lock_units (k_semas k') (k_holder k') (k_frames k') l \<le> 1" for l
    using lock_invD(2) [OF k, of l] by (simp add: k' uint_minus_1 word_gt_0)
  with lock_invD(1) [OF k] f show "lock_inv k'" by (simp add: lock_inv_def locks_ok_def)
qed

lemma lock_try_acquire_lock_inv:
  assumes k: "lock_inv k" and a: "lock_try_acquire l k = Some (b, k')"
  shows "lock_inv k'"
proof -
  obtain k1 where k1: "sema_try_down (LockSema l) k = Some (b, k1)"
    and k': "k' = (if b then push_frame (LockTryTail l) k1 else k1)"
    using a by (auto simp: lock_try_acquire_def split: if_splits bind_splits)
  note d = sema_try_down_lock_inv [OF k k1]
  show ?thesis
  proof (cases b)
    case True
    have "lock_units (k_semas k1) (k_holder k1) (k_frames (push_frame (LockTryTail l) k1)) m \<le> 1" for m
      using lock_invD(2) [OF d(4), of m] lock_invD(2) [OF k, of m] d(5) [OF refl True] by (cases "l = m") simp_all
    with True lock_invD(1) [OF d(4)] show ?thesis by (simp add: k' lock_inv_def locks_ok_def)
  qed (use k' d in simp)
qed

lemma sema_init_lock_inv: "\<forall>l. s \<noteq> LockSema l \<Longrightarrow> sema_init s v k = Some k' \<Longrightarrow> lock_inv k' = lock_inv k"
  by (auto simp: sema_init_def split: if_splits intro!: upd_sema_lock_inv)

lemma lock_init_lock_inv:
  assumes k: "lock_inv k" and a: "\<forall>t. acquiring l (k_frames k t) = 0" and i: "lock_init l k = Some k'"
  shows "lock_inv k'"
proof -
  have k': "k' = upd_sema (LockSema l) (\<lambda>_. \<lparr>sema_value = 1, sema_waiters = []\<rparr>) (k\<lparr>k_holder := (k_holder k)(l := NULL)\<rparr>)"
    using i by (simp add: lock_init_def sema_init_def split: if_splits)
  have "lock_units (k_semas k') (k_holder k') (k_frames k') m \<le> 1" for m
    using lock_invD(2) [OF k, of m] a by (cases "m = l") (simp_all add: k' lock_units_def)
  with lock_invD(1) [OF k] show ?thesis by (simp add: k' lock_inv_def locks_ok_def)
qed

lemma cond_wait_lock_inv:
  assumes k: "op_inv k" "lock_inv k" and c: "k_cur k \<noteq> idle_thread k" and a: "cond_wait cv l k = Some k'"
  shows "lock_inv k'"
proof -
  let ?k1 = "k\<lparr>k_intr := INTR_OFF\<rparr>"
  obtain k2 where k2: "sema_init (WaiterSema (k_cur k)) 0 ?k1 = Some k2"
    and r: "lock_release l (push_frame (CondWaitDown l) (push_frame (SetLevel (k_intr k))
       (k2\<lparr>k_cond_waiters := (k_cond_waiters k2)(cv := k_cond_waiters k2 cv @ [k_cur k])\<rparr>))) = Some k'"
    using a k by (auto simp: cond_wait_def Let_def split: if_splits bind_splits)
  have i: "op_inv k2" using sema_init_inv [OF _ _ k2] k waiter_free [OF k(1)] by simp
  have f: "k_cur k2 = k_cur k" "idle_thread k2 = idle_thread k" using k2 by (auto simp: sema_init_def split: if_splits)
  have "lock_inv k2" using sema_init_lock_inv [OF _ k2] k by simp
  then show ?thesis
    by (intro lock_release_lock_inv [OF _ _ r]) (use i f c in \<open>auto intro!: push_frame_inv\<close>)
qed

lemma cond_signal_lock_inv:
  assumes k: "lock_inv k" and a: "cond_signal cv l k = Some k'"
  shows "lock_inv k'"
proof -
  let ?k1 = "k\<lparr>k_intr := INTR_OFF\<rparr>"
  let ?w = "list_max_by (waiter_priority_convert_func ?k1) (k_cond_waiters k cv)"
  let ?k2 = "?k1\<lparr>k_cond_waiters := (k_cond_waiters k)(cv := remove1 ?w (k_cond_waiters k cv))\<rparr>"
  have "intr_set_level (k_intr k) ?k1 = Some k' \<or> sema_up (WaiterSema ?w) (push_frame (SetLevel (k_intr k)) ?k2) = Some k'"
    using a by (auto simp: cond_signal_def Let_def split: if_splits bind_splits)
  then show ?thesis
    using sema_up_lock_inv [of "push_frame (SetLevel (k_intr k)) ?k2" "WaiterSema ?w" k']
      intr_set_level_lock_inv [of "k_intr k" ?k1 k'] k by auto
qed

lemma cond_broadcast_lock_inv: "lock_inv k \<Longrightarrow> cond_broadcast cv l k = Some k' \<Longrightarrow> lock_inv k'"
  by (auto simp: cond_broadcast_def split: if_splits dest!: cond_signal_lock_inv [rotated])

lemma thread_exit_lock_inv:
  "k_frames k (k_cur k) = [] \<Longrightarrow> thread_exit k = Some k' \<Longrightarrow> lock_inv k' = lock_inv k"
  by (auto simp: thread_exit_def thread_current_def running_thread_def Let_def split: if_splits dest!: schedule_lock_inv)

lemma timer_sleep_lock_inv: "timer_sleep n k = Some k' \<Longrightarrow> lock_inv k' = lock_inv k"
  by (auto simp: timer_sleep_def thread_sleep_def Let_def split: if_splits bind_splits
      dest!: timer_ticks_Some thread_block_lock_inv)

lemma thread_set_priority_lock_inv: "thread_set_priority p k = Some k' \<Longrightarrow> lock_inv k' = lock_inv k"
  by (auto simp: thread_set_priority_def Let_def split: if_splits bind_splits dest!: thread_yield_lock_inv)

lemma thread_create_tail_lock_inv: "thread_create_tail t pri k = Some k' \<Longrightarrow> lock_inv k' = lock_inv k"
  by (auto simp: thread_create_tail_def alloc_frame_def Let_def split: if_splits bind_splits
      dest!: thread_yield_lock_inv thread_unblock_locks)

lemma kernel_thread_lock_inv:
  assumes k: "lock_inv k" and s: "\<And>l. func \<noteq> IdleFunc (LockSema l)" and x: "kernel_thread func k = Some k'"
  shows "lock_inv k'"
proof (cases func)
  case (IdleFunc s)
  with x obtain t where "sema_up s (push_frame IdleBlock (k\<lparr>k_intr := INTR_ON, idle_thread := t\<rparr>)) = Some k'"
    by (auto simp: kernel_thread_def split: if_splits bind_splits dest!: intr_enable_Some)
  then show ?thesis by (rule sema_up_lock_inv [rotated]) (use k s IdleFunc in auto)
qed (use x k in \<open>auto simp: kernel_thread_def split: if_splits bind_splits dest!: intr_enable_Some\<close>)

lemma thread_start_lock_inv:
  assumes k: "op_inv k" "lock_inv k" and c: "k_cur k \<noteq> idle_thread k" "page = NULL \<or> \<not> vd k page" "wt k idle_started = []"
    and x: "thread_start page k = Some k'"
  shows "lock_inv k'"
proof -
  obtain k1 where k1: "sema_init idle_started 0 k = Some k1"
    and t: "thread_create page ''idle'' PRI_MIN (IdleFunc idle_started) (push_frame (StartDown idle_started) k1) = Some k'"
    using x by (auto simp: thread_start_def split: bind_splits)
  have i: "op_inv k1" using sema_init_inv [OF k(1) c(3) k1] .
  have f: "k_cur k1 = k_cur k" "idle_thread k1 = idle_thread k" "vd k1 = vd k"
    using k1 by (auto simp: sema_init_def split: if_splits)
  have "lock_inv k1" using sema_init_lock_inv [OF _ k1] k by (simp add: idle_started_def)
  then show ?thesis
    by (intro thread_create_lock_inv [OF _ _ _ _ _ t]) (use i f c in \<open>auto simp: idle_started_def intro!: push_frame_inv\<close>)
qed

subsection \<open>Every step keeps the locks\<close>

lemma do_call_lock_inv:
  assumes k: "sched_inv k" "lock_inv k" and f: "k_frames k (k_cur k) = []" and ok: "call_ok k c" and x: "do_call c k = Some k'"
  shows "lock_inv k'"
proof -
  have o: "op_inv k" using k f by (simp add: sched_inv_def op_inv_def started_def)
  have i: "k_cur k \<noteq> idle_thread k" using not_idle [OF k(1)] f by simp
  note rules = sema_down_lock_inv [of "Sema s" k k' for s] sema_up_lock_inv [OF k(2), of "Sema s" for s]
    lock_acquire_lock_inv [OF o k(2)] lock_release_lock_inv [OF o k(2)]
    cond_wait_lock_inv [OF o k(2) i] cond_signal_lock_inv [OF k(2)] cond_broadcast_lock_inv [OF k(2)]
  note eqs = thread_exit_lock_inv [OF f] thread_yield_lock_inv thread_set_priority_lock_inv timer_sleep_lock_inv
  show ?thesis
  proof (cases c)
    case (SemaInit s v)
    with x k sema_init_lock_inv [of "Sema s" v k k'] show ?thesis by simp
  next
    case (SemaTryDown s)
    with x show ?thesis using sema_try_down_lock_inv(4) [OF k(2)] by auto
  next
    case (LockInit l)
    with x ok show ?thesis using lock_init_lock_inv [OF k(2), of l] by simp
  next
    case (LockTryAcquire l)
    with x show ?thesis using lock_try_acquire_lock_inv [OF k(2)] by auto
  next
    case (CondInit cv)
    with x k show ?thesis by (auto simp: cond_init_def split: if_splits)
  next
    case (ThreadCreate page nm pri f)
    with x ok show ?thesis using thread_create_lock_inv [OF o k(2) i, of page f nm pri k'] by (auto simp: view_fold)
  next
    case (ThreadStart page)
    with x ok show ?thesis using thread_start_lock_inv [OF o k(2) i, of page k'] by (simp add: view_fold)
  next
    case SynchInit
    with x k show ?thesis by (auto simp: synch_init_def)
  qed (use x k in \<open>auto intro: rules dest: eqs\<close>)
qed

lemma lock_acquire_tail_lock_inv:
  "lock_acquire_tail l t lp old k = Some k' \<Longrightarrow> lock_inv k' = lock_inv (k\<lparr>k_holder := (k_holder k)(l := t)\<rparr>)"
  by (auto simp: lock_acquire_tail_def Let_def split: if_splits bind_splits option.splits dest!: intr_set_level_lock_inv)

text \<open>The continuation of a suspended call that does not end the taking of a lock.\<close>

lemma run_frame_lock_inv:
  assumes o: "f \<notin> {IdleBlock, IdleHalt} \<Longrightarrow> op_inv k" and k: "lock_inv k" and f: "\<not> lock_frame f" and r: "run_frame f k = Some k'"
  shows "lock_inv k'"
proof (cases f)
  case (SemaDownLoop s old)
  with f have "lock_inv (push_frame (SemaDownLoop s old) k)" using k by simp
  with SemaDownLoop r show ?thesis by (auto intro: sema_down_loop_lock_inv)
next
  case (CondWaitDown l)
  then obtain t where "sema_down (WaiterSema t) (push_frame (CondWaitAcquire l) k) = Some k'"
    using r by (auto simp: cond_wait_down_def split: bind_splits)
  then show ?thesis by (rule sema_down_lock_inv [rotated]) (use k in simp)
next
  case AllocTid
  with o have "op_inv (k\<lparr>k_ret := r, next_tid := n\<rparr>)" for r n by simp
  from lock_release_lock_inv [OF this] AllocTid r k show ?thesis by (auto simp: allocate_tid_tail_def)
next
  case (KernelThread g)
  with f have "\<And>l. g \<noteq> IdleFunc (LockSema l)" by auto
  with KernelThread r k show ?thesis by (auto intro: kernel_thread_lock_inv)
next
  case (StartDown s)
  have d: "sema_down s (k\<lparr>k_intr := INTR_ON\<rparr>) = Some k'"
    using StartDown r by (auto simp: thread_start_tail_def split: bind_splits dest!: intr_enable_Some)
  have "\<not> lock_frame (SemaDownLoop s old)" for old using f StartDown by (cases s) auto
  then show ?thesis by (intro sema_down_lock_inv [OF _ d]) (use k in simp)
next
  case (ReturnTid t)
  with r k show ?thesis by auto
next
  case (CondWaitAcquire l)
  with r k o show ?thesis using lock_acquire_lock_inv [of k l k'] by simp
next
  case (CondBroadcast cv l)
  with r k show ?thesis using cond_broadcast_lock_inv [of k cv l k'] by simp
next
  case (SetLevel old)
  with r k show ?thesis by (auto dest: intr_set_level_lock_inv)
next
  case (LockReleaseTail t old)
  with r k show ?thesis by (auto dest: lock_release_tail_lock_inv)
next
  case (CreateTail t pri)
  with r k show ?thesis by (auto dest: thread_create_tail_lock_inv)
next
  case IdleBlock
  with r k show ?thesis by (auto simp: idle_block_def intr_disable_def dest: thread_block_lock_inv)
qed (use r k f in \<open>auto simp: idle_halt_def intr_return_def\<close>)

lemma resume_lock_inv:
  assumes k: "sched_inv k" "lock_inv k" and x: "resume k = Some k'"
  shows "lock_inv k'"
proof -
  obtain f fs where f: "k_frames k (k_cur k) = f # fs" and r: "run_frame f (pop_frame k) = Some k'"
    using x by (cases "k_frames k (k_cur k)") (simp_all add: resume_def)
  have own: "frame_own (k_cur k) f" using ownD [of k "k_cur k"] k(1) f by (simp add: sched_inv_def)
  have c: "k_cur k \<noteq> NULL" using cur_not_NULL [OF k(1)] .
  note take = take_lock_inv(1) [OF k(2) f _ c]
  show ?thesis
  proof (cases "lock_frame f")
    case False
    show ?thesis
    proof (rule run_frame_lock_inv [OF _ _ False r])
      show "f \<notin> {IdleBlock, IdleHalt} \<Longrightarrow> op_inv (pop_frame k)" by (rule pop_frame_inv [OF k(1) f])
      show "lock_inv (pop_frame k)" by (rule pop_lock_inv [OF k(2) f False])
    qed
  next
    case True
    then show ?thesis
    proof (cases f rule: lock_frame.cases)
      case (1 l old)
      have "lock_inv (push_frame f (pop_frame k)) = lock_inv k"
        using f by (intro lock_inv_cong) (simp_all add: fun_eq_iff)
      with 1 r k(2) show ?thesis by (auto intro: sema_down_loop_lock_inv)
    next
      case (2 l t lp old)
      with r own take [of l] lock_acquire_tail_lock_inv [of l t lp old "pop_frame k" k'] show ?thesis by simp
    next
      case (3 l)
      with r take [of l] show ?thesis
        by (auto simp: lock_try_tail_def thread_current_def running_thread_def split: bind_splits if_splits)
    next
      case (4 l)
      with f lock_invD(1) [OF k(2), of "k_cur k"] show ?thesis by simp
    next
      case (5 l)
      with f lock_invD(1) [OF k(2), of "k_cur k"] show ?thesis by simp
    qed (use True in auto)
  qed
qed

lemma step_lock_inv: "step k k' \<Longrightarrow> sched_inv k \<Longrightarrow> lock_inv k \<Longrightarrow> lock_inv k'"
proof (induction rule: step.induct)
  case (step_resume k k')
  then show ?case by (blast intro: resume_lock_inv)
next
  case (step_call k c k')
  then show ?case by (blast intro: do_call_lock_inv)
next
  case (step_timer k k')
  then show ?case using timer_intr_lock_inv by simp
qed

lemma reachable_lock_inv: "reachable k0 k \<Longrightarrow> sched_inv k0 \<Longrightarrow> lock_inv k0 \<Longrightarrow> lock_inv k"
  by (induction rule: reachable.induct) (auto intro: step_lock_inv reachable_inv)

lemma boot_lock_inv:
  assumes "boot page = Some k"
  shows "lock_inv k"
  using assms
proof (rule boot_start)
  fix k5
  assume k5: "op_inv k5" "k_frames k5 = (\<lambda>_. [])(page := [AllocTid, ReturnTid page])" "k_holder k5 = (\<lambda>_. NULL)"
    "k_semas k5 = (\<lambda>_. \<lparr>sema_value = 0, sema_waiters = []\<rparr>)(LockSema tid_lock := \<lparr>sema_value = 1, sema_waiters = []\<rparr>)"
    "lock_acquire tid_lock k5 = Some k"
  have "lock_units (k_semas k5) (k_holder k5) (k_frames k5) l \<le> 1" for l
    unfolding k5(2) lock_units_frame by (simp add: lock_units_def k5(3,4))
  then have "lock_inv k5" using k5(2) by (simp add: lock_inv_def locks_ok_def)
  then show ?thesis by (rule lock_acquire_lock_inv [OF k5(1) _ k5(5)])
qed
end
