(* ===== verification/Kernel_Props.thy ===== *)
theory Kernel_Props
  imports Kernel_Locks
begin

text \<open>
  What the scheduler, the timer and the locks guarantee: the claims about the kernel as a transition
  system, about priority donation and about the panics of the synchronisation primitives.
  \<open>exec\<close> runs a list of steps from boot, for concrete reachable states; \<open>sample_kernel\<close> is a
  state with a chain of two donations.
\<close>

subsection \<open>Who runs next\<close>

lemma pick_first_max:
  fixes conv :: "'a \<Rightarrow> int"
  obtains ys zs where "x # xs = ys @ pick (\<lambda>a b. conv a < conv b) x xs # zs"
    "\<forall>u\<in>set ys. conv u < conv (pick (\<lambda>a b. conv a < conv b) x xs)"
    "\<forall>u\<in>set zs. conv u \<le> conv (pick (\<lambda>a b. conv a < conv b) x xs)"
proof (induction xs arbitrary: x thesis rule: rev_induct)
  case Nil
  show ?case by (rule Nil [of "[]" "[]"]) (simp_all add: pick_def)
next
  case (snoc a xs)
  let ?m = "pick (\<lambda>a b. conv a < conv b) x xs"
  have p: "pick (\<lambda>a b. conv a < conv b) x (xs @ [a]) = (if conv ?m < conv a then a else ?m)"
    by (simp add: pick_def)
  from snoc.IH obtain ys zs where y: "x # xs = ys @ ?m # zs" "\<forall>u\<in>set ys. conv u < conv ?m" "\<forall>u\<in>set zs. conv u \<le> conv ?m"
    by blast
  show ?case
  proof (cases "conv ?m < conv a")
    case True
    with y have "\<forall>u\<in>set (ys @ ?m # zs). conv u < conv a" by fastforce
    with True p y(1) show ?thesis by (intro snoc.prems [of "x # xs" "[]"]) (simp_all del: Cons_eq_append_conv)
  next
    case False
    with p y show ?thesis by (intro snoc.prems [of ys "zs @ [a]"]) auto
  qed
qed

lemma list_max_by_first:
  assumes "xs \<noteq> []"
  obtains ys zs where "xs = ys @ list_max_by conv xs # zs" "\<forall>u\<in>set ys. conv u < conv (list_max_by conv xs)"
    "\<forall>u\<in>set zs. conv u \<le> conv (list_max_by conv xs)"
proof -
  have "default_list_less_func conv = (\<lambda>a b. conv a < conv b)" by (simp add: fun_eq_iff default_list_less_func_def)
  then show thesis using that assms pick_first_max [of "hd xs" "tl xs" conv] by (auto simp: list_max_by_def)
qed

lemma schedule_cur:
  assumes "schedule k = Some k'" "ready_list k \<noteq> []"
  shows "k_cur k' = list_max_by (thread_priority_convert_func k) (ready_list k)"
    "ready_list k' = remove1 (list_max_by (thread_priority_convert_func k) (ready_list k)) (ready_list k)"
    "t_status (k_threads k' (k_cur k')) = THREAD_RUNNING" "t_priority (k_threads k' t) = t_priority (k_threads k t)"
  using assms
  by (auto simp: schedule_def next_thread_to_run_def thread_schedule_tail_def process_activate_def running_thread_def
      thread_current_def Let_def free_thread_page_def split: if_splits bind_splits)

lemma schedule_idle:
  assumes "schedule k = Some k'" "ready_list k = []"
  shows "k_cur k' = idle_thread k" "ready_list k' = []" "t_status (k_threads k' (k_cur k')) = THREAD_RUNNING"
  using assms
  by (auto simp: schedule_def next_thread_to_run_def thread_schedule_tail_def process_activate_def running_thread_def
      thread_current_def Let_def free_thread_page_def split: if_splits bind_splits)

text \<open>
  C20: thread_yield runs the first thread of highest priority in the queue made of the ready threads
  and, at the end, the caller unless it is the idle thread, and leaves the rest of the queue in
  order; if the queue is empty the idle thread runs.
\<close>

theorem yield_runs_highest_priority:
  assumes "thread_yield k = Some k'" "q = ready_list k @ (if k_cur k = idle_thread k then [] else [k_cur k])"
  shows "t_status (k_threads k' (k_cur k')) = THREAD_RUNNING \<and>
    (q = [] \<longrightarrow> k_cur k' = idle_thread k \<and> ready_list k' = []) \<and>
    (q \<noteq> [] \<longrightarrow> (\<exists>xs ys. q = xs @ k_cur k' # ys \<and> ready_list k' = xs @ ys \<and>
      (\<forall>u\<in>set xs. t_priority (k_threads k u) < t_priority (k_threads k (k_cur k'))) \<and>
      (\<forall>u\<in>set ys. t_priority (k_threads k u) \<le> t_priority (k_threads k (k_cur k')))))"
proof -
  let ?k = "push_frame (SetLevel (k_intr k)) (upd_thread (k_cur k) (\<lambda>x. x\<lparr>t_status := THREAD_READY\<rparr>)
    (k\<lparr>k_intr := INTR_OFF, ready_list := q\<rparr>))"
  have s: "schedule ?k = Some k'"
    using assms by (auto simp: thread_yield_def Let_def thread_current_def running_thread_def intr_disable_def intr_get_level_def split: if_splits bind_splits)
  have c: "thread_priority_convert_func ?k = (\<lambda>t. t_priority (k_threads k t))"
    by (simp add: thread_priority_convert_func_def fun_eq_iff)
  show ?thesis
  proof (cases "q = []")
    case True
    then show ?thesis using schedule_idle [OF s] by simp
  next
    case False
    then have "ready_list ?k \<noteq> []" by simp
    note d = schedule_cur [OF s this]
    have r: "ready_list k' = remove1 (k_cur k') q" using d(1,2) by simp
    obtain xs ys where q: "q = xs @ k_cur k' # ys" "\<forall>u\<in>set xs. t_priority (k_threads k u) < t_priority (k_threads k (k_cur k'))"
      "\<forall>u\<in>set ys. t_priority (k_threads k u) \<le> t_priority (k_threads k (k_cur k'))"
      using list_max_by_first [of q "\<lambda>t. t_priority (k_threads k t)"] d(1) c False by auto
    from q(2) have "k_cur k' \<notin> set xs" by auto
    with r q(1) have "ready_list k' = xs @ ys" by (simp add: remove1_append)
    with q d(3) show ?thesis by auto
  qed
qed

subsection \<open>Donation\<close>

text \<open>The holder of the lock has a record of it in its list.\<close>

definition has_record :: "kernel \<Rightarrow> ptr \<Rightarrow> bool" where
  "has_record k l \<longleftrightarrow> find_lock_priority k (t_lock_priority_list (k_threads k (k_holder k l))) l \<noteq> None"

lemma find_lock_priority_cong:
  "(\<And>i. i \<in> set is \<Longrightarrow> lp_lock (lock_priority_page k' ! i) = lp_lock (lock_priority_page k ! i)) \<Longrightarrow>
    find_lock_priority k' is l = find_lock_priority k is l"
  by (induction "is") auto

lemma upd_priority_page:
  "lp_lock (xs[i := (xs ! i)\<lparr>lp_priority := p\<rparr>] ! j) = lp_lock (xs ! j) \<and>
   lp_waiting (xs[i := (xs ! i)\<lparr>lp_priority := p\<rparr>] ! j) = lp_waiting (xs ! j)"
  by (cases "i < length xs") (simp_all add: nth_list_update list_update_beyond not_less)

text \<open>What one donation changes.\<close>

lemma donate_priority_Some:
  assumes "donate_priority l pri k = Some (d, k1)"
  shows "k_holder k1 = k_holder k" "t_lock_priority_list (k_threads k1 t) = t_lock_priority_list (k_threads k t)"
    "lp_lock (lock_priority_page k1 ! i) = lp_lock (lock_priority_page k ! i)"
    "lp_waiting (lock_priority_page k1 ! i) = lp_waiting (lock_priority_page k ! i)"
    "d \<longleftrightarrow> t_priority (k_threads k (k_holder k l)) < pri"
    "t_priority (k_threads k1 t) = (if d \<and> t = k_holder k l then pri else t_priority (k_threads k t))"
  using assms by (auto simp: donate_priority_def Let_def upd_priority_page split: if_splits bind_splits)

lemma donate_priority_returns: "(\<exists>d k1. donate_priority l pri k = Some (d, k1)) \<longleftrightarrow> has_record k l"
  by (auto simp: has_record_def donate_priority_def Let_def split: bind_splits)

lemma donate_priority_records: "donate_priority l pri k = Some (d, k1) \<Longrightarrow> has_record k1 m = has_record k m"
  using donate_priority_Some(1-3) [of l pri k d k1] find_lock_priority_cong [of _ k1 k] by (simp add: has_record_def)

abbreviation prio :: "kernel \<Rightarrow> ptr \<Rightarrow> int" where
  "prio k t \<equiv> t_priority (k_threads k t)"

text \<open>The lock that a thread waits for is that of its top record.\<close>

definition waits_for :: "kernel \<Rightarrow> ptr \<Rightarrow> ptr \<Rightarrow> bool" where
  "waits_for k t l \<longleftrightarrow> (case t_lock_priority_list (k_threads k t) of [] \<Rightarrow> False
     | i # _ \<Rightarrow> lp_waiting (lock_priority_page k ! i) \<and> lp_lock (lock_priority_page k ! i) = l)"

definition donated :: "int \<Rightarrow> kernel \<Rightarrow> kernel \<Rightarrow> bool" where
  "donated pri k k' \<longleftrightarrow> k_holder k' = k_holder k \<and> waits_for k' = waits_for k \<and>
     (\<forall>t. prio k' t = prio k t \<or> prio k t < pri \<and> prio k' t = pri)"

lemma donate_priority_donated: "donate_priority l pri k = Some (d, k1) \<Longrightarrow> donated pri k k1"
  using donate_priority_Some [of l pri k d k1]
  by (auto simp: donated_def waits_for_def fun_eq_iff split: list.splits)

lemma donated_trans: "donated pri k k1 \<Longrightarrow> donated pri k1 k2 \<Longrightarrow> donated pri k k2"
  unfolding donated_def by (metis less_irrefl)

lemma find_Some_nonempty: "find_lock_priority k is l \<noteq> None \<Longrightarrow> is \<noteq> []" by auto

text \<open>
  The locks that a donation of priority \<open>pri\<close> for the lock \<open>l\<close> arrives at: from a lock on to the one its
  holder waits for, if the holder has a lower priority and that lock is held.
\<close>

inductive donation_reaches :: "kernel \<Rightarrow> int \<Rightarrow> ptr \<Rightarrow> ptr \<Rightarrow> bool" for k pri l where
  reaches_refl: "donation_reaches k pri l l"
| reaches_next: "donation_reaches k pri l m \<Longrightarrow> prio k (k_holder k m) < pri \<Longrightarrow> waits_for k (k_holder k m) n \<Longrightarrow>
    k_holder k n \<noteq> NULL \<Longrightarrow> donation_reaches k pri l n"

lemma waits_for_unique: "waits_for k t m \<Longrightarrow> waits_for k t n \<Longrightarrow> m = n"
  by (auto simp: waits_for_def split: list.splits)

text \<open>After the first holder is raised, the donation arrives at the same locks from the next one.\<close>

lemma donation_reaches_step:
  assumes d: "donate_priority l pri k = Some (True, k1)" and w: "waits_for k (k_holder k l) n" "k_holder k n \<noteq> NULL"
  shows "donation_reaches k pri l m \<longleftrightarrow> m = l \<or> donation_reaches k1 pri n m"
proof -
  note s = donate_priority_Some [OF d]
  have w1: "waits_for k1 = waits_for k" using donate_priority_donated [OF d] by (simp add: donated_def)
  have n: "donation_reaches k pri l n"
    using reaches_next [OF reaches_refl _ w] s(5) by simp
  show ?thesis
  proof
    assume "donation_reaches k pri l m"
    then show "m = l \<or> donation_reaches k1 pri n m"
    proof induction
      case (reaches_next m m')
      show ?case
      proof (cases "k_holder k m = k_holder k l")
        case True
        with reaches_next.hyps(3) w(1) have "m' = n" using waits_for_unique by metis
        then show ?thesis by (simp add: reaches_refl)
      next
        case False
        with reaches_next.IH have r: "donation_reaches k1 pri n m" by auto
        show ?thesis
          using donation_reaches.reaches_next [OF r, of m'] reaches_next.hyps(2-4) False s(1,6) w1 by simp
      qed
    qed simp
  next
    have "donation_reaches k pri l m" if "donation_reaches k1 pri n m"
      using that
    proof induction
      case (reaches_next m m')
      have "prio k (k_holder k m) < pri" using reaches_next.hyps(2) s(1,6) by (auto split: if_splits)
      with reaches_next.IH reaches_next.hyps(3,4) s(1) w1 show ?case
        using donation_reaches.reaches_next [of k pri l m m'] by simp
    qed (rule n)
    then show "m = l \<or> donation_reaches k1 pri n m \<Longrightarrow> donation_reaches k pri l m"
      using reaches_refl by blast
  qed
qed

lemma donation_reaches_stop:
  assumes "\<not> (prio k (k_holder k l) < pri \<and> (\<exists>n. waits_for k (k_holder k l) n \<and> k_holder k n \<noteq> NULL))"
  shows "donation_reaches k pri l m \<longleftrightarrow> m = l"
proof
  show "m = l" if "donation_reaches k pri l m" using that assms by induction auto
qed (simp add: reaches_refl)

text \<open>
  C11: Recursive priority donation for a held lock, with a priority in range and no lock held at
  address 0, returns exactly if every lock it arrives at, going from a lock to the one its holder
  waits for as long as holders have a lower priority, has a record in the list of its holder; a
  cycle of waiting threads does not keep it from returning. It then has raised exactly the holders
  of these locks to the donated priority, where theirs was lower, and changed no other priority. If
  one of these locks has no record, as after lock_try_acquire, the kernel stops.
\<close>

theorem donation_terminates:
  assumes "l \<noteq> NULL" "k_holder k l \<noteq> NULL" "PRI_MIN \<le> pri" "pri \<le> PRI_MAX" "k_holder k NULL = NULL"
  shows "if \<forall>m. donation_reaches k pri l m \<longrightarrow> has_record k m
    then \<exists>k'. donate_priority_recursively l pri k = Some k' \<and> donated pri k k' \<and>
      (\<forall>m. donation_reaches k pri l m \<longrightarrow> prio k' (k_holder k m) = max pri (prio k (k_holder k m))) \<and>
      (\<forall>t. (\<nexists>m. donation_reaches k pri l m \<and> t = k_holder k m) \<longrightarrow> prio k' t = prio k t)
    else donate_priority_recursively l pri k = None"
  using assms(1,2,5)
proof (induction "card {t. prio k t < pri}" arbitrary: k l rule: less_induct)
  case less
  show ?case
  proof (cases "has_record k l")
    case False
    then have "donate_priority l pri k = None" using donate_priority_returns by (metis not_None_eq surj_pair)
    then have "donate_priority_recursively l pri k = None"
      using less.prems assms(3,4) by (subst donate_priority_recursively.simps) simp
    then show ?thesis using False reaches_refl by metis
  next
    case hr: True
    then obtain d k1 where d: "donate_priority l pri k = Some (d, k1)" using donate_priority_returns by blast
    note s = donate_priority_Some [OF d] and dn = donate_priority_donated [OF d]
    let ?lps = "t_lock_priority_list (k_threads k1 (k_holder k1 l))"
    let ?top = "lock_priority_page k1 ! hd ?lps"
    have lps: "?lps \<noteq> []" using hr s(1,2) by (auto simp: has_record_def)
    have body: "donate_priority_recursively l pri k = (if d then
        if lp_waiting ?top \<and> k_holder k1 (lp_lock ?top) \<noteq> NULL then donate_priority_recursively (lp_lock ?top) pri k1
        else Some k1 else Some k1)"
      using less.prems d lps assms(3,4) by (subst donate_priority_recursively.simps) (simp add: Let_def)
    have w: "waits_for k (k_holder k l) m \<longleftrightarrow> lp_waiting ?top \<and> lp_lock ?top = m" for m
      using lps s(1-4) by (cases ?lps) (simp_all add: waits_for_def)
    show ?thesis
    proof (cases "d \<and> lp_waiting ?top \<and> k_holder k1 (lp_lock ?top) \<noteq> NULL")
      case False
      then have "donation_reaches k pri l m \<longleftrightarrow> m = l" for m
        using w s(1,5) by (intro donation_reaches_stop) auto
      with False body dn hr s(5,6) show ?thesis by (auto simp: max_def)
    next
      case True
      let ?m = "lp_lock ?top"
      have "{t. prio k1 t < pri} \<subset> {t. prio k t < pri}" using s(5,6) True by auto
      then have c: "card {t. prio k1 t < pri} < card {t. prio k t < pri}" by (intro psubset_card_mono) simp_all
      have m: "?m \<noteq> NULL" using True less.prems(3) s(1) by (cases "?m = NULL") auto
      have r: "donation_reaches k pri l n \<longleftrightarrow> n = l \<or> donation_reaches k1 pri ?m n" for n
        using donation_reaches_step [of l pri k k1 ?m n] d True w s(1) by simp
      have rec: "donate_priority_recursively l pri k = donate_priority_recursively ?m pri k1" using body True by simp
      note ih = less.hyps [OF c m, unfolded donate_priority_records [OF d]]
      have all: "(\<forall>n. donation_reaches k pri l n \<longrightarrow> has_record k n) \<longleftrightarrow> (\<forall>n. donation_reaches k1 pri ?m n \<longrightarrow> has_record k n)"
        by (auto simp: r hr)
      show ?thesis
      proof (cases "\<forall>n. donation_reaches k1 pri ?m n \<longrightarrow> has_record k n")
        case False
        then have f: "\<not> (\<forall>n. donation_reaches k pri l n \<longrightarrow> has_record k n)" unfolding all .
        have "donate_priority_recursively ?m pri k1 = None"
          using ih [unfolded if_not_P [OF False]] True less.prems(3) s(1) by simp
        then show ?thesis unfolding if_not_P [OF f] rec .
      next
        case a: True
        obtain k' where k': "donate_priority_recursively ?m pri k1 = Some k'" "donated pri k1 k'"
          "\<forall>n. donation_reaches k1 pri ?m n \<longrightarrow> prio k' (k_holder k n) = max pri (prio k1 (k_holder k n))"
          "\<forall>t. (\<nexists>n. donation_reaches k1 pri ?m n \<and> t = k_holder k n) \<longrightarrow> prio k' t = prio k1 t"
          using ih a True less.prems(3) s(1) by auto
        have up: "prio k' t = prio k1 t \<or> prio k1 t < pri \<and> prio k' t = pri" for t using k'(2) by (simp add: donated_def)
        have h: "prio k' (k_holder k l) = max pri (prio k (k_holder k l))"
          using up [of "k_holder k l"] s(5,6) True by auto
        have "prio k' (k_holder k n) = max pri (prio k (k_holder k n))" if "donation_reaches k pri l n" for n
        proof (cases "k_holder k n = k_holder k l")
          case False
          then have "donation_reaches k1 pri ?m n" using that r [of n] by auto
          with k'(3) False s(6) show ?thesis by simp
        qed (simp add: h)
        moreover have "prio k' t = prio k t" if t: "\<nexists>n. donation_reaches k pri l n \<and> t = k_holder k n" for t
        proof -
          have "t \<noteq> k_holder k l" "\<nexists>n. donation_reaches k1 pri ?m n \<and> t = k_holder k n" using t by (auto simp: r)
          then show ?thesis using k'(4) s(6) by simp
        qed
        ultimately show ?thesis using all a rec k'(1) donated_trans [OF dn k'(2)] by auto
      qed
    qed
  qed
qed

subsection \<open>Waking sleepers\<close>

lemma fold_remove1_filter:
  "distinct xs \<Longrightarrow> fold remove1 ys xs = filter (\<lambda>t. t \<notin> set ys) xs"
  by (induction ys arbitrary: xs) (auto simp: distinct_remove1_removeAll removeAll_filter_not_eq intro!: filter_cong)

lemma wake_sleepers_effect:
  assumes "k_intr k = INTR_OFF" "distinct ts" "\<forall>t\<in>set ts. is_thread k t \<and> t_status (k_threads k t) = THREAD_BLOCKED"
  shows "\<exists>k'. wake_sleepers now ts k = Some k' \<and>
    ready_list k' = ready_list k @ filter (\<lambda>t. t_awake_tick (k_threads k t) \<le> now) ts \<and>
    sleep_list k' = fold remove1 (filter (\<lambda>t. t_awake_tick (k_threads k t) \<le> now) ts) (sleep_list k) \<and>
    k_ticks k' = k_ticks k \<and> thread_ticks k' = thread_ticks k \<and> k_in_external_intr k' = k_in_external_intr k \<and>
    k_yield_on_return k' = k_yield_on_return k"
  using assms
proof (induction ts arbitrary: k)
  case (Cons t ts)
  let ?a = "\<lambda>t. t_awake_tick (k_threads k t) \<le> now"
  show ?case
  proof (cases "?a t")
    case True
    let ?k1 = "upd_thread t (\<lambda>x. x\<lparr>t_awake_tick := 0\<rparr>) k"
    let ?k2 = "?k1\<lparr>sleep_list := remove1 t (sleep_list ?k1)\<rparr>"
    let ?k3 = "(upd_thread t (\<lambda>x. x\<lparr>t_status := THREAD_READY\<rparr>) (?k2\<lparr>ready_list := ready_list ?k2 @ [t]\<rparr>))\<lparr>k_intr := INTR_OFF\<rparr>"
    have u: "thread_unblock t ?k2 = Some ?k3"
      using Cons.prems by (simp add: thread_unblock_def Let_def intr_set_level_def is_thread_def intr_get_level_def upd_thread_def)
    have f: "filter (\<lambda>u. t_awake_tick (k_threads ?k3 u) \<le> now) ts = filter ?a ts"
      using Cons.prems(2) by (intro filter_cong) auto
    have "\<forall>u\<in>set ts. is_thread ?k3 u \<and> t_status (k_threads ?k3 u) = THREAD_BLOCKED"
      using Cons.prems(2,3) by (auto simp: is_thread_def)
    from Cons.IH [OF _ _ this] Cons.prems(2) True u show ?thesis unfolding f by (auto simp: Let_def)
  qed (use Cons in auto)
qed simp

lemma timer_ticks_off: "k_intr k = INTR_OFF \<Longrightarrow> timer_ticks k = Some (k_ticks k, k)"
  by (simp add: timer_ticks_def Let_def intr_set_level_def)

text \<open>
  C12: From every reachable state the timer interrupt handler returns, makes exactly the sleepers
  whose tick has come ready, in order, and asks for a yield exactly when the time slice is over.
\<close>

theorem timer_tick_wakes:
  assumes b: "boot page = Some k0" and r: "reachable k0 k"
    and n: "now = wrap64 (k_ticks k + 1)"
    and k2: "k2 = push_frame IntrReturn (k\<lparr>k_intr := INTR_OFF, k_in_external_intr := True, k_yield_on_return := False\<rparr>)"
  shows "\<exists>k'. timer_interrupt k2 = Some k' \<and> k_ticks k' = now \<and>
    sleep_list k' = filter (\<lambda>t. now < t_awake_tick (k_threads k t)) (sleep_list k) \<and>
    ready_list k' = ready_list k @ filter (\<lambda>t. t_awake_tick (k_threads k t) \<le> now) (sleep_list k) \<and>
    (k_yield_on_return k' \<longleftrightarrow> TIME_SLICE \<le> thread_ticks k + 1)"
proof -
  have s: "sched_inv k" using reachable_inv [OF r boot_inv [OF b]] .
  then have q: "queues_ok k" and c: "thread_current k = Some (k_cur k)" by (auto simp: sched_inv_def intro: thread_current_eq)
  let ?k3 = "tick_statistics (k_cur k) (k2\<lparr>k_ticks := now\<rparr>)"
  have t: "k_threads ?k3 = k_threads k" "sleep_list ?k3 = sleep_list k" "k_intr ?k3 = INTR_OFF" "ready_list ?k3 = ready_list k"
    "k_ticks ?k3 = now" "thread_ticks ?k3 = thread_ticks k" "k_in_external_intr ?k3" "\<not> k_yield_on_return ?k3"
    by (simp_all add: tick_statistics_def k2)
  have sl: "distinct (sleep_list k)" "\<forall>t\<in>set (sleep_list k). is_thread k t \<and> t_status (k_threads k t) = THREAD_BLOCKED"
    using q by (simp_all add: queues_ok_def blocked_ok_def view_fold)
  let ?ws = "filter (\<lambda>t. t_awake_tick (k_threads k t) \<le> now) (sleep_list k)"
  obtain k4 where k4: "wake_sleepers now (sleep_list k) ?k3 = Some k4" "ready_list k4 = ready_list k @ ?ws"
    "sleep_list k4 = fold remove1 ?ws (sleep_list k)" "k_ticks k4 = now" "thread_ticks k4 = thread_ticks k" "k_in_external_intr k4"
    "\<not> k_yield_on_return k4"
    using wake_sleepers_effect [of ?k3 "sleep_list k" now] sl t by (auto simp: is_thread_def)
  have f: "fold remove1 ?ws (sleep_list k) = filter (\<lambda>t. now < t_awake_tick (k_threads k t)) (sleep_list k)"
    using sl(1) by (auto simp: fold_remove1_filter intro!: filter_cong)
  have "timer_interrupt k2 = (let k5 = k4\<lparr>thread_ticks := thread_ticks k4 + 1\<rparr>
      in if TIME_SLICE \<le> thread_ticks k5 then intr_yield_on_return k5 else Some k5)"
    using c k4(1) t timer_ticks_off [of ?k3] n
    by (simp add: timer_interrupt_def thread_tick_def k2 intr_get_level_def Let_def thread_current_def running_thread_def is_thread_def
        split: if_splits)
  then show ?thesis using k4 f by (auto simp: Let_def intr_yield_on_return_def intr_context_def split: if_splits)
qed

subsection \<open>Reachable states\<close>

text \<open>
  C2: In every reachable state exactly the current thread is running, ready and sleeping threads and
  semaphore waiters are distinct valid threads in the matching status, and no thread waits in two
  places.
\<close>

theorem scheduler_queues:
  assumes b: "boot page = Some k0" and r: "reachable k0 k"
  shows "is_thread k (k_cur k) \<and> t_status (k_threads k (k_cur k)) = THREAD_RUNNING \<and>
    (\<forall>t. is_thread k t \<longrightarrow> t_status (k_threads k t) = THREAD_RUNNING \<longrightarrow> t = k_cur k) \<and>
    distinct (ready_list k) \<and> distinct (sleep_list k) \<and>
    (\<forall>t\<in>set (ready_list k). is_thread k t \<and> t_status (k_threads k t) = THREAD_READY \<and> t \<noteq> idle_thread k) \<and>
    (\<forall>t\<in>set (sleep_list k). is_thread k t \<and> t_status (k_threads k t) = THREAD_BLOCKED) \<and>
    (\<forall>s. distinct (sema_waiters (k_semas k s)) \<and> (\<forall>t\<in>set (sema_waiters (k_semas k s)).
       is_thread k t \<and> t_status (k_threads k t) = THREAD_BLOCKED \<and> t \<notin> set (sleep_list k) \<and>
       (\<forall>s'. t \<in> set (sema_waiters (k_semas k s')) \<longrightarrow> s' = s)))"
proof -
  have "sched_inv k" using reachable_inv [OF r boot_inv [OF b]] .
  then have q: "queues_ok k" and rn: "running_ok k" by (simp_all add: sched_inv_def)
  have w: "downing s (hd (k_frames k t))" if "t \<in> set (wt k s)" for s t
    using q that by (auto simp: queues_ok_def blocked_ok_def)
  have one: "s' = s" if "t \<in> set (wt k s)" "t \<in> set (wt k s')" for s s' t
    using w [OF that(1)] w [OF that(2)] by (cases "hd (k_frames k t)") auto
  have no: "t \<notin> set (sleep_list k)" if "t \<in> set (wt k s)" for s t
    using w [OF that] q by (cases "hd (k_frames k t)") (auto simp: queues_ok_def blocked_ok_def)
  show ?thesis
    using rn q one no by (simp add: running_ok_def queues_ok_def ready_ok_def blocked_ok_def view_fold)
qed

text \<open>
  C1: In every reachable state the value of a lock semaphore, its holder and the threads that took
  it but are not yet the holder count at most one; whoever becomes the holder finds the lock without
  one.
\<close>

theorem lock_mutual_exclusion:
  assumes b: "boot page = Some k0" and r: "reachable k0 k"
  shows "uint (sema_value (k_semas k (LockSema l))) + (if k_holder k l \<noteq> NULL then 1 else 0) +
      (\<Sum>t\<in>UNIV. acquiring l (k_frames k t)) \<le> 1 \<and> (\<forall>t. 0 \<le> acquiring l (k_frames k t)) \<and>
    (\<forall>f fs. k_frames k (k_cur k) = f # fs \<longrightarrow> f = LockTryTail l \<or> (\<exists>t lp old. f = LockAcquireTail l t lp old) \<longrightarrow>
       k_holder k l = NULL \<and> sema_value (k_semas k (LockSema l)) = 0)"
proof -
  have s: "sched_inv k" and i: "lock_inv k"
    using reachable_inv [OF r boot_inv [OF b]] reachable_lock_inv [OF r boot_inv [OF b] boot_lock_inv [OF b]] .
  have "k_holder k l = NULL \<and> sema_value (k_semas k (LockSema l)) = 0"
    if "k_frames k (k_cur k) = f # fs" "f = LockTryTail l \<or> (\<exists>t lp old. f = LockAcquireTail l t lp old)" for f fs
    using take_lock_inv(2,3) [OF i that cur_not_NULL [OF s]] by simp
  then show ?thesis using lock_invD(2) [OF i, of l] acquiring_nonneg [OF lock_invD(1) [OF i]] by (auto simp: lock_units_def)
qed

subsection \<open>Releasing\<close>

lemma pick_ge:
  fixes conv :: "'a \<Rightarrow> int"
  assumes "u \<in> set (x # xs)"
  shows "conv u \<le> conv (pick (\<lambda>a b. conv a < conv b) x xs)"
proof -
  let ?m = "pick (\<lambda>a b. conv a < conv b) x xs"
  obtain ys zs where m: "x # xs = ys @ ?m # zs" "\<forall>u\<in>set ys. conv u < conv ?m" "\<forall>u\<in>set zs. conv u \<le> conv ?m"
    by (rule pick_first_max)
  have "u \<in> set ys \<or> u = ?m \<or> u \<in> set zs" using assms m(1) by auto
  then show ?thesis using m(2,3) by auto
qed

lemma pick_Max:
  fixes conv :: "'a \<Rightarrow> int"
  shows "conv (pick (\<lambda>a b. conv a < conv b) x xs) = Max (conv ` set (x # xs))"
proof (rule Max_eqI [symmetric])
  show "y \<le> conv (pick (\<lambda>a b. conv a < conv b) x xs)" if "y \<in> conv ` set (x # xs)" for y
    using that pick_ge [of _ x xs conv] by (elim imageE) simp
  show "conv (pick (\<lambda>a b. conv a < conv b) x xs) \<in> conv ` set (x # xs)" using pick_in by (rule imageI)
qed simp

lemma list_max_by_ge: "u \<in> set xs \<Longrightarrow> conv u \<le> conv (list_max_by conv xs)"
  using pick_ge [of u "hd xs" "tl xs" conv]
  by (cases xs) (simp_all add: list_max_by_def default_list_less_func_def [abs_def])

lemma effective_priority_Max:
  "effective_priority k t = Max (insert (t_original_priority (k_threads k t))
     ((\<lambda>i. lp_priority (lock_priority_page k ! i)) ` set (t_lock_priority_list (k_threads k t))))"
proof (cases "t_lock_priority_list (k_threads k t)")
  case (Cons x xs)
  then show ?thesis using pick_Max [of "lock_priority_convert_func k" x xs]
    by (simp add: effective_priority_def Let_def Max_insert max_def lock_priority_convert_func_def)
qed (simp add: effective_priority_def)

lemma schedule_prio: "schedule k = Some k' \<Longrightarrow> \<forall>t. prio k' t = prio k t"
  by (auto simp: schedule_def next_thread_to_run_def thread_schedule_tail_def process_activate_def running_thread_def
      thread_current_def Let_def free_thread_page_def split: if_splits bind_splits)

lemma thread_yield_prio: "thread_yield k = Some k' \<Longrightarrow> \<forall>t. prio k' t = prio k t"
  by (auto simp: thread_yield_def Let_def split: if_splits bind_splits dest!: schedule_prio)

text \<open>What donation works on; a yield and a wake-up leave it alone.\<close>

definition donation_view :: "kernel \<Rightarrow> (ptr \<Rightarrow> nat list \<times> int \<times> int) \<times> (ptr \<Rightarrow> ptr) \<times> lock_priority list \<times> bool" where
  "donation_view k = (\<lambda>t. (t_lock_priority_list (k_threads k t), t_original_priority (k_threads k t), prio k t), k_holder k,
     lock_priority_page k, priority_donation_enabled k)"

lemma donation_viewD:
  assumes "donation_view k = donation_view k'"
  shows "t_lock_priority_list (k_threads k t) = t_lock_priority_list (k_threads k' t)"
    "t_original_priority (k_threads k t) = t_original_priority (k_threads k' t)" "prio k t = prio k' t"
    "k_holder k = k_holder k'" "lock_priority_page k = lock_priority_page k'"
    "priority_donation_enabled k = priority_donation_enabled k'"
  using assms by (auto simp: donation_view_def fun_eq_iff)

lemma schedule_keeps:
  assumes "schedule k = Some k'" "t_status (k_threads k (k_cur k)) \<noteq> THREAD_DYING"
  shows "donation_view k' = donation_view k" "k_frames k' = k_frames k"
  using assms
  by (auto simp: donation_view_def schedule_def next_thread_to_run_def thread_schedule_tail_def process_activate_def running_thread_def
      thread_current_def Let_def free_thread_page_def split: if_splits bind_splits)

lemma thread_yield_keeps:
  assumes "thread_yield k = Some k'"
  shows "donation_view k' = donation_view k" "k_frames k' = (k_frames k)(k_cur k := SetLevel (k_intr k) # k_frames k (k_cur k))"
proof -
  define k1 where "k1 = push_frame (SetLevel (k_intr k)) (upd_thread (k_cur k) (\<lambda>x. x\<lparr>t_status := THREAD_READY\<rparr>)
    (if k_cur k \<noteq> idle_thread k then k\<lparr>k_intr := INTR_OFF, ready_list := ready_list k @ [k_cur k]\<rparr> else k\<lparr>k_intr := INTR_OFF\<rparr>))"
  have s: "schedule k1 = Some k'"
    using assms by (auto simp: k1_def thread_yield_def Let_def thread_current_def running_thread_def intr_get_level_def split: if_splits bind_splits)
  have d: "t_status (k_threads k1 (k_cur k1)) \<noteq> THREAD_DYING" by (simp add: k1_def)
  have v: "donation_view k1 = donation_view k" by (auto simp: donation_view_def k1_def)
  show "donation_view k' = donation_view k" using schedule_keeps(1) [OF s d] v by simp
  show "k_frames k' = (k_frames k)(k_cur k := SetLevel (k_intr k) # k_frames k (k_cur k))"
    using schedule_keeps(2) [OF s d] by (simp add: k1_def)
qed

lemma thread_unblock_keeps:
  assumes "thread_unblock t k = Some k'"
  shows "donation_view k' = donation_view k" "k_frames k' = k_frames k" "k_cur k' = k_cur k" "k_intr k' = k_intr k"
  using thread_unblock_Some [OF assms] by (auto simp: donation_view_def)

lemma thread_get_priority_Some: "thread_get_priority k = Some p \<Longrightarrow> p = prio k (k_cur k)"
  by (auto simp: thread_get_priority_def thread_current_def running_thread_def split: if_splits bind_splits)

lemma list_max_by_in: "xs \<noteq> [] \<Longrightarrow> list_max_by conv xs \<in> set xs"
  by (erule list_max_by_first [of xs conv]) (metis in_set_conv_decomp)

text \<open>\<open>sema_up\<close> switches threads only if the waiter it wakes has a higher priority than the caller.\<close>

lemma sema_up_keeps:
  assumes u: "sema_up s k = Some k'"
  shows "donation_view k' = donation_view k"
    "k_frames k' = k_frames k \<and> k_cur k' = k_cur k \<or>
     (\<exists>t\<in>set (sema_waiters (k_semas k s)). prio k (k_cur k) < prio k t) \<and>
     (\<exists>lv. k_frames k' = (k_frames k)(k_cur k := SetLevel lv # SetLevel (k_intr k) # k_frames k (k_cur k)))"
proof -
  let ?k2 = "upd_sema s (\<lambda>x. x\<lparr>sema_value := sema_value x + 1\<rparr>) (k\<lparr>k_intr := INTR_OFF\<rparr>)"
  let ?ws = "sema_waiters (k_semas k s)"
  have v2: "donation_view ?k2 = donation_view k" by (simp add: donation_view_def)
  have "donation_view k' = donation_view k \<and> (k_frames k' = k_frames k \<and> k_cur k' = k_cur k \<or>
     (\<exists>t\<in>set ?ws. prio k (k_cur k) < prio k t) \<and>
     (\<exists>lv. k_frames k' = (k_frames k)(k_cur k := SetLevel lv # SetLevel (k_intr k) # k_frames k (k_cur k))))"
  proof (cases "?ws = []")
    case True
    then have "intr_set_level (k_intr k) ?k2 = Some k'" using u by (simp add: sema_up_def split: if_splits)
    from intr_set_level_Some [OF this] show ?thesis by (simp add: donation_view_def)
  next
    case False
    let ?t = "list_max_by (thread_priority_convert_func ?k2) ?ws"
    let ?k3 = "upd_sema s (\<lambda>x. x\<lparr>sema_waiters := remove1 ?t (sema_waiters x)\<rparr>) ?k2"
    have t: "?t \<in> set ?ws" using False by (rule list_max_by_in)
    obtain k4 where k4: "thread_unblock ?t ?k3 = Some k4"
      and r: "prio k4 (k_cur k4) < prio k4 ?t \<and> thread_yield (push_frame (SetLevel (k_intr k)) k4) = Some k' \<or>
        intr_set_level (k_intr k) k4 = Some k'"
      using u False by (auto simp: sema_up_def Let_def split: if_splits bind_splits dest: thread_get_priority_Some)
    note n = thread_unblock_keeps [OF k4]
    have v: "donation_view k4 = donation_view k" using n(1) v2 by (simp add: donation_view_def)
    from r show ?thesis
    proof
      assume a: "prio k4 (k_cur k4) < prio k4 ?t \<and> thread_yield (push_frame (SetLevel (k_intr k)) k4) = Some k'"
      note y = thread_yield_keeps [OF conjunct2 [OF a]]
      have "donation_view k' = donation_view k" using y(1) v by (simp add: donation_view_def)
      moreover have "prio k (k_cur k) < prio k ?t" using a n(3) donation_viewD(3) [OF v] by simp
      ultimately show ?thesis using t y(2) n(2,3) by auto
    next
      assume "intr_set_level (k_intr k) k4 = Some k'"
      from intr_set_level_Some [OF this] show ?thesis using v n(2,3) by (simp add: donation_view_def)
    qed
  qed
  then show "donation_view k' = donation_view k" "k_frames k' = k_frames k \<and> k_cur k' = k_cur k \<or>
     (\<exists>t\<in>set ?ws. prio k (k_cur k) < prio k t) \<and>
     (\<exists>lv. k_frames k' = (k_frames k)(k_cur k := SetLevel lv # SetLevel (k_intr k) # k_frames k (k_cur k)))" by blast+
qed

text \<open>The code of \<open>lock_release\<close> after \<open>sema_up\<close>.\<close>

lemma lock_release_tail_prio:
  assumes "lock_release_tail t old k = Some k'" "priority_donation_enabled k"
  shows "prio k' t = Max (insert (t_original_priority (k_threads k t))
     ((\<lambda>i. lp_priority (lock_priority_page k ! i)) ` set (t_lock_priority_list (k_threads k t)))) \<and>
     (\<forall>u. u \<noteq> t \<longrightarrow> prio k' u = prio k u)"
  unfolding effective_priority_Max [symmetric]
  using assms
  by (auto simp: lock_release_tail_def Let_def split: if_splits bind_splits dest!: intr_set_level_Some thread_yield_prio)

text \<open>
  C21: With priority donation enabled, lock_release by the holder clears the holder, removes and
  zeroes the record of the lock, changes no priority before the waiter is woken, and switches
  threads there only if a waiter has a higher priority than the caller; otherwise its continuation
  runs next and gives the caller the maximum of its original priority and the priorities of its
  remaining lock records. After a switch the continuation, whenever it runs with donation still
  enabled, sets the priority to this maximum over the records of that moment. It changes no other
  priority.
\<close>

theorem release_restores_priority:
  assumes r: "lock_release l k = Some k1" and d: "priority_donation_enabled k" and t: "t = k_cur k"
    and lps: "lps = t_lock_priority_list (k_threads k t)" and fs: "fs = LockReleaseTail t (k_intr k) # k_frames k t"
  shows "k_holder k l = t \<and> k_holder k1 = (k_holder k)(l := NULL) \<and>
    (\<exists>i. find_lock_priority k lps l = Some i \<and> t_lock_priority_list (k_threads k1 t) = remove1 i lps \<and>
       lock_priority_page k1 = (lock_priority_page k)[i := zero_lp] \<and>
       (\<forall>k2. k_frames k1 (k_cur k1) = fs \<longrightarrow> resume k1 = Some k2 \<longrightarrow>
          prio k2 t = Max (insert (t_original_priority (k_threads k t))
            ((\<lambda>j. lp_priority ((lock_priority_page k)[i := zero_lp] ! j)) ` set (remove1 i lps))))) \<and>
    (\<forall>u. prio k1 u = prio k u) \<and>
    (k_cur k1 = t \<and> k_frames k1 t = fs \<or>
     (\<exists>w\<in>set (sema_waiters (k_semas k (LockSema l))). prio k t < prio k w) \<and> (\<exists>a b. k_frames k1 t = SetLevel a # SetLevel b # fs)) \<and>
    (\<forall>k2 k3. k_frames k2 (k_cur k2) = fs \<longrightarrow> priority_donation_enabled k2 \<longrightarrow> resume k2 = Some k3 \<longrightarrow>
       prio k3 t = Max (insert (t_original_priority (k_threads k2 t))
         ((\<lambda>j. lp_priority (lock_priority_page k2 ! j)) ` set (t_lock_priority_list (k_threads k2 t)))) \<and>
       (\<forall>u. u \<noteq> t \<longrightarrow> prio k3 u = prio k2 u))"
proof -
  obtain k0 where k0: "k_holder k l = t" "drop_lock_priority l t (k\<lparr>k_intr := INTR_OFF, k_holder := (k_holder k)(l := NULL)\<rparr>) = Some k0"
    "sema_up (LockSema l) (push_frame (LockReleaseTail t (k_intr k)) k0) = Some k1"
    using r by (auto simp: t lock_release_def lock_held_by_current_thread_def thread_current_def running_thread_def Let_def split: if_splits bind_splits)
  obtain i where i: "find_lock_priority k lps l = Some i"
    and e: "k0 = upd_lp i (\<lambda>_. zero_lp) (upd_thread t (\<lambda>x. x\<lparr>t_lock_priority_list := remove1 i (t_lock_priority_list x)\<rparr>)
      (k\<lparr>k_intr := INTR_OFF, k_holder := (k_holder k)(l := NULL)\<rparr>))"
  proof -
    have "find_lock_priority (k\<lparr>k_intr := INTR_OFF, k_holder := (k_holder k)(l := NULL)\<rparr>) lps l = find_lock_priority k lps l"
      by (rule find_lock_priority_cong) simp
    with k0(2) d show thesis using that by (auto simp: drop_lock_priority_def Let_def lps split: bind_splits)
  qed
  note u = sema_up_keeps [OF k0(3)]
  note v = donation_viewD [OF u(1)]
  have p0: "prio (push_frame (LockReleaseTail t (k_intr k)) k0) w = prio k w" for w by (simp add: e)
  have f: "k_cur k1 = t \<and> k_frames k1 t = fs \<or>
     (\<exists>w\<in>set (sema_waiters (k_semas k (LockSema l))). prio k t < prio k w) \<and> (\<exists>a b. k_frames k1 t = SetLevel a # SetLevel b # fs)"
    using u(2) [unfolded p0] by (auto simp: e t fs)
  have tail: "prio k3 t = Max (insert (t_original_priority (k_threads k2 t))
         ((\<lambda>j. lp_priority (lock_priority_page k2 ! j)) ` set (t_lock_priority_list (k_threads k2 t)))) \<and>
       (\<forall>u. u \<noteq> t \<longrightarrow> prio k3 u = prio k2 u)"
    if "k_frames k2 (k_cur k2) = fs" "priority_donation_enabled k2" "resume k2 = Some k3" for k2 k3
    using lock_release_tail_prio [of t "k_intr k" "pop_frame k2" k3] that by (simp add: resume_def fs)
  have l1: "t_lock_priority_list (k_threads k1 t) = remove1 i lps" "lock_priority_page k1 = (lock_priority_page k)[i := zero_lp]"
    "priority_donation_enabled k1" "t_original_priority (k_threads k1 t) = t_original_priority (k_threads k t)"
    "k_holder k1 = (k_holder k)(l := NULL)" "\<forall>u. prio k1 u = prio k u"
    using v d by (simp_all add: e lps)
  have fin: "prio k2 t = Max (insert (t_original_priority (k_threads k t))
            ((\<lambda>j. lp_priority ((lock_priority_page k)[i := zero_lp] ! j)) ` set (remove1 i lps)))"
    if "k_frames k1 (k_cur k1) = fs" "resume k1 = Some k2" for k2
    using tail [OF that(1) l1(3) that(2)] unfolding l1(1,2,4) by simp
  show ?thesis using k0(1) l1(1,2,5,6) i fin f tail by blast
qed

subsection \<open>Panics\<close>

lemma first_free_None: "first_free_lp xs n = None \<longleftrightarrow> list_all lp_in_use xs"
  by (induction xs arbitrary: n) auto

text \<open>
  \<open>lock_acquire\<close> panics when every lock record of the page is in use.
\<close>

theorem lock_acquire_out_of_records:
  assumes "priority_donation_enabled k" "list_all lp_in_use (lock_priority_page k)"
  shows "lock_acquire l k = None"
  using assms first_free_None [of "lock_priority_page k" 0]
  by (auto simp: lock_acquire_def lock_acquire_donate_def get_new_lock_priority_def Let_def split: bind_splits option.splits)

text \<open>
  C36: sema_up in an interrupt handler panics if donation is enabled and a waiter has a higher
  priority than the interrupted thread.
\<close>

theorem sema_up_in_interrupt_panics:
  assumes c: "intr_context k" and p: "priority_donation_enabled k" and w: "w \<in> set (sema_waiters (k_semas k s))"
    and t: "thread_current k = Some t" "t_priority (k_threads k t) < t_priority (k_threads k w)"
  shows "sema_up s k = None"
proof -
  let ?ws = "sema_waiters (k_semas k s)"
  let ?k2 = "upd_sema s (\<lambda>x. x\<lparr>sema_value := sema_value x + 1\<rparr>) (k\<lparr>k_intr := INTR_OFF\<rparr>)"
  let ?m = "list_max_by (thread_priority_convert_func ?k2) ?ws"
  let ?k3 = "upd_sema s (\<lambda>x. x\<lparr>sema_waiters := remove1 ?m (sema_waiters x)\<rparr>) ?k2"
  have ne: "?ws \<noteq> []" using w by auto
  have le: "prio k t < prio k ?m" using list_max_by_ge [OF w, of "thread_priority_convert_func ?k2"] t(2)
    by (simp add: thread_priority_convert_func_def)
  show ?thesis
  proof (cases "thread_unblock ?m ?k3")
    case (Some k4)
    note u = thread_unblock_Some [OF Some]
    have cur: "k_cur k = t" using t(1) by (simp add: thread_current_def running_thread_def split: bind_splits if_splits)
    have pr: "prio k4 v = prio k v" "priority_donation_enabled k4" "k_in_external_intr k4" "k_cur k4 = t" for v
      using u p c cur by (simp_all add: intr_context_def)
    have y: "thread_yield (push_frame (SetLevel (k_intr k)) k4) = None"
      using pr(3) by (simp add: thread_yield_def intr_context_def split: bind_splits)
    have "thread_get_priority k4 = None \<or> thread_get_priority k4 = Some (prio k t)"
      using pr(1,4) by (simp add: thread_get_priority_def thread_current_def running_thread_def)
    then show ?thesis using ne Some y le pr(1,2) by (elim disjE) (simp_all add: sema_up_def Let_def)
  qed (use ne in \<open>simp add: sema_up_def Let_def\<close>)
qed

text \<open>
  C35: A lock taken by lock_try_acquire while donation is enabled has no lock record, so its holder
  panics in lock_release.
\<close>

theorem release_after_try_acquire_panics:
  assumes "lock_try_acquire l k = Some (True, k1)" "resume k1 = Some k2" "priority_donation_enabled k"
    "find_lock_priority k (t_lock_priority_list (k_threads k (k_cur k))) l = None"
  shows "k_holder k2 l = k_cur k \<and> lock_release l k2 = None"
proof -
  have k1: "k1 = push_frame (LockTryTail l) ((upd_sema (LockSema l) (\<lambda>x. x\<lparr>sema_value := sema_value x - 1\<rparr>)
      (k\<lparr>k_intr := INTR_OFF\<rparr>))\<lparr>k_intr := k_intr k\<rparr>)"
    using assms(1) by (auto simp: lock_try_acquire_def sema_try_down_def Let_def split: if_splits bind_splits dest!: intr_set_level_Some)
  then have k2: "k2 = (pop_frame k1)\<lparr>k_holder := (k_holder k)(l := k_cur k)\<rparr>"
    using assms(2) by (auto simp: resume_def lock_try_tail_def thread_current_def running_thread_def split: bind_splits if_splits)
  have "find_lock_priority (k2\<lparr>k_intr := i, k_holder := h\<rparr>) is l = find_lock_priority k is l" for i h "is"
    by (rule find_lock_priority_cong) (simp add: k2 k1)
  with assms(3,4) show ?thesis
    by (auto simp: k2 k1 lock_release_def drop_lock_priority_def Let_def thread_current_def running_thread_def split: bind_splits if_splits)
qed

subsection \<open>Runs and sample states\<close>

datatype action = Resume | Call call | Tick

fun simple_call :: "kernel \<Rightarrow> call \<Rightarrow> bool" where
  "simple_call k (SemaInit s v) = False"
| "simple_call k (LockInit l) = False"
| "simple_call k (ThreadCreate page nm pri f) = (page \<noteq> NULL \<and> \<not> is_thread k page \<and> (case f of CodeFunc a b \<Rightarrow> True | _ \<Rightarrow> False))"
| "simple_call k (ThreadStart page) = (\<not> is_thread k page \<and> sema_waiters (k_semas k idle_started) = [])"
| "simple_call k _ = True"

lemma simple_call_ok: "simple_call k c \<Longrightarrow> call_ok k c"
  by (cases "(k, c)" rule: simple_call.cases) (auto split: thread_func.splits)

fun act :: "action \<Rightarrow> kernel \<Rightarrow> kernel option" where
  "act Resume k = resume k"
| "act (Call c) k = (if k_frames k (k_cur k) = [] \<and> simple_call k c then do_call c k else None)"
| "act Tick k = (if k_intr k = INTR_ON then external_interrupt timer_interrupt k else None)"

fun exec :: "action list \<Rightarrow> kernel \<Rightarrow> kernel option" where
  "exec [] k = Some k"
| "exec (a # as) k = (case act a k of None \<Rightarrow> None | Some k' \<Rightarrow> exec as k')"

lemma act_step: "act a k = Some k' \<Longrightarrow> step k k'"
  by (cases a) (auto intro: step.intros simple_call_ok split: if_splits)

lemma exec_reachable: "exec as k = Some k' \<Longrightarrow> reachable k0 k \<Longrightarrow> reachable k0 k'"
  by (induction as arbitrary: k) (auto split: option.splits dest!: act_step intro: reach_step)



lemma exec_boot:
  "case Option.bind (boot page) (exec as) of None \<Rightarrow> False | Some k \<Rightarrow> P k \<Longrightarrow>
    \<exists>k0 k. boot page = Some k0 \<and> reachable k0 k \<and> P k"
  by (cases "boot page") (auto split: option.splits dest: exec_reachable [OF _ reach_init])

text \<open>The first thread creates a second one; the first thread is about to own the lock of thread ids.\<close>

lemma run_create:
  "case Option.bind (boot 0xc000e000) (exec [Resume, Resume, Resume, Resume,
     Call (ThreadCreate 0xc000f000 ''a'' 31 (CodeFunc 1 2)), Resume, Resume, Resume, Resume]) of None \<Rightarrow> False
   | Some k \<Rightarrow> ready_list k = [0xc000f000] \<and> k_ticks k = 0"
  by code_simp

lemma run_acquire:
  "case Option.bind (boot 0xc000e000) (exec [Resume, Resume, Resume, Resume, Call (LockAcquire tid_lock)]) of None \<Rightarrow> False
   | Some k \<Rightarrow> k_frames k (k_cur k) = [LockAcquireTail tid_lock 0xc000e000 None INTR_OFF]"
  by code_simp

definition sample_thread :: "int \<Rightarrow> thread_status \<Rightarrow> nat list \<Rightarrow> thread" where
  "sample_thread pri s lps = zero_thread\<lparr>t_status := s, t_priority := pri, t_original_priority := pri, t_magic := THREAD_MAGIC,
     t_lock_priority_list := lps\<rparr>"

text \<open>
  A running thread and two others: \<open>0x2000\<close> holds the lock \<open>0x40\<close> and waits for the lock
  \<open>0x50\<close> that \<open>0x3000\<close> holds.
\<close>

definition sample_kernel :: kernel where
  "sample_kernel = zero_kernel\<lparr>k_threads := (\<lambda>_. zero_thread)(0x1000 := sample_thread 50 THREAD_RUNNING [],
       0x2000 := sample_thread 31 THREAD_BLOCKED [1, 0], 0x3000 := sample_thread 10 THREAD_READY [2]),
     k_cur := 0x1000, initial_thread := 0x1000, k_holder := (\<lambda>_. NULL)(0x40 := 0x2000, 0x50 := 0x3000),
     k_semas := (\<lambda>_. \<lparr>sema_value = 0, sema_waiters = []\<rparr>)(LockSema 0x50 := \<lparr>sema_value = 0, sema_waiters = [0x2000]\<rparr>),
     lock_priority_page := [\<lparr>lp_in_use = True, lp_waiting = False, lp_lock = 0x40, lp_priority = 31\<rparr>,
       \<lparr>lp_in_use = True, lp_waiting = True, lp_lock = 0x50, lp_priority = 31\<rparr>,
       \<lparr>lp_in_use = True, lp_waiting = False, lp_lock = 0x50, lp_priority = 10\<rparr>],
     priority_donation_enabled := True, ready_list := [0x3000]\<rparr>"

lemmas sample_defs = sample_kernel_def sample_thread_def zero_kernel_def zero_thread_def

theorem scheduler_queues_witness:
  "\<exists>k0 k. boot 0xc000e000 = Some k0 \<and> reachable k0 k \<and> ready_list k = [0xc000f000] \<and>
     is_thread k 0xc000f000 \<and> t_status (k_threads k 0xc000f000) = THREAD_READY \<and> k_cur k \<noteq> 0xc000f000"
proof -
  obtain k0 k where k: "boot 0xc000e000 = Some k0" "reachable k0 k" "ready_list k = [0xc000f000]" using exec_boot [OF run_create] by blast
  note q = scheduler_queues [OF k(1,2)]
  have "\<forall>t\<in>set (ready_list k). is_thread k t \<and> t_status (k_threads k t) = THREAD_READY \<and> t \<noteq> idle_thread k" using q by (elim conjE)
  moreover have "t_status (k_threads k (k_cur k)) = THREAD_RUNNING" using q by (elim conjE)
  ultimately have "is_thread k 0xc000f000 \<and> t_status (k_threads k 0xc000f000) = THREAD_READY \<and> k_cur k \<noteq> 0xc000f000" using k(3) by auto
  with k show ?thesis by blast
qed

theorem lock_mutual_exclusion_witness:
  "\<exists>k0 k. boot 0xc000e000 = Some k0 \<and> reachable k0 k \<and> k_frames k (k_cur k) = [LockAcquireTail tid_lock 0xc000e000 None INTR_OFF] \<and>
     k_holder k tid_lock = NULL \<and> sema_value (k_semas k (LockSema tid_lock)) = 0"
proof -
  obtain k0 k where k: "boot 0xc000e000 = Some k0" "reachable k0 k"
    "k_frames k (k_cur k) = [LockAcquireTail tid_lock 0xc000e000 None INTR_OFF]" using exec_boot [OF run_acquire] by blast
  with lock_mutual_exclusion [OF k(1,2), of tid_lock] show ?thesis by blast
qed

theorem timer_tick_wakes_witness:
  "\<exists>k0 k k'. boot 0xc000e000 = Some k0 \<and> reachable k0 k \<and> timer_interrupt (push_frame IntrReturn
     (k\<lparr>k_intr := INTR_OFF, k_in_external_intr := True, k_yield_on_return := False\<rparr>)) = Some k' \<and> k_ticks k' = 1"
proof -
  obtain k0 k where k: "boot 0xc000e000 = Some k0" "reachable k0 k" "k_ticks k = 0" using exec_boot [OF run_create] by blast
  then show ?thesis using timer_tick_wakes [OF k(1,2) refl refl] by (auto simp: wrap64_def signed_take_bit_int_eq_self)
qed

theorem yield_runs_highest_priority_witness:
  "\<exists>k' xs ys. thread_yield sample_kernel = Some k' \<and> [0x3000, 0x1000] = xs @ k_cur k' # ys \<and> ready_list k' = xs @ ys \<and>
    (\<forall>u\<in>set xs. t_priority (k_threads sample_kernel u) < t_priority (k_threads sample_kernel (k_cur k')))"
proof -
  have "thread_yield sample_kernel \<noteq> None" by code_simp
  then obtain k' where k': "thread_yield sample_kernel = Some k'" by blast
  have "[0x3000, 0x1000] = ready_list sample_kernel @ (if k_cur sample_kernel = idle_thread sample_kernel then [] else [k_cur sample_kernel])"
    by (simp add: sample_defs)
  note y = yield_runs_highest_priority [OF k' this]
  then obtain xs ys where "[0x3000, 0x1000] = xs @ k_cur k' # ys" "ready_list k' = xs @ ys"
    "\<forall>u\<in>set xs. t_priority (k_threads sample_kernel u) < t_priority (k_threads sample_kernel (k_cur k'))"
    by blast
  with k' show ?thesis by blast
qed

lemma sample_sel:
  "k_holder sample_kernel 0x40 = 0x2000" "k_holder sample_kernel 0x50 = 0x3000" "k_holder sample_kernel NULL = NULL"
  "prio sample_kernel 0x2000 = 31" "prio sample_kernel 0x3000 = 10" "waits_for sample_kernel 0x2000 m \<longleftrightarrow> m = 0x50" "\<not> waits_for sample_kernel 0x3000 m"
  by (auto simp add: sample_defs waits_for_def)

lemma sample_records: "has_record sample_kernel 0x40" "has_record sample_kernel 0x50"
  by (simp_all add: has_record_def sample_defs)

lemma sample_reaches: "donation_reaches sample_kernel 50 0x40 m \<longleftrightarrow> m = 0x40 \<or> m = 0x50"
proof
  show "m = 0x40 \<or> m = 0x50" if "donation_reaches sample_kernel 50 0x40 m"
    using that by induction (auto simp: sample_sel)
  have "donation_reaches sample_kernel 50 0x40 0x50"
    by (rule reaches_next [OF reaches_refl]) (simp_all add: sample_sel)
  then show "m = 0x40 \<or> m = 0x50 \<Longrightarrow> donation_reaches sample_kernel 50 0x40 m" using reaches_refl by blast
qed

theorem donation_terminates_witness:
  "\<exists>k'. donate_priority_recursively 0x40 50 sample_kernel = Some k' \<and> prio k' 0x2000 = 50 \<and> prio k' 0x3000 = 50 \<and> prio k' 0x1000 = 50"
proof -
  have h: "\<forall>m. donation_reaches sample_kernel 50 0x40 m \<longrightarrow> has_record sample_kernel m"
    by (auto simp: sample_reaches sample_records)
  obtain k' where k': "donate_priority_recursively 0x40 50 sample_kernel = Some k'"
    "\<forall>m. donation_reaches sample_kernel 50 0x40 m \<longrightarrow> prio k' (k_holder sample_kernel m) = max 50 (prio sample_kernel (k_holder sample_kernel m))"
    "\<forall>t. (\<nexists>m. donation_reaches sample_kernel 50 0x40 m \<and> t = k_holder sample_kernel m) \<longrightarrow> prio k' t = prio sample_kernel t"
    using donation_terminates [of "0x40" sample_kernel 50] h by (auto simp: sample_sel PRI_MIN_def PRI_MAX_def)
  have "prio k' 0x2000 = 50" "prio k' 0x3000 = 50"
    using spec [OF k'(2), of "0x40"] spec [OF k'(2), of "0x50"] by (simp_all add: sample_reaches sample_sel)
  moreover have "prio k' 0x1000 = prio sample_kernel 0x1000"
    using spec [OF k'(3), of "0x1000"] by (auto simp: sample_reaches sample_sel)
  ultimately show ?thesis using k'(1) by (simp add: sample_defs)
qed

theorem release_restores_priority_witness:
  "\<exists>k k1 k2. prio k 0x3000 = 31 \<and> lock_release 0x50 k = Some k1 \<and> resume k1 = Some k2 \<and> prio k2 0x3000 = 10"
proof -
  define k where "k = upd_thread 0x3000 (\<lambda>x. x\<lparr>t_priority := 31, t_status := THREAD_RUNNING\<rparr>) (sample_kernel\<lparr>k_cur := 0x3000, ready_list := []\<rparr>)"
  have "case lock_release 0x50 k of Some k1 \<Rightarrow> resume k1 \<noteq> None | None \<Rightarrow> False" unfolding k_def by code_simp
  then obtain k1 k2 where k1: "lock_release 0x50 k = Some k1" "resume k1 = Some k2" by (auto split: option.splits)
  have s: "priority_donation_enabled k" "k_cur k = 0x3000" "t_lock_priority_list (k_threads k 0x3000) = [2]" "k_intr k = INTR_OFF"
    "k_frames k 0x3000 = []" "lp_lock (lock_priority_page k ! 2) = 0x50" "t_original_priority (k_threads k 0x3000) = 10"
    "sema_waiters (k_semas k (LockSema 0x50)) = [0x2000]" "prio k 0x3000 = 31" "prio k 0x2000 = 31"
    by (simp_all add: k_def sample_defs)
  note r = release_restores_priority [OF k1(1) s(1) s(2) [symmetric] refl refl]
  have "prio k2 0x3000 = 10" using r k1(2) by (simp add: s)
  with k1 s(9) show ?thesis by blast
qed

theorem lock_acquire_out_of_records_witness: "lock_acquire 0x60 sample_kernel = None"
  by (rule lock_acquire_out_of_records) (simp_all add: sample_defs)

theorem sema_up_in_interrupt_panics_witness:
  "sema_up (LockSema 0x50) (upd_thread 0x1000 (\<lambda>x. x\<lparr>t_priority := 0\<rparr>) sample_kernel\<lparr>k_in_external_intr := True\<rparr>) = None"
  by (rule sema_up_in_interrupt_panics [of _ "0x2000" _ "0x1000"])
    (simp_all add: sample_defs intr_context_def thread_current_def running_thread_def is_thread_def)

theorem release_after_try_acquire_panics_witness:
  "\<exists>k1 k2. lock_try_acquire 0x60 (upd_sema (LockSema 0x60) (\<lambda>x. x\<lparr>sema_value := 1\<rparr>) sample_kernel) = Some (True, k1) \<and>
     resume k1 = Some k2 \<and> k_holder k2 0x60 = 0x1000 \<and> lock_release 0x60 k2 = None"
proof -
  let ?k = "upd_sema (LockSema 0x60) (\<lambda>x. x\<lparr>sema_value := 1\<rparr>) sample_kernel"
  have "case lock_try_acquire 0x60 ?k of Some (True, k1) \<Rightarrow> resume k1 \<noteq> None | _ \<Rightarrow> False" by code_simp
  then obtain k1 k2 where k: "lock_try_acquire 0x60 ?k = Some (True, k1)" "resume k1 = Some k2"
    by (auto split: option.splits prod.splits bool.splits)
  with release_after_try_acquire_panics [OF k] show ?thesis by (auto simp: sample_defs)
qed

end
