(* ===== verification/Kstring.thy ===== *)
theory Kstring
  imports Prelude
begin

text \<open>
  \<open>lib/string.c\<close> over a byte memory.  Loops that count down a size are recursive on it; loops that run to a
  terminator are \<open>partial_function\<close>s.  \<open>cstring m p xs\<close> is the abstraction of a string in memory, and
  \<open>tokens\<close> the specification of the tokenizer that \<open>load_arguments\<close> of \<open>userprog/process.c\<close> uses.
\<close>

type_synonym mem = "ptr \<Rightarrow> u8"

subsection \<open>Blocks of memory\<close>

text \<open>\<open>while (size-- > 0) *dst++ = *src++\<close>.\<close>

fun memcpy_loop :: "mem \<Rightarrow> ptr \<Rightarrow> ptr \<Rightarrow> nat \<Rightarrow> mem" where
  "memcpy_loop m dst src 0 = m"
| "memcpy_loop m dst src (Suc n) = memcpy_loop (m(dst := m src)) (dst + 1) (src + 1) n"

definition memcpy :: "mem \<Rightarrow> ptr \<Rightarrow> ptr \<Rightarrow> size_t \<Rightarrow> (ptr \<times> mem) option" where
  "memcpy m dst src sz = do {
     ASSERT (dst \<noteq> NULL \<or> sz = 0);
     ASSERT (src \<noteq> NULL \<or> sz = 0);
     Some (dst, memcpy_loop m dst src (unat sz))
   }"

text \<open>\<open>while (size-- > 0) *--dst = *--src\<close>.\<close>

fun memmove_loop :: "mem \<Rightarrow> ptr \<Rightarrow> ptr \<Rightarrow> nat \<Rightarrow> mem" where
  "memmove_loop m dst src 0 = m"
| "memmove_loop m dst src (Suc n) = memmove_loop (m(dst - 1 := m (src - 1))) (dst - 1) (src - 1) n"

text \<open>Both loops leave \<open>dst\<close> where they stop, and that is what \<open>memmove\<close> returns.\<close>

definition memmove :: "mem \<Rightarrow> ptr \<Rightarrow> ptr \<Rightarrow> size_t \<Rightarrow> (ptr \<times> mem) option" where
  "memmove m dst src sz = do {
     ASSERT (dst \<noteq> NULL \<or> sz = 0);
     ASSERT (src \<noteq> NULL \<or> sz = 0);
     if dst < src then Some (dst + sz, memcpy_loop m dst src (unat sz))
     else Some (dst + sz - sz, memmove_loop m (dst + sz) (src + sz) (unat sz))
   }"

fun memcmp_loop :: "mem \<Rightarrow> ptr \<Rightarrow> ptr \<Rightarrow> nat \<Rightarrow> int" where
  "memcmp_loop m a b 0 = 0"
| "memcmp_loop m a b (Suc n) =
     (if m a \<noteq> m b then (if m a > m b then 1 else -1) else memcmp_loop m (a + 1) (b + 1) n)"

definition memcmp :: "mem \<Rightarrow> ptr \<Rightarrow> ptr \<Rightarrow> size_t \<Rightarrow> int option" where
  "memcmp m a b sz = do {
     ASSERT (a \<noteq> NULL \<or> sz = 0);
     ASSERT (b \<noteq> NULL \<or> sz = 0);
     Some (memcmp_loop m a b (unat sz))
   }"

fun memchr_loop :: "mem \<Rightarrow> ptr \<Rightarrow> u8 \<Rightarrow> nat \<Rightarrow> ptr" where
  "memchr_loop m block ch 0 = NULL"
| "memchr_loop m block ch (Suc n) = (if m block = ch then block else memchr_loop m (block + 1) ch n)"

definition memchr :: "mem \<Rightarrow> ptr \<Rightarrow> int \<Rightarrow> size_t \<Rightarrow> ptr option" where
  "memchr m block ch sz = do {
     ASSERT (block \<noteq> NULL \<or> sz = 0);
     Some (memchr_loop m block (word_of_int ch) (unat sz))
   }"

fun memset_loop :: "mem \<Rightarrow> ptr \<Rightarrow> u8 \<Rightarrow> nat \<Rightarrow> mem" where
  "memset_loop m dst v 0 = m"
| "memset_loop m dst v (Suc n) = memset_loop (m(dst := v)) (dst + 1) v n"

definition memset :: "mem \<Rightarrow> ptr \<Rightarrow> int \<Rightarrow> size_t \<Rightarrow> (ptr \<times> mem) option" where
  "memset m dst v sz = do {
     ASSERT (dst \<noteq> NULL \<or> sz = 0);
     Some (dst, memset_loop m dst (word_of_int v) (unat sz))
   }"

subsection \<open>Strings\<close>

partial_function (option) strcmp_loop :: "mem \<Rightarrow> ptr \<Rightarrow> ptr \<Rightarrow> int option" where
  "strcmp_loop m a b =
     (if m a \<noteq> 0 \<and> m a = m b then strcmp_loop m (a + 1) (b + 1)
      else Some (if m a < m b then -1 else if m a > m b then 1 else 0))"

definition strcmp :: "mem \<Rightarrow> ptr \<Rightarrow> ptr \<Rightarrow> int option" where
  "strcmp m a b = do { ASSERT (a \<noteq> NULL); ASSERT (b \<noteq> NULL); strcmp_loop m a b }"

partial_function (option) strchr_loop :: "mem \<Rightarrow> ptr \<Rightarrow> u8 \<Rightarrow> ptr option" where
  "strchr_loop m string c =
     (if m string = c then Some string else if m string = 0 then Some NULL else strchr_loop m (string + 1) c)"

definition strchr :: "mem \<Rightarrow> ptr \<Rightarrow> u8 \<Rightarrow> ptr option" where
  "strchr m string c = do { ASSERT (string \<noteq> NULL); strchr_loop m string c }"

partial_function (option) strcspn_loop :: "mem \<Rightarrow> ptr \<Rightarrow> ptr \<Rightarrow> size_t \<Rightarrow> size_t option" where
  "strcspn_loop m string stop len =
     (if m (string + len) \<noteq> 0 then do {
        p \<leftarrow> strchr m stop (m (string + len));
        if p \<noteq> NULL then Some len else strcspn_loop m string stop (len + 1)
      } else Some len)"

definition strcspn :: "mem \<Rightarrow> ptr \<Rightarrow> ptr \<Rightarrow> size_t option" where
  "strcspn m string stop = strcspn_loop m string stop 0"

partial_function (option) strpbrk :: "mem \<Rightarrow> ptr \<Rightarrow> ptr \<Rightarrow> ptr option" where
  "strpbrk m string stop =
     (if m string \<noteq> 0 then do {
        p \<leftarrow> strchr m stop (m string);
        if p \<noteq> NULL then Some string else strpbrk m (string + 1) stop
      } else Some NULL)"

partial_function (option) strrchr_loop :: "mem \<Rightarrow> ptr \<Rightarrow> u8 \<Rightarrow> ptr \<Rightarrow> ptr option" where
  "strrchr_loop m string c p =
     (if m string \<noteq> 0 then strrchr_loop m (string + 1) c (if m string = c then string else p) else Some p)"

definition strrchr :: "mem \<Rightarrow> ptr \<Rightarrow> u8 \<Rightarrow> ptr option" where
  "strrchr m string c = strrchr_loop m string c NULL"

partial_function (option) strspn_loop :: "mem \<Rightarrow> ptr \<Rightarrow> ptr \<Rightarrow> size_t \<Rightarrow> size_t option" where
  "strspn_loop m string skip len =
     (if m (string + len) \<noteq> 0 then do {
        p \<leftarrow> strchr m skip (m (string + len));
        if p = NULL then Some len else strspn_loop m string skip (len + 1)
      } else Some len)"

definition strspn :: "mem \<Rightarrow> ptr \<Rightarrow> ptr \<Rightarrow> size_t option" where
  "strspn m string skip = strspn_loop m string skip 0"

partial_function (option) strlen_loop :: "mem \<Rightarrow> ptr \<Rightarrow> ptr option" where
  "strlen_loop m p = (if m p \<noteq> 0 then strlen_loop m (p + 1) else Some p)"

definition strlen :: "mem \<Rightarrow> ptr \<Rightarrow> size_t option" where
  "strlen m string = do {
     ASSERT (string \<noteq> NULL);
     p \<leftarrow> strlen_loop m string;
     Some (p - string)
   }"

partial_function (option) strnlen_loop :: "mem \<Rightarrow> ptr \<Rightarrow> size_t \<Rightarrow> size_t \<Rightarrow> size_t option" where
  "strnlen_loop m string maxlen len =
     (if m (string + len) \<noteq> 0 \<and> len < maxlen then strnlen_loop m string maxlen (len + 1) else Some len)"

definition strnlen :: "mem \<Rightarrow> ptr \<Rightarrow> size_t \<Rightarrow> size_t option" where
  "strnlen m string maxlen = strnlen_loop m string maxlen 0"

partial_function (option) strstr_loop :: "mem \<Rightarrow> ptr \<Rightarrow> ptr \<Rightarrow> size_t \<Rightarrow> size_t \<Rightarrow> size_t \<Rightarrow> ptr option" where
  "strstr_loop m haystack needle limit needle_len i =
     (if i \<le> limit then do {
        c \<leftarrow> memcmp m (haystack + i) needle needle_len;
        if c = 0 then Some (haystack + i) else strstr_loop m haystack needle limit needle_len (i + 1)
      } else Some NULL)"

definition strstr :: "mem \<Rightarrow> ptr \<Rightarrow> ptr \<Rightarrow> ptr option" where
  "strstr m haystack needle = do {
     haystack_len \<leftarrow> strlen m haystack;
     needle_len \<leftarrow> strlen m needle;
     if haystack_len \<ge> needle_len then strstr_loop m haystack needle (haystack_len - needle_len) needle_len 0
     else Some NULL
   }"

definition strlcpy :: "mem \<Rightarrow> ptr \<Rightarrow> ptr \<Rightarrow> size_t \<Rightarrow> (size_t \<times> mem) option" where
  "strlcpy m dst src sz = do {
     ASSERT (dst \<noteq> NULL);
     ASSERT (src \<noteq> NULL);
     src_len \<leftarrow> strlen m src;
     m' \<leftarrow> (if sz > 0 then do {
              let dst_len = (if src_len < sz - 1 then src_len else sz - 1);
              (_, m1) \<leftarrow> memcpy m dst src dst_len;
              Some (m1(dst + dst_len := 0))
            } else Some m);
     Some (src_len, m')
   }"

definition strlcat :: "mem \<Rightarrow> ptr \<Rightarrow> ptr \<Rightarrow> size_t \<Rightarrow> (size_t \<times> mem) option" where
  "strlcat m dst src sz = do {
     ASSERT (dst \<noteq> NULL);
     ASSERT (src \<noteq> NULL);
     src_len \<leftarrow> strlen m src;
     dst_len \<leftarrow> strlen m dst;
     m' \<leftarrow> (if sz > 0 \<and> dst_len < sz then do {
              let copy_cnt = (if src_len < sz - dst_len - 1 then src_len else sz - dst_len - 1);
              (_, m1) \<leftarrow> memcpy m (dst + dst_len) src copy_cnt;
              Some (m1(dst + (dst_len + copy_cnt) := 0))
            } else Some m);
     Some (src_len + dst_len, m')
   }"

subsection \<open>Tokens\<close>

text \<open>
  The loops of \<open>strtok_r\<close> and \<open>strtok_c\<close> that skip delimiters (\<open>None\<close> in the pair when they meet the end of the
  string) and that skip a token.
\<close>

partial_function (option) skip_delimiters :: "mem \<Rightarrow> ptr \<Rightarrow> ptr \<Rightarrow> (bool \<times> ptr) option" where
  "skip_delimiters m s delimiters = do {
     p \<leftarrow> strchr m delimiters (m s);
     if p \<noteq> NULL then if m s = 0 then Some (True, s) else skip_delimiters m (s + 1) delimiters
     else Some (False, s)
   }"

partial_function (option) skip_token :: "mem \<Rightarrow> ptr \<Rightarrow> ptr \<Rightarrow> ptr option" where
  "skip_token m s delimiters = do {
     p \<leftarrow> strchr m delimiters (m s);
     if p = NULL then skip_token m (s + 1) delimiters else Some s
   }"

text \<open>\<open>strtok_r\<close> returns the token, the new \<open>*save_ptr\<close> and the memory.\<close>

definition strtok_r :: "mem \<Rightarrow> ptr \<Rightarrow> ptr \<Rightarrow> ptr \<Rightarrow> (ptr \<times> ptr \<times> mem) option" where
  "strtok_r m s delimiters save_ptr = do {
     ASSERT (delimiters \<noteq> NULL);
     let s = (if s = NULL then save_ptr else s);
     ASSERT (s \<noteq> NULL);
     (at_end, s) \<leftarrow> skip_delimiters m s delimiters;
     if at_end then Some (NULL, s, m)
     else do {
       let token = s;
       s \<leftarrow> skip_token m s delimiters;
       if m s \<noteq> 0 then Some (token, s + 1, m(s := 0)) else Some (token, s, m)
     }
   }"

partial_function (option) strtok_c_loop :: "mem \<Rightarrow> ptr \<Rightarrow> ptr \<Rightarrow> int \<Rightarrow> int option" where
  "strtok_c_loop m s delimiters num = do {
     s \<leftarrow> skip_token m s delimiters;
     let num = wrap32 (num + 1);
     (at_end, s) \<leftarrow> skip_delimiters m s delimiters;
     if at_end then Some num else strtok_c_loop m s delimiters num
   }"

definition strtok_c :: "mem \<Rightarrow> ptr \<Rightarrow> ptr \<Rightarrow> size_t option" where
  "strtok_c m s delimiters = do {
     ASSERT (delimiters \<noteq> NULL);
     if s = NULL then Some 0
     else do {
       (at_end, s) \<leftarrow> skip_delimiters m s delimiters;
       if at_end then Some 0
       else do { num \<leftarrow> strtok_c_loop m s delimiters 0; Some (word_of_int num) }
     }
   }"

declare strcmp_loop.simps [code] strchr_loop.simps [code] strcspn_loop.simps [code] strpbrk.simps [code]
  strrchr_loop.simps [code] strspn_loop.simps [code] strlen_loop.simps [code] strnlen_loop.simps [code]
  strstr_loop.simps [code] skip_delimiters.simps [code] skip_token.simps [code] strtok_c_loop.simps [code]

subsection \<open>Copying\<close>

lemma unat_minus_one_less:
  fixes k :: "'a::len word"
  assumes "k \<noteq> 0"
  shows "unat (k - 1) = unat k - 1" "0 < unat k"
  using assms by (simp_all add: unat_minus_one unat_gt_0)

lemma unat_minus_succ:
  fixes a d :: ptr
  assumes "a \<noteq> d"
  shows "unat (a - d) = Suc (unat (a - (d + 1)))"
proof -
  have "a - d \<noteq> 0" using assms by simp
  then have "unat (a - d - 1) = unat (a - d) - 1" "0 < unat (a - d)" by (rule unat_minus_one_less)+
  then show ?thesis by (simp add: diff_diff_eq)
qed

lemma unat_lt_32: "unat (x :: ptr) < 2 ^ 32"
  using unsigned_less [of x, where 'a = nat] by simp

lemma unat_neg_1: "unat (- 1 :: ptr) = 2 ^ 32 - 1"
  by (simp add: unsigned_minus_1_eq_mask mask_eq_exp_minus_1)

lemma memcpy_loop_at:
  assumes "n < 2 ^ 32" "dst = src \<or> n \<le> unat (dst - src)"
  shows "memcpy_loop m dst src n a = (if unat (a - dst) < n then m (src + (a - dst)) else m a)"
  using assms
proof (induction n arbitrary: m dst src)
  case (Suc n)
  have d: "dst + 1 - (src + 1) = dst - src" by simp
  have ih: "memcpy_loop (m(dst := m src)) (dst + 1) (src + 1) n a =
    (if unat (a - (dst + 1)) < n then (m(dst := m src)) (src + 1 + (a - (dst + 1))) else (m(dst := m src)) a)"
    using Suc.prems by (intro Suc.IH) (auto simp: d)
  show ?case
  proof (cases "a = dst")
    case True
    have "unat (a - (dst + 1)) = 2 ^ 32 - 1" using True by (simp add: unat_neg_1)
    with ih True Suc.prems(1) show ?thesis by simp
  next
    case False
    note u = unat_minus_succ [OF False]
    have "src + (a - dst) \<noteq> dst" if "unat (a - dst) < Suc n"
    proof
      assume "src + (a - dst) = dst"
      then have "a - dst = dst - src" by (metis add_diff_cancel_left')
      with that Suc.prems(2) False show False by auto
    qed
    with ih u False show ?thesis by (simp add: algebra_simps)
  qed
qed simp

lemma memmove_loop_at:
  assumes "n < 2 ^ 32" "dst = src \<or> n \<le> unat (src - dst)"
  shows "memmove_loop m dst src n a = (if a \<noteq> dst \<and> unat (dst - a) \<le> n then m (src - (dst - a)) else m a)"
  using assms
proof (induction n arbitrary: m dst src)
  case 0
  have "unat (dst - a) = 0 \<longleftrightarrow> a = dst" by (auto simp: unat_eq_0)
  then show ?case by auto
next
  case (Suc n)
  let ?m = "m(dst - 1 := m (src - 1))"
  have d: "src - 1 - (dst - 1) = src - dst" by simp
  have ih: "memmove_loop ?m (dst - 1) (src - 1) n a =
    (if a \<noteq> dst - 1 \<and> unat (dst - 1 - a) \<le> n then ?m (src - 1 - (dst - 1 - a)) else ?m a)"
    using Suc.prems by (intro Suc.IH) (auto simp: d)
  show ?case
  proof (cases "a = dst - 1")
    case True
    then have "a \<noteq> dst" "dst - a = 1" by simp_all
    with ih True show ?thesis by simp
  next
    case ne: False
    show ?thesis
    proof (cases "a = dst")
      case True
      have "unat (dst - 1 - a) = 2 ^ 32 - 1" using True by (simp add: unat_neg_1)
      with ih True ne Suc.prems(1) show ?thesis by simp
    next
      case False
      have u: "unat (dst - 1 - a) = unat (dst - a) - 1" "0 < unat (dst - a)"
        using unat_minus_one_less [of "dst - a"] False by (simp_all add: algebra_simps)
      have "src - (dst - a) \<noteq> dst - 1" if "unat (dst - a) \<le> Suc n"
      proof
        assume "src - (dst - a) = dst - 1"
        then have e: "dst - a = src - dst + 1" by (simp add: algebra_simps)
        show False
        proof (cases "dst = src")
          case True
          with e ne show False by (simp add: algebra_simps)
        next
          case False
          have "dst - 1 - a = dst - a - 1" by simp
          then have "dst - 1 - a = src - dst" by (simp only: e add_diff_cancel_right')
          with that u(1) Suc.prems(2) False show False by auto
        qed
      qed
      with ih u ne False show ?thesis by (auto simp: algebra_simps)
    qed
  qed
qed

lemma unat_diff_wrap:
  fixes a b :: ptr
  assumes "a < b"
  shows "unat (a - b) = 2 ^ 32 - (unat b - unat a)"
  using assms by (simp add: unat_sub_if' word_less_nat_alt)

text \<open>
  C26: memmove copies overlapping regions in both directions as if through a buffer and changes no
  other byte; it returns its first argument when it copies backwards and the end of the destination
  when it copies forwards.
\<close>

theorem memmove_correct:
  assumes "dst \<noteq> NULL" "src \<noteq> NULL" "unat dst + unat sz \<le> 2 ^ 32" "unat src + unat sz \<le> 2 ^ 32"
  shows "\<exists>m'. memmove m dst src sz = Some (if dst < src then dst + sz else dst, m') \<and>
    (\<forall>a. m' a = (if unat (a - dst) < unat sz then m (src + (a - dst)) else m a))"
proof (cases "dst < src")
  case True
  have "unat sz \<le> unat (dst - src)" using unat_diff_wrap [OF True] assms(4) True by (simp add: word_less_nat_alt)
  with True assms memcpy_loop_at [of "unat sz" dst src m] unat_lt_32 [of sz] show ?thesis by (auto simp: memmove_def)
next
  case False
  let ?n = "unat sz"
  have ok: "dst + sz = src + sz \<or> ?n \<le> unat (src + sz - (dst + sz))"
  proof (cases "dst = src")
    case ne: False
    then have "src < dst" using False by simp
    moreover have "?n \<le> 2 ^ 32 - (unat dst - unat src)" using assms(3) by arith
    ultimately show ?thesis using unat_diff_wrap [of src dst] by simp
  qed simp
  have at: "memmove_loop m (dst + sz) (src + sz) ?n a = (if unat (a - dst) < ?n then m (src + (a - dst)) else m a)" for a
  proof -
    have "sz - k \<noteq> 0 \<and> unat (sz - k) \<le> ?n \<longleftrightarrow> unat k < ?n" for k
      using unat_lt_32 [of k] by (cases "unat k \<le> ?n") (auto simp: unat_sub_if' less_le word_unat_eq_iff [of sz k])
    from this [of "a - dst"] have i: "dst + sz \<noteq> a \<and> unat (dst + sz - a) \<le> ?n \<longleftrightarrow> unat (a - dst) < ?n"
      by (simp add: algebra_simps)
    have "src + sz - (dst + sz - a) = src + (a - dst)" by simp
    with i show ?thesis unfolding memmove_loop_at [OF unat_lt_32 ok] by (simp add: eq_commute [of a])
  qed
  with False assms show ?thesis by (auto simp: memmove_def)
qed

subsection \<open>Strings in memory\<close>

text \<open>\<open>cstring m p xs\<close>: the string \<open>xs\<close> with its terminator at \<open>p\<close>, which does not wrap around.\<close>

fun chars_at :: "mem \<Rightarrow> ptr \<Rightarrow> u8 list \<Rightarrow> bool" where
  "chars_at m p [] \<longleftrightarrow> m p = 0"
| "chars_at m p (x # xs) \<longleftrightarrow> m p = x \<and> x \<noteq> 0 \<and> chars_at m (p + 1) xs"

definition cstring :: "mem \<Rightarrow> ptr \<Rightarrow> u8 list \<Rightarrow> bool" where
  "cstring m p xs \<longleftrightarrow> p \<noteq> NULL \<and> unat p + length xs < 2 ^ 32 \<and> chars_at m p xs"

lemma chars_at_append:
  "chars_at m p (xs @ ys) \<longleftrightarrow> (\<forall>i<length xs. m (p + of_nat i) = xs ! i \<and> xs ! i \<noteq> 0) \<and> chars_at m (p + of_nat (length xs)) ys"
proof (induction xs arbitrary: p)
  case (Cons x xs)
  have "(\<forall>i<Suc (length xs). m (p + of_nat i) = (x # xs) ! i \<and> (x # xs) ! i \<noteq> 0) \<longleftrightarrow>
    m p = x \<and> x \<noteq> 0 \<and> (\<forall>i<length xs. m (p + 1 + of_nat i) = xs ! i \<and> xs ! i \<noteq> 0)"
    unfolding All_less_Suc2 by (simp add: add.assoc)
  with Cons show ?case by (simp add: add.assoc)
qed simp

lemma unat_add_small:
  fixes p :: ptr
  assumes "unat p + n < 2 ^ 32"
  shows "unat (p + of_nat n) = unat p + n"
  using assms by (simp add: unat_word_ariths unat_of_nat)

lemma add_not_NULL: "p \<noteq> NULL \<Longrightarrow> unat p + n < 2 ^ 32 \<Longrightarrow> p + of_nat n \<noteq> NULL"
  using unat_add_small [of p n] by (auto simp: unat_eq_0 [symmetric] simp del: unat_eq_0)

lemma cstring_append:
  "cstring m p (xs @ ys) \<Longrightarrow> cstring m (p + of_nat (length xs)) ys"
  by (auto simp: cstring_def chars_at_append unat_add_small add_not_NULL)

lemma cstring_Cons: "cstring m p (x # xs) \<Longrightarrow> m p = x \<and> x \<noteq> 0 \<and> cstring m (p + 1) xs"
  using cstring_append [of m p "[x]" xs] by (simp add: cstring_def)

lemma cstring_Nil: "cstring m p [] \<Longrightarrow> m p = 0"
  by (simp add: cstring_def)

lemma cstring_NULL: "cstring m p xs \<Longrightarrow> p \<noteq> NULL"
  by (simp add: cstring_def)

lemma strlen_loop_chars: "chars_at m p xs \<Longrightarrow> strlen_loop m p = Some (p + of_nat (length xs))"
  by (induction xs arbitrary: p) (simp_all add: strlen_loop.simps add.assoc)

lemma strlen_cstring: "cstring m p xs \<Longrightarrow> strlen m p = Some (of_nat (length xs))"
  using strlen_loop_chars [of m p xs] by (auto simp: strlen_def cstring_def)

lemma strchr_loop_chars:
  "chars_at m p xs \<Longrightarrow> strchr_loop m p c =
     Some (if c \<in> set xs \<or> c = 0 then p + of_nat (length (takeWhile (\<lambda>x. x \<noteq> c) xs)) else NULL)"
  by (induction xs arbitrary: p) (auto simp: strchr_loop.simps add.assoc)

lemma strchr_cstring:
  "cstring m p xs \<Longrightarrow> strchr m p c =
     Some (if c \<in> set xs \<or> c = 0 then p + of_nat (length (takeWhile (\<lambda>x. x \<noteq> c) xs)) else NULL)"
  using strchr_loop_chars [of m p xs c] by (auto simp: strchr_def cstring_def)

text \<open>\<open>strchr (d, c) != NULL\<close> tests membership; every string contains its terminator.\<close>

lemma strchr_found:
  assumes "cstring m d ds"
  shows "\<exists>q. strchr m d c = Some q \<and> (q \<noteq> NULL \<longleftrightarrow> c \<in> set ds \<or> c = 0)"
proof -
  have "length (takeWhile (\<lambda>x. x \<noteq> c) ds) \<le> length ds" by (rule length_takeWhile_le)
  then have "d + of_nat (length (takeWhile (\<lambda>x. x \<noteq> c) ds)) \<noteq> NULL"
    using assms by (intro add_not_NULL) (auto simp: cstring_def)
  then show ?thesis by (simp add: strchr_cstring [OF assms])
qed

subsection \<open>Tokens\<close>

text \<open>The tokens of a string: the maximal runs of characters that are not delimiters.\<close>

function tokens :: "'a set \<Rightarrow> 'a list \<Rightarrow> 'a list list" where
  "tokens D xs = (let ys = dropWhile (\<lambda>x. x \<in> D) xs in
     if ys = [] then [] else takeWhile (\<lambda>x. x \<notin> D) ys # tokens D (dropWhile (\<lambda>x. x \<notin> D) ys))"
  by auto
termination
proof (relation "measure (length \<circ> snd)")
  fix D :: "'a set" and xs ys :: "'a list"
  assume y: "ys = dropWhile (\<lambda>x. x \<in> D) xs" "ys \<noteq> []"
  then obtain z zs where z: "ys = z # zs" "z \<notin> D" by (metis hd_dropWhile list.exhaust list.sel(1))
  have "length (dropWhile (\<lambda>x. x \<notin> D) ys) \<le> length zs" using z by (simp add: length_dropWhile_le)
  also have "\<dots> < length ys" using z by simp
  also have "\<dots> \<le> length xs" using y(1) by (simp add: length_dropWhile_le)
  finally show "((D, dropWhile (\<lambda>x. x \<notin> D) ys), (D, xs)) \<in> measure (length \<circ> snd)" by simp
qed simp

declare tokens.simps [simp del]

lemma tokens_Nil [simp]: "tokens D [] = []" by (simp add: tokens.simps)

lemma tokens_delimiter [simp]: "x \<in> D \<Longrightarrow> tokens D (x # xs) = tokens D xs"
  by (subst (1 2) tokens.simps) simp

lemma tokens_dropWhile: "tokens D (dropWhile (\<lambda>x. x \<in> D) xs) = tokens D xs"
  by (induction xs) simp_all

lemma dropWhile_token: "dropWhile (\<lambda>x. x \<notin> D) ys = [] \<or> hd (dropWhile (\<lambda>x. x \<notin> D) ys) \<in> D"
  using hd_dropWhile [of "\<lambda>x. x \<notin> D" ys] by auto

lemma tokens_tl: "tokens D (tl (dropWhile (\<lambda>x. x \<notin> D) ys)) = tokens D (dropWhile (\<lambda>x. x \<notin> D) ys)"
proof (cases "dropWhile (\<lambda>x. x \<notin> D) ys")
  case (Cons z zs)
  then have "z \<in> D" using dropWhile_token [of D ys] by simp
  then show ?thesis unfolding Cons by simp
next
  case Nil
  show ?thesis unfolding Nil by simp
qed

lemma tokens_token:
  assumes "ys = dropWhile (\<lambda>x. x \<in> D) xs" "ys \<noteq> []"
  shows "tokens D xs = takeWhile (\<lambda>x. x \<notin> D) ys # tokens D (tl (dropWhile (\<lambda>x. x \<notin> D) ys))"
  unfolding tokens_tl using assms by (subst tokens.simps) (simp add: Let_def)

text \<open>What the two skipping loops do on a string.\<close>

lemma skip_delimiters_cstring:
  assumes d: "cstring m d ds" and s: "cstring m s xs"
  shows "skip_delimiters m s d = Some (dropWhile (\<lambda>x. x \<in> set ds) xs = [], s + of_nat (length (takeWhile (\<lambda>x. x \<in> set ds) xs)))"
  using s
proof (induction xs arbitrary: s)
  case Nil
  then show ?case using strchr_found [OF d, of 0] cstring_Nil [OF Nil] by (auto simp: skip_delimiters.simps)
next
  case (Cons x xs)
  note c = cstring_Cons [OF Cons.prems]
  show ?case using strchr_found [OF d, of x] Cons.IH [of "s + 1"] c by (subst skip_delimiters.simps) (auto simp: add.assoc)
qed

lemma skip_token_cstring:
  assumes d: "cstring m d ds" and s: "cstring m s xs"
  shows "skip_token m s d = Some (s + of_nat (length (takeWhile (\<lambda>x. x \<notin> set ds) xs)))"
  using s
proof (induction xs arbitrary: s)
  case Nil
  then show ?case using strchr_found [OF d, of 0] cstring_Nil [OF Nil] by (auto simp: skip_token.simps)
next
  case (Cons x xs)
  note c = cstring_Cons [OF Cons.prems]
  show ?case using strchr_found [OF d, of x] Cons.IH [of "s + 1"] c by (subst skip_token.simps) (auto simp: add.assoc)
qed

lemma cstring_drop: "cstring m s xs \<Longrightarrow> n \<le> length xs \<Longrightarrow> cstring m (s + of_nat n) (drop n xs)"
  using cstring_append [of m s "take n xs" "drop n xs"] by simp

lemma cstring_dropWhile: "cstring m s xs \<Longrightarrow> cstring m (s + of_nat (length (takeWhile P xs))) (dropWhile P xs)"
  using cstring_append [of m s "takeWhile P xs" "dropWhile P xs"] by simp

lemma strtok_c_loop_cstring:
  assumes d: "cstring m d ds" and s: "cstring m s ys" and y: "ys \<noteq> []" "hd ys \<notin> set ds"
  shows "strtok_c_loop m s d n = Some (((\<lambda>n. wrap32 (n + 1)) ^^ length (tokens (set ds) ys)) n)"
  using s y
proof (induction "length ys" arbitrary: s ys n rule: less_induct)
  case less
  let ?zs = "dropWhile (\<lambda>x. x \<notin> set ds) ys"
  let ?s = "s + of_nat (length (takeWhile (\<lambda>x. x \<notin> set ds) ys))"
  let ?ys = "dropWhile (\<lambda>x. x \<in> set ds) ?zs"
  let ?t = "?s + of_nat (length (takeWhile (\<lambda>x. x \<in> set ds) ?zs))"
  have z: "cstring m ?s ?zs" by (rule cstring_dropWhile [OF less.prems(1)])
  have dy: "dropWhile (\<lambda>x. x \<in> set ds) ys = ys" using less.prems by (cases ys) auto
  have tk: "tokens (set ds) ys = takeWhile (\<lambda>x. x \<notin> set ds) ys # tokens (set ds) ?ys"
    using tokens_token [of ys "set ds" ys] less.prems(2) dy tokens_tl [of "set ds" ys] tokens_dropWhile [of "set ds" ?zs] by simp
  have step: "strtok_c_loop m s d n = (if ?ys = [] then Some (wrap32 (n + 1)) else strtok_c_loop m ?t d (wrap32 (n + 1)))"
    by (subst strtok_c_loop.simps) (simp add: skip_token_cstring [OF d less.prems(1)] skip_delimiters_cstring [OF d z] Let_def)
  show ?case
  proof (cases "?ys = []")
    case True
    then have "tokens (set ds) ?ys = []" by (simp only: tokens_Nil)
    then show ?thesis unfolding step if_P [OF True] tk by simp
  next
    case False
    have "hd ?ys \<notin> set ds" using hd_dropWhile [OF False] by simp
    moreover have "length ?ys < length ys"
    proof -
      have "length ?ys \<le> length ?zs" by (rule length_dropWhile_le)
      also have "\<dots> < length ys" using less.prems(2,3) by (cases ys) (auto simp: length_dropWhile_le le_imp_less_Suc)
      finally show ?thesis .
    qed
    ultimately have "strtok_c_loop m ?t d (wrap32 (n + 1)) = Some (((\<lambda>n. wrap32 (n + 1)) ^^ length (tokens (set ds) ?ys)) (wrap32 (n + 1)))"
      using less.hyps cstring_dropWhile [OF z] False by blast
    then show ?thesis unfolding step if_not_P [OF False] tk by (simp only: length_Cons funpow_Suc_right comp_apply)
  qed
qed

lemma word_of_int_wrap32: "(word_of_int (wrap32 n) :: 32 word) = word_of_int n"
  by (simp add: word_of_int_eq_iff wrap32_def take_bit_signed_take_bit)

lemma word_of_int_count: "(word_of_int (((\<lambda>n. wrap32 (n + 1)) ^^ k) n) :: 32 word) = word_of_int n + of_nat k"
  by (induction k) (simp_all add: word_of_int_wrap32)

lemma strtok_c_cstring:
  assumes d: "cstring m d ds" and s: "cstring m s xs"
  shows "strtok_c m s d = Some (of_nat (length (tokens (set ds) xs)))"
proof -
  let ?ys = "dropWhile (\<lambda>x. x \<in> set ds) xs"
  let ?s = "s + of_nat (length (takeWhile (\<lambda>x. x \<in> set ds) xs))"
  have st: "strtok_c m s d = (if ?ys = [] then Some 0 else Option.bind (strtok_c_loop m ?s d 0) (\<lambda>num. Some (word_of_int num)))"
    using cstring_NULL [OF d] cstring_NULL [OF s] by (simp only: strtok_c_def skip_delimiters_cstring [OF d s]) simp
  show ?thesis
  proof (cases "?ys = []")
    case True
    then have "tokens (set ds) xs = []" using tokens_dropWhile [of "set ds" xs] by (simp only: tokens_Nil)
    then show ?thesis unfolding st if_P [OF True] by simp
  next
    case False
    have h: "hd ?ys \<notin> set ds" using hd_dropWhile [OF False] by simp
    show ?thesis
      unfolding st if_not_P [OF False] strtok_c_loop_cstring [OF d cstring_dropWhile [OF s] False h] tokens_dropWhile
      by (simp add: word_of_int_count)
  qed
qed

text \<open>The bytes of a string, terminator included.\<close>

definition region :: "ptr \<Rightarrow> nat \<Rightarrow> ptr set" where
  "region p n = (\<lambda>i. p + of_nat i) ` {..n}"

lemma region_self: "p \<in> region p n"
  unfolding region_def by (rule image_eqI [of _ _ 0]) simp_all

lemma chars_at_cong: "(\<And>a. a \<in> region p (length xs) \<Longrightarrow> m' a = m a) \<Longrightarrow> chars_at m' p xs = chars_at m p xs"
proof (induction xs arbitrary: p)
  case Nil
  then show ?case by (simp add: region_def)
next
  case (Cons x xs)
  have "region (p + 1) (length xs) \<subseteq> region p (length (x # xs))"
  proof
    fix a assume "a \<in> region (p + 1) (length xs)"
    then obtain i where "i \<le> length xs" "a = p + 1 + of_nat i" by (auto simp: region_def)
    then show "a \<in> region p (length (x # xs))"
      unfolding region_def by (intro image_eqI [of _ _ "Suc i"]) (simp_all add: add.assoc)
  qed
  then have "chars_at m' (p + 1) xs = chars_at m (p + 1) xs" using Cons by blast
  moreover have "m' p = m p" by (rule Cons.prems [OF region_self])
  ultimately show ?case by simp
qed

lemma cstring_cong: "(\<And>a. a \<in> region p (length xs) \<Longrightarrow> m' a = m a) \<Longrightarrow> cstring m' p xs = cstring m p xs"
  unfolding cstring_def using chars_at_cong [of p xs m' m] by blast

lemma regionI: "i \<le> n \<Longrightarrow> p + of_nat i \<in> region p n"
  by (simp add: region_def)

lemma regionE: "a \<in> region p n \<Longrightarrow> \<exists>i\<le>n. a = p + of_nat i"
  by (auto simp: region_def)

lemma ptr_add_add: "(p :: ptr) + of_nat a + of_nat b = p + of_nat (a + b)"
  by (simp add: add.assoc)

lemma region_sub:
  assumes "a + b \<le> n"
  shows "region (p + of_nat a) b \<subseteq> region p n"
proof
  fix x assume "x \<in> region (p + of_nat a) b"
  then obtain i where i: "i \<le> b" "x = p + of_nat (a + i)" using regionE ptr_add_add by metis
  then show "x \<in> region p n" unfolding i(2) by (intro regionI) (use assms in simp)
qed

lemma region_disj:
  fixes p :: ptr
  assumes "unat p + n < 2 ^ 32" "a < b" "b \<le> n"
  shows "p + of_nat a \<noteq> p + of_nat b"
  using unat_add_small [of p a] unat_add_small [of p b] assms by auto

lemma region_apart:
  assumes "unat p + n < unat q" "unat q + k < 2 ^ 32"
  shows "region p n \<inter> region q k = {}"
proof -
  have False if "i \<le> n" "j \<le> k" "p + of_nat i = q + of_nat j" for i j
    using unat_add_small [of p i] unat_add_small [of q j] assms that by simp
  then show ?thesis unfolding region_def by auto
qed

text \<open>Cutting a string in two by overwriting one character with the terminator.\<close>

lemma cstring_cut:
  assumes s: "cstring m s (ys @ z # zs)"
  defines "m' \<equiv> m(s + of_nat (length ys) := 0)"
  shows "cstring m' s ys \<and> cstring m' (s + of_nat (length ys) + 1) zs"
proof
  have n: "unat s + length (ys @ z # zs) < 2 ^ 32" using s by (simp add: cstring_def)
  have d: "s + of_nat i \<noteq> s + of_nat (length ys)" if "i < length ys \<or> length ys < i \<and> i \<le> length (ys @ z # zs)" for i
    using region_disj [OF n, of i "length ys"] region_disj [OF n, of "length ys" i] that by auto
  show "cstring m' s ys"
    using s d chars_at_append [of m' s ys "[]"] chars_at_append [of m s ys "z # zs"] by (auto simp: cstring_def m'_def)
  have e: "s + of_nat (length ys) + 1 = s + of_nat (Suc (length ys))" by (simp add: add.assoc add.commute)
  have "cstring m (s + of_nat (Suc (length ys))) zs" using cstring_append [of m s "ys @ [z]" zs] s by simp
  moreover have "m' a = m a" if a: "a \<in> region (s + of_nat (Suc (length ys))) (length zs)" for a
  proof -
    obtain i where i: "i \<le> length zs" "a = s + of_nat (Suc (length ys)) + of_nat i" using regionE [OF a] by blast
    have "a \<noteq> s + of_nat (length ys)" unfolding i(2) ptr_add_add by (rule d) (use i(1) in simp)
    then show ?thesis by (simp add: m'_def)
  qed
  ultimately show "cstring m' (s + of_nat (length ys) + 1) zs" unfolding e using cstring_cong [of _ zs m' m] by blast
qed

lemma strtok_r_end:
  assumes d: "cstring m d ds" and s: "cstring m s xs" and e: "tokens (set ds) xs = []"
  shows "strtok_r m s d sv = Some (NULL, s + of_nat (length xs), m)" "strtok_r m NULL d s = Some (NULL, s + of_nat (length xs), m)"
proof -
  have n: "dropWhile (\<lambda>x. x \<in> set ds) xs = []" using e by (subst (asm) tokens.simps) (simp add: Let_def split: if_splits)
  have "takeWhile (\<lambda>x. x \<in> set ds) xs = xs" using n takeWhile_dropWhile_id [of "\<lambda>x. x \<in> set ds" xs] by (simp only: append_Nil2)
  then have "skip_delimiters m s d = Some (True, s + of_nat (length xs))"
    using skip_delimiters_cstring [OF d s] n by (simp only: refl)
  then show "strtok_r m s d sv = Some (NULL, s + of_nat (length xs), m)" "strtok_r m NULL d s = Some (NULL, s + of_nat (length xs), m)"
    using cstring_NULL [OF d] cstring_NULL [OF s] by (simp_all add: strtok_r_def)
qed

text \<open>
  One call of \<open>strtok_r\<close> on a string with a token: the returned pointer and the saved one split the
  string; only a byte of the string changes.
\<close>

lemma strtok_r_token:
  assumes d: "cstring m d ds" and s: "cstring m s xs" and t: "tokens (set ds) xs = tk # tks"
  obtains m' i j where "strtok_r m s d sv = Some (s + of_nat i, s + of_nat j, m')"
    "strtok_r m NULL d s = Some (s + of_nat i, s + of_nat j, m')"
    "cstring m' (s + of_nat i) tk" "cstring m' (s + of_nat j) (drop j xs)" "tokens (set ds) (drop j xs) = tks"
    "i + length tk \<le> j" "j \<le> length xs" "j \<le> Suc (i + length tk)" "\<And>a. a \<notin> region s (length xs) \<Longrightarrow> m' a = m a"
    "\<And>a. m a = 0 \<Longrightarrow> m' a = 0"
proof -
  let ?D = "\<lambda>x. x \<in> set ds"
  let ?ys = "dropWhile ?D xs"
  define i where "i = length (takeWhile ?D xs)"
  define zs where "zs = dropWhile (\<lambda>x. x \<notin> set ds) ?ys"
  have ne: "?ys \<noteq> []" using t by (subst (asm) tokens.simps) (auto simp: Let_def split: if_splits)
  have tk: "tk = takeWhile (\<lambda>x. x \<notin> set ds) ?ys" and tks: "tks = tokens (set ds) (tl zs)"
    using tokens_token [OF refl ne] t by (simp_all add: zs_def)
  have tne: "tk \<noteq> []" using ne hd_dropWhile [OF ne] unfolding tk by (cases ?ys) auto
  have dec: "xs = takeWhile ?D xs @ tk @ zs" unfolding tk zs_def by simp
  have y: "cstring m (s + of_nat i) (tk @ zs)" using cstring_dropWhile [OF s, of ?D] unfolding i_def tk zs_def by simp
  have sk: "skip_delimiters m s d = Some (False, s + of_nat i)" using skip_delimiters_cstring [OF d s] ne unfolding i_def by (simp only: if_False)
  have st: "skip_token m (s + of_nat i) d = Some (s + of_nat i + of_nat (length tk))"
    using skip_token_cstring [OF d cstring_dropWhile [OF s, of ?D]] unfolding i_def tk by simp
  have z: "cstring m (s + of_nat i + of_nat (length tk)) zs" by (rule cstring_append [OF y])
  have len: "i + length tk + length zs = length xs" using dec unfolding i_def by (metis length_append add.assoc)
  let ?e = "s + of_nat i + of_nat (length tk)"
  have nn: "s \<noteq> NULL" "d \<noteq> NULL" using cstring_NULL [OF s] cstring_NULL [OF d] .
  show thesis
  proof (cases zs)
    case Nil
    have "m ?e = 0" using z Nil by (simp add: cstring_def)
    with nn sk st have r: "strtok_r m s d sv = Some (s + of_nat i, ?e, m)" "strtok_r m NULL d s = Some (s + of_nat i, ?e, m)"
      by (simp_all add: strtok_r_def Let_def)
    have dr: "drop (i + length tk) xs = []" using len Nil by simp
    show thesis
    proof (rule that [of i "i + length tk" m])
      show "cstring m (s + of_nat (i + length tk)) (drop (i + length tk) xs)" using z Nil unfolding dr ptr_add_add by simp
    qed (use r y Nil tks dr len in \<open>simp_all add: ptr_add_add del: of_nat_add\<close>)
  next
    case (Cons c cs)
    let ?m = "m(?e := 0)"
    have c: "m ?e \<noteq> 0" using z Cons by (simp add: cstring_def)
    with nn sk st have r: "strtok_r m s d sv = Some (s + of_nat i, ?e + 1, ?m)" "strtok_r m NULL d s = Some (s + of_nat i, ?e + 1, ?m)"
      by (simp_all add: strtok_r_def Let_def)
    have e1: "?e + 1 = s + of_nat (Suc (i + length tk))" by (simp add: add.assoc add.commute add.left_commute)
    have dr: "drop (Suc (i + length tk)) xs = cs"
    proof -
      have "xs = (takeWhile ?D xs @ tk @ [c]) @ cs" using dec Cons by simp
      moreover have "length (takeWhile ?D xs @ tk @ [c]) = Suc (i + length tk)" by (simp add: i_def)
      ultimately show ?thesis by (metis append_eq_conv_conj)
    qed
    have cut: "cstring ?m (s + of_nat i) tk" "cstring ?m (?e + 1) cs" using cstring_cut [of m "s + of_nat i" tk c cs] y Cons by simp_all
    have "?e \<in> region s (length xs)" unfolding ptr_add_add by (rule regionI) (use len in simp)
    then have out: "\<And>a. a \<notin> region s (length xs) \<Longrightarrow> ?m a = m a" by auto
    show thesis
    proof (rule that [of i "Suc (i + length tk)" ?m])
      show "strtok_r m s d sv = Some (s + of_nat i, s + of_nat (Suc (i + length tk)), ?m)"
        "strtok_r m NULL d s = Some (s + of_nat i, s + of_nat (Suc (i + length tk)), ?m)" using r unfolding e1 .
      show "cstring ?m (s + of_nat (Suc (i + length tk))) (drop (Suc (i + length tk)) xs)" using cut(2) unfolding e1 dr .
      show "tokens (set ds) (drop (Suc (i + length tk)) xs) = tks" unfolding dr tks Cons by simp
    qed (use cut(1) out len Cons in simp_all)
  qed
qed

text \<open>The loop \<open>for (token = strtok_r (s, ...); token != NULL; token = strtok_r (NULL, ...))\<close>.\<close>

partial_function (option) strtok_all :: "mem \<Rightarrow> ptr \<Rightarrow> ptr \<Rightarrow> ptr \<Rightarrow> (ptr list \<times> mem) option" where
  "strtok_all m s d sv = do {
     (t, sv', m') \<leftarrow> strtok_r m s d sv;
     if t = NULL then Some ([], m')
     else do { (ts, m'') \<leftarrow> strtok_all m' NULL d sv'; Some (t # ts, m'') }
   }"

declare strtok_all.simps [code]

lemma chars_at_keep:
  assumes "chars_at m p xs" "\<And>i. i < length xs \<Longrightarrow> m' (p + of_nat i) = m (p + of_nat i)" "\<And>a. m a = 0 \<Longrightarrow> m' a = 0"
  shows "chars_at m' p xs"
  using assms chars_at_append [of m p xs "[]"] chars_at_append [of m' p xs "[]"] by simp

lemma strtok_all_cstring:
  assumes "cstring m d ds" "cstring m p xs" "region p (length xs) \<inter> region d (length ds) = {}"
  shows "\<exists>ps m'. strtok_all m NULL d p = Some (ps, m') \<and> strtok_all m p d sv = Some (ps, m') \<and>
    list_all2 (cstring m') ps (tokens (set ds) xs) \<and> (\<forall>a. m a = 0 \<longrightarrow> m' a = 0) \<and> (\<forall>a. a \<notin> region p (length xs) \<longrightarrow> m' a = m a)"
  using assms
proof (induction "length (tokens (set ds) xs)" arbitrary: m p xs sv)
  case 0
  then have "strtok_r m p d sv = Some (NULL, p + of_nat (length xs), m)" "strtok_r m NULL d p = Some (NULL, p + of_nat (length xs), m)"
    by (simp_all add: strtok_r_end [of m d ds p xs])
  then have "strtok_all m NULL d p = Some ([], m)" "strtok_all m p d sv = Some ([], m)" by (simp_all add: strtok_all.simps)
  with 0(1) show ?case by simp
next
  case (Suc k)
  then obtain tk tks where t: "tokens (set ds) xs = tk # tks" by (metis length_Suc_conv)
  from strtok_r_token [OF Suc.prems(1,2) t] obtain m1 i j where m1: "strtok_r m p d sv = Some (p + of_nat i, p + of_nat j, m1)"
    "strtok_r m NULL d p = Some (p + of_nat i, p + of_nat j, m1)"
    "cstring m1 (p + of_nat i) tk" "cstring m1 (p + of_nat j) (drop j xs)" "tokens (set ds) (drop j xs) = tks"
    "i + length tk \<le> j" "j \<le> length xs" "\<And>a. a \<notin> region p (length xs) \<Longrightarrow> m1 a = m a" "\<And>a. m a = 0 \<Longrightarrow> m1 a = 0"
    by (metis (no_types, lifting))
  have d1: "cstring m1 d ds" using Suc.prems(1,3) m1(8) cstring_cong [of d ds m1 m] by blast
  have sub: "region (p + of_nat j) (length (drop j xs)) \<subseteq> region p (length xs)" using m1(7) by (intro region_sub) simp
  have dj: "region (p + of_nat j) (length (drop j xs)) \<inter> region d (length ds) = {}" using sub Suc.prems(3) by blast
  have kk: "k = length (tokens (set ds) (drop j xs))" using Suc.hyps(2) t m1(5) by simp
  obtain ps m2 where m2: "strtok_all m1 NULL d (p + of_nat j) = Some (ps, m2)" "list_all2 (cstring m2) ps tks"
    "\<forall>a. m1 a = 0 \<longrightarrow> m2 a = 0" "\<forall>a. a \<notin> region (p + of_nat j) (length (drop j xs)) \<longrightarrow> m2 a = m1 a"
    using Suc.hyps(1) [OF kk d1 m1(4) dj] unfolding m1(5) by blast
  have n: "p + of_nat i \<noteq> NULL" using m1(3) by (rule cstring_NULL)
  have u: "unat p + length xs < 2 ^ 32" using Suc.prems(2) by (simp add: cstring_def)
  have "m2 (p + of_nat i + of_nat l) = m1 (p + of_nat i + of_nat l)" if l: "l < length tk" for l
  proof -
    have "p + of_nat (i + l) \<noteq> p + of_nat (j + q)" if "q \<le> length (drop j xs)" for q
      by (rule region_disj [OF u]) (use m1(6,7) l that in simp_all)
    then have "p + of_nat (i + l) \<notin> region (p + of_nat j) (length (drop j xs))" using regionE ptr_add_add by metis
    with m2(4) show ?thesis unfolding ptr_add_add by blast
  qed
  then have "chars_at m2 (p + of_nat i) tk" using m1(3) m2(3) chars_at_keep [of m1 "p + of_nat i" tk m2] by (simp add: cstring_def)
  then have c: "cstring m2 (p + of_nat i) tk" using m1(3) by (simp add: cstring_def)
  have "strtok_all m NULL d p = Some ((p + of_nat i) # ps, m2)" "strtok_all m p d sv = Some ((p + of_nat i) # ps, m2)"
    using m1(1,2) m2(1) n by (simp_all add: strtok_all.simps [of m])
  moreover have "\<forall>a. a \<notin> region p (length xs) \<longrightarrow> m2 a = m a" using m2(4) m1(8) sub by (auto dest: subsetD)
  ultimately show ?case using c m2(2,3) m1(9) t by auto
qed

text \<open>
  C19: Calling strtok_r until it returns a null pointer, as its comment shows, yields exactly the
  maximal delimiter-free runs of the string, in order, each as a C string in place.
\<close>

theorem strtok_tokens:
  assumes "cstring m d ds" "cstring m s xs" "region s (length xs) \<inter> region d (length ds) = {}"
  shows "\<exists>ps m'. strtok_all m s d save_ptr = Some (ps, m') \<and> list_all2 (cstring m') ps (tokens (set ds) xs) \<and>
    strtok_c m s d = Some (of_nat (length ps)) \<and> (\<forall>a. a \<notin> region s (length xs) \<longrightarrow> m' a = m a)"
proof -
  obtain ps m' where p: "strtok_all m s d save_ptr = Some (ps, m')" "list_all2 (cstring m') ps (tokens (set ds) xs)"
    "\<forall>a. a \<notin> region s (length xs) \<longrightarrow> m' a = m a"
    using strtok_all_cstring [OF assms] by blast
  from list_all2_lengthD [OF p(2)] strtok_c_cstring [OF assms(1,2)] have "strtok_c m s d = Some (of_nat (length ps))" by simp
  with p show ?thesis by blast
qed

subsection \<open>Copying strings\<close>

lemma strnlen_loop_chars:
  assumes "chars_at m p xs" "n \<le> length xs" "length xs < 2 ^ 32" "n \<le> unat maxlen"
  shows "strnlen_loop m p maxlen (of_nat n) = Some (of_nat (min (length xs) (unat maxlen)))"
  using assms(2,4)
proof (induction "length xs - n" arbitrary: n)
  case 0
  then have "n = length xs" by simp
  with 0 assms(1) chars_at_append [of m p xs "[]"] show ?case by (simp add: strnlen_loop.simps min_def)
next
  case (Suc k)
  then have n: "n < length xs" by simp
  have c: "m (p + of_nat n) \<noteq> 0" using assms(1) chars_at_append [of m p xs "[]"] n by simp
  have u: "unat (of_nat n :: size_t) = n" using n assms(3) by (simp add: unat_of_nat)
  show ?case
  proof (cases "n < unat maxlen")
    case True
    have "strnlen_loop m p maxlen (of_nat n) = strnlen_loop m p maxlen (of_nat (Suc n))"
      using c True u by (subst strnlen_loop.simps) (simp add: word_less_nat_alt add.commute)
    with Suc n True show ?thesis by (simp del: of_nat_Suc)
  next
    case False
    then have "unat maxlen = n" using Suc.prems by simp
    with c u n show ?thesis by (subst strnlen_loop.simps) (simp add: word_less_nat_alt)
  qed
qed

lemma strnlen_cstring: "cstring m p xs \<Longrightarrow> strnlen m p maxlen = Some (of_nat (min (length xs) (unat maxlen)))"
  using strnlen_loop_chars [of m p xs 0 maxlen] by (auto simp: strnlen_def cstring_def)

lemma copy_cstring:
  assumes s: "cstring m src xs" and n: "n \<le> length xs" and d: "dst \<noteq> NULL" "unat dst + n < 2 ^ 32"
    "region dst n \<inter> region src (length xs) = {}"
  defines "m' \<equiv> (memcpy_loop m dst src n)(dst + of_nat n := 0)"
  shows "cstring m' dst (take n xs)" "a \<notin> region dst n \<Longrightarrow> m' a = m a"
proof -
  have le: "n \<le> unat (dst - src)"
  proof (rule ccontr)
    assume "\<not> ?thesis"
    then have "src + of_nat (unat (dst - src)) \<in> region src (length xs)" using n by (intro regionI) simp
    with d(3) region_self [of dst n] show False by auto
  qed
  have at: "memcpy_loop m dst src n a = (if unat (a - dst) < n then m (src + (a - dst)) else m a)" for a
    using s n le by (intro memcpy_loop_at) (auto simp: cstring_def)
  have i: "m' (dst + of_nat i) = xs ! i \<and> xs ! i \<noteq> 0" if i: "i < n" for i
  proof -
    have "unat (of_nat i :: ptr) = i" using i d(2) by (simp add: unat_of_nat)
    moreover have "dst + of_nat i \<noteq> dst + of_nat n" by (rule region_disj [OF d(2)]) (use i in simp_all)
    moreover have "m (src + of_nat i) = xs ! i \<and> xs ! i \<noteq> 0" using s n i chars_at_append [of m src xs "[]"] by (simp add: cstring_def)
    ultimately show ?thesis using i by (simp add: m'_def at)
  qed
  have "chars_at m' dst (take n xs @ [])" unfolding chars_at_append using i n by (simp add: m'_def)
  with d n show "cstring m' dst (take n xs)" by (simp add: cstring_def)
  show "m' a = m a" if a: "a \<notin> region dst n"
  proof -
    have "\<not> unat (a - dst) < n"
    proof
      assume "unat (a - dst) < n"
      then have "dst + of_nat (unat (a - dst)) \<in> region dst n" by (intro regionI) simp
      with a show False by simp
    qed
    moreover have "a \<noteq> dst + of_nat n" using a regionI [of n n dst] by auto
    ultimately show ?thesis by (simp add: m'_def at)
  qed
qed

text \<open>
  C31: strlcpy returns the length of the source string. With size 0 it writes nothing; otherwise, if
  the size bytes at the destination lie within the address space and do not overlap the source, it
  writes these bytes only and leaves there a C string that is the longest prefix of the source with
  at most size - 1 characters.
\<close>

theorem strlcpy_bounded:
  assumes s: "cstring m src xs" and d: "dst \<noteq> NULL" and z: "sz \<noteq> 0 \<Longrightarrow> unat dst + unat sz \<le> 2 ^ 32"
    "sz \<noteq> 0 \<Longrightarrow> region dst (unat sz - 1) \<inter> region src (length xs) = {}"
  shows "\<exists>m'. strlcpy m dst src sz = Some (of_nat (length xs), m') \<and>
    (if sz = 0 then m' = m
     else cstring m' dst (take (unat sz - 1) xs) \<and> (\<forall>a. a \<notin> region dst (unat sz - 1) \<longrightarrow> m' a = m a))"
proof (cases "sz = 0")
  case True
  then show ?thesis using strlen_cstring [OF s] cstring_NULL [OF s] d by (simp add: strlcpy_def)
next
  case False
  then have d2: "unat dst + unat sz \<le> 2 ^ 32" "region dst (unat sz - 1) \<inter> region src (length xs) = {}" using z by blast+
  define n where "n = min (length xs) (unat sz - 1)"
  have ln: "length xs < 2 ^ 32" using s by (simp add: cstring_def)
  have z1: "unat (sz - 1) = unat sz - 1" using False by (rule unat_minus_one_less)
  have n: "(if of_nat (length xs) < sz - 1 then of_nat (length xs) else sz - 1) = (of_nat n :: size_t)" "n < 2 ^ 32"
    using ln unat_lt_32 [of sz] z1 by (auto simp: n_def min_def word_less_nat_alt unat_of_nat word_unat_eq_iff)
  have sub: "region dst n \<subseteq> region dst (unat sz - 1)" using region_sub [of 0 n "unat sz - 1" dst] by (simp add: n_def)
  let ?m = "(memcpy_loop m dst src n)(dst + of_nat n := 0)"
  have dn: "unat dst + n < 2 ^ 32" using d2(1) False unat_gt_0 [of sz] by (auto simp: n_def)
  have dj: "region dst n \<inter> region src (length xs) = {}" using d2(2) sub by blast
  have nl: "n \<le> length xs" by (simp add: n_def)
  note c = copy_cstring [OF s nl d dn dj]
  have t: "take n xs = take (unat sz - 1) xs" by (simp add: n_def min_def)
  have "strlcpy m dst src sz = Some (of_nat (length xs), ?m)"
    using strlen_cstring [OF s] cstring_NULL [OF s] d False n by (simp add: strlcpy_def Let_def memcpy_def unat_of_nat word_gt_0)
  moreover have "cstring ?m dst (take (unat sz - 1) xs)" using c(1) unfolding t .
  moreover have "?m a = m a" if "a \<notin> region dst (unat sz - 1)" for a by (rule c(2)) (use sub that in blast)
  ultimately show ?thesis using False by simp
qed

subsection \<open>Comparing strings\<close>

text \<open>
  C32: strcmp on two C strings returns -1, 0 or 1 as the lexicographic order of their unsigned
  characters says.
\<close>

theorem strcmp_lexicographic:
  assumes "cstring m a xs" "cstring m b ys"
  shows "strcmp m a b = Some (if xs = ys then 0 else if (xs, ys) \<in> lexord {(u, v). u < v} then -1 else 1)"
proof -
  have "chars_at m a xs \<Longrightarrow> chars_at m b ys \<Longrightarrow>
    strcmp_loop m a b = Some (if xs = ys then 0 else if (xs, ys) \<in> lexord {(u, v). u < v} then -1 else 1)"
  proof (induction xs arbitrary: a b ys)
    case Nil
    then show ?case by (cases ys) (auto simp: strcmp_loop.simps word_gt_0)
  next
    case (Cons x xs)
    show ?case
    proof (cases ys)
      case Nil
      with Cons.prems show ?thesis by (subst strcmp_loop.simps) (auto simp: word_gt_0)
    next
      case y: (Cons y ys')
      have ih: "strcmp_loop m (a + 1) (b + 1) =
          Some (if xs = ys' then 0 else if (xs, ys') \<in> lexord {(u, v). u < v} then -1 else 1)"
        using Cons.prems y by (intro Cons.IH) simp_all
      have l: "(x # xs, y # ys') \<in> lexord {(u, v). u < v} \<longleftrightarrow> x < y \<or> x = y \<and> (xs, ys') \<in> lexord {(u, v). u < v}"
        by simp
      show ?thesis using Cons.prems ih unfolding y l by (subst strcmp_loop.simps) (auto simp: not_less_iff_gr_or_eq)
    qed
  qed
  with assms show ?thesis by (simp add: strcmp_def cstring_def)
qed

subsection \<open>Sample memories\<close>

text \<open>\<open>" a b"\<close> at \<open>0x100\<close> and \<open>" "\<close> at \<open>0x200\<close>.\<close>

definition sample_mem :: mem where
  "sample_mem = (\<lambda>_. 0)(0x100 := 32, 0x101 := 97, 0x102 := 32, 0x103 := 98, 0x200 := 32)"

lemma sample_strings: "cstring sample_mem 0x100 [32, 97, 32, 98]" "cstring sample_mem 0x200 [32]"
  by (simp_all add: cstring_def sample_mem_def)

lemma sample_region: "region 0x100 (length [32, 97, 32, 98 :: u8]) \<inter> region 0x200 (length [32 :: u8]) = {}"
  by (rule region_apart) simp_all

theorem strtok_tokens_witness:
  "\<exists>ps m'. strtok_all sample_mem 0x100 0x200 0 = Some (ps, m') \<and> length ps = 2 \<and> strtok_c sample_mem 0x100 0x200 = Some 2"
proof -
  have t: "tokens {32} [32, 97, 32, 98] = [[97], [98 :: u8]]" by (simp add: tokens.simps)
  obtain ps m' where p: "strtok_all sample_mem 0x100 0x200 0 = Some (ps, m')"
    "list_all2 (cstring m') ps (tokens {32} [32, 97, 32, 98])" "strtok_c sample_mem 0x100 0x200 = Some (of_nat (length ps))"
    using strtok_tokens [OF sample_strings(2,1) sample_region, of 0] by auto
  from list_all2_lengthD [OF p(2)] have "length ps = 2" unfolding t by simp
  with p(1,3) show ?thesis by simp
qed

theorem memmove_correct_witness:
  "\<exists>m'. memmove sample_mem 0x100 0x101 3 = Some (0x103, m') \<and> m' 0x100 = 97 \<and> m' 0x102 = 98"
  using memmove_correct [of "0x100" "0x101" 3 sample_mem] by (auto simp: sample_mem_def)

theorem strlcpy_bounded_witness:
  "\<exists>m'. strlcpy sample_mem 0x300 0x100 3 = Some (4, m') \<and> cstring m' 0x300 [32, 97]"
proof -
  have "region 0x300 (unat (3 :: size_t) - 1) \<inter> region 0x100 (length [32, 97, 32, 98 :: u8]) = {}"
    unfolding Int_commute [of "region 0x300 _"] by (rule region_apart) simp_all
  then show ?thesis using strlcpy_bounded [OF sample_strings(1), of "0x300" 3] by auto
qed

theorem strcmp_lexicographic_witness: "strcmp sample_mem 0x100 0x200 = Some 1"
  using strcmp_lexicographic [OF sample_strings] by simp
end
