(* ===== verification/Arith64.thy ===== *)
theory Arith64
  imports Kstring "HOL-Library.Signed_Division"
begin

text \<open>
  64-bit division (\<open>lib/arithmetic.c\<close>): the routines that the compiler calls, built on the 32-bit \<open>DIVL\<close> instruction.
  A trap of the processor is \<open>None\<close>.  The lemmas show that the quotients are exact and that no \<open>DIVL\<close> traps, and which
  remainders survive the conversion to 32 bits.
\<close>

subsection \<open>The routines\<close>

text \<open>\<open>DIVL\<close> traps on division by zero and when the quotient does not fit in 32 bits.\<close>

definition divl :: "u64 \<Rightarrow> u32 \<Rightarrow> u32 option" where
  "divl n d =
     (if d = 0 \<or> n div ucast d \<ge> 0x100000000 then None
      else Some (ucast (n div ucast d)))"

definition nlz :: "u32 \<Rightarrow> nat" where
  "nlz x =
     (let n = 0;
          (n, x) = (if x \<le> 0x0000FFFF then (n + 16, push_bit 16 x) else (n, x));
          (n, x) = (if x \<le> 0x00FFFFFF then (n + 8, push_bit 8 x) else (n, x));
          (n, x) = (if x \<le> 0x0FFFFFFF then (n + 4, push_bit 4 x) else (n, x));
          (n, x) = (if x \<le> 0x3FFFFFFF then (n + 2, push_bit 2 x) else (n, x))
      in if x \<le> 0x7FFFFFFF then n + 1 else n)"

definition udiv64 :: "u64 \<Rightarrow> u64 \<Rightarrow> u64 option" where
  "udiv64 n d =
     (if drop_bit 32 d = 0 then
        let b = push_bit 32 1; n1 = ucast (drop_bit 32 n) :: u32; n0 = ucast n :: u32; d0 = ucast d :: u32 in
        if d0 = 0 then None
        else do {
          q \<leftarrow> divl (b * ucast (n1 mod d0) + ucast n0) d0;
          Some (ucast q + b * ucast (n1 div d0))
        }
      else if n < d then Some 0
      else
        let d1 = ucast (drop_bit 32 d) :: u32; s = nlz d1 in do {
          q \<leftarrow> divl (drop_bit 1 n) (ucast (drop_bit 32 (push_bit s d)));
          let q = ucast (drop_bit (31 - s) q);
          Some (if n - (q - 1) * d < d then q - 1 else q)
        })"

definition umod64 :: "u64 \<Rightarrow> u64 \<Rightarrow> u32 option" where
  "umod64 n d = do { q \<leftarrow> udiv64 n d; Some (ucast (n - d * q)) }"

text \<open>Signed numbers are two's complement words.\<close>

definition sdiv64 :: "u64 \<Rightarrow> u64 \<Rightarrow> u64 option" where
  "sdiv64 n d = do {
     let n_abs = (if sint n \<ge> 0 then n else - n);
     let d_abs = (if sint d \<ge> 0 then d else - d);
     q_abs \<leftarrow> udiv64 n_abs d_abs;
     Some (if (sint n < 0) = (sint d < 0) then q_abs else - q_abs)
   }"

definition smod64 :: "u64 \<Rightarrow> u64 \<Rightarrow> u32 option" where
  "smod64 n d = do { q \<leftarrow> sdiv64 n d; Some (ucast (n - d * q)) }"

definition divdi3 :: "u64 \<Rightarrow> u64 \<Rightarrow> u64 option" where
  "divdi3 n d = sdiv64 n d"

definition moddi3 :: "u64 \<Rightarrow> u64 \<Rightarrow> u64 option" where
  "moddi3 n d = map_option scast (smod64 n d)"

definition udivdi3 :: "u64 \<Rightarrow> u64 \<Rightarrow> u64 option" where
  "udivdi3 n d = udiv64 n d"

definition umoddi3 :: "u64 \<Rightarrow> u64 \<Rightarrow> u64 option" where
  "umoddi3 n d = map_option ucast (umod64 n d)"

subsection \<open>Leading zeros\<close>

lemma unat_two_power: "k < LENGTH('a) \<Longrightarrow> unat (2 ^ k :: 'a::len word) = 2 ^ k"
  using unat_of_nat [of "2 ^ k", where 'a = 'a] by (simp add: take_bit_eq_mod)

lemma unat_push_bit:
  fixes x :: "'a::len word"
  assumes "unat x * 2 ^ k < 2 ^ LENGTH('a)" "k < LENGTH('a)"
  shows "unat (push_bit k x) = unat x * 2 ^ k"
  using assms by (simp add: push_bit_eq_mult unat_word_ariths unat_two_power)

text \<open>One step of the search: a word without its top \<open>2 k\<close> bits known to be set gains \<open>k\<close> of them.\<close>

lemma nlz_stage:
  fixes y :: u32
  assumes "2 ^ (32 - 2 * k) \<le> unat y" "unat m = 2 ^ (32 - k) - 1" "0 < k" "k \<le> 16" "unat y = x * 2 ^ n"
    "(n', y') = (if y \<le> m then (n + k, push_bit k y) else (n, y))"
  shows "2 ^ (32 - k) \<le> unat y' \<and> unat y' = x * 2 ^ n' \<and> n' \<le> n + k"
proof (cases "y \<le> m")
  case True
  have "unat y < 2 ^ (32 - k)" using True assms(2) unfolding word_le_nat_alt by (simp add: le_less_trans)
  then have "unat y * 2 ^ k < 2 ^ (32 - k) * 2 ^ k" by simp
  also have "\<dots> = 2 ^ 32" using assms(4) by (simp flip: power_add)
  finally have u: "unat (push_bit k y) = unat y * 2 ^ k" using assms(4) by (intro unat_push_bit) simp_all
  have "(2 :: nat) ^ (32 - k) = 2 ^ (32 - 2 * k) * 2 ^ k" using assms(4) by (simp flip: power_add)
  also have "\<dots> \<le> unat y * 2 ^ k" using assms(1) by simp
  finally show ?thesis using True assms(5,6) u by (simp add: power_add)
next
  case False
  then have "2 ^ (32 - k) \<le> unat y" using assms(2) unfolding word_le_nat_alt by linarith
  then show ?thesis using False assms(5,6) by simp
qed

lemma nlz_normalises:
  assumes "x \<noteq> 0"
  shows "nlz x \<le> 31 \<and> 2 ^ 31 \<le> unat x * 2 ^ nlz x \<and> unat x * 2 ^ nlz x < 2 ^ 32"
proof -
  obtain n1 :: nat and y1 where s1: "(n1, y1) = (if x \<le> 0x0000FFFF then (0 + 16, push_bit 16 x) else (0, x))" by (metis surj_pair)
  obtain n2 y2 where s2: "(n2, y2) = (if y1 \<le> 0x00FFFFFF then (n1 + 8, push_bit 8 y1) else (n1, y1))" by (metis surj_pair)
  obtain n3 y3 where s3: "(n3, y3) = (if y2 \<le> 0x0FFFFFFF then (n2 + 4, push_bit 4 y2) else (n2, y2))" by (metis surj_pair)
  obtain n4 y4 where s4: "(n4, y4) = (if y3 \<le> 0x3FFFFFFF then (n3 + 2, push_bit 2 y3) else (n3, y3))" by (metis surj_pair)
  obtain n5 y5 where s5: "(n5, y5) = (if y4 \<le> 0x7FFFFFFF then (n4 + 1, push_bit 1 y4) else (n4, y4))" by (metis surj_pair)
  have x: "1 \<le> unat x" using assms by (metis One_nat_def Suc_leI neq0_conv unat_eq_0)
  have r1: "2 ^ 16 \<le> unat y1 \<and> unat y1 = unat x * 2 ^ n1 \<and> n1 \<le> 16" using nlz_stage [OF _ _ _ _ _ s1, of "unat x"] x by simp
  have r2: "2 ^ 24 \<le> unat y2 \<and> unat y2 = unat x * 2 ^ n2 \<and> n2 \<le> n1 + 8" using nlz_stage [OF _ _ _ _ _ s2, of "unat x"] r1 by simp
  have r3: "2 ^ 28 \<le> unat y3 \<and> unat y3 = unat x * 2 ^ n3 \<and> n3 \<le> n2 + 4" using nlz_stage [OF _ _ _ _ _ s3, of "unat x"] r2 by simp
  have r4: "2 ^ 30 \<le> unat y4 \<and> unat y4 = unat x * 2 ^ n4 \<and> n4 \<le> n3 + 2" using nlz_stage [OF _ _ _ _ _ s4, of "unat x"] r3 by simp
  have r5: "2 ^ 31 \<le> unat y5 \<and> unat y5 = unat x * 2 ^ n5 \<and> n5 \<le> n4 + 1" using nlz_stage [OF _ _ _ _ _ s5, of "unat x"] r4 by simp
  have f: "n5 = (if y4 \<le> 0x7FFFFFFF then n4 + 1 else n4)" using s5 by (cases "y4 \<le> 0x7FFFFFFF") (simp_all only: if_True if_False prod.inject)
  have "nlz x = n5"
    unfolding nlz_def Let_def f s1 [symmetric] prod.case s2 [symmetric] s3 [symmetric] s4 [symmetric] by (rule refl)
  then show ?thesis using r1 r2 r3 r4 r5 unat_lt_32 [of y5] by auto
qed

subsection \<open>The estimate of the quotient\<close>

text \<open>Dividing by the top 32 bits of the normalised divisor gives the quotient or one more.\<close>

lemma quotient_estimate:
  fixes N D s v :: nat
  assumes N: "N < 2 ^ 64" and D: "2 ^ 63 \<le> D * 2 ^ s" and s: "s \<le> 31" and v: "v = D * 2 ^ s div 2 ^ 32"
  defines "W \<equiv> v * 2 ^ (31 - s)"
  shows "N div D \<le> N div 2 div W" "N div 2 div W \<le> N div D + 1" "2 ^ 31 \<le> v" "0 < W"
proof -
  define e :: nat where "e = 2 ^ (32 - s)"
  have e2: "e * 2 ^ s = 2 ^ 32" using s by (simp add: e_def flip: power_add)
  have e1: "e = 2 * 2 ^ (31 - s)" using s by (simp add: e_def Suc_diff_le flip: power_Suc)
  have W: "2 * W = v * e" by (simp add: W_def e1)
  have "D * 2 ^ s mod 2 ^ 32 < 2 ^ 32" by simp
  then have v1: "v * 2 ^ 32 \<le> D * 2 ^ s" "D * 2 ^ s < v * 2 ^ 32 + 2 ^ 32"
    unfolding v using div_mult_mod_eq [of "D * 2 ^ s" "2 ^ 32"] by linarith+
  have "(2 :: nat) ^ 63 div 2 ^ 32 \<le> v" unfolding v by (rule div_le_mono [OF D])
  then show v31: "2 ^ 31 \<le> v" by simp
  then show W0: "0 < W" by (simp add: W_def)
  have lo: "2 * W \<le> D"
  proof -
    have "2 * W * 2 ^ s \<le> D * 2 ^ s" using v1(1) e2 W by (metis mult.assoc)
    then show ?thesis by simp
  qed
  have hi: "D < 2 * W + e"
  proof -
    have "(2 * W + e) * 2 ^ s = v * 2 ^ 32 + 2 ^ 32" using e2 W by (metis add_mult_distrib mult.assoc)
    then have "D * 2 ^ s < (2 * W + e) * 2 ^ s" using v1(2) by simp
    then show ?thesis by simp
  qed
  define K where "K = N div D"
  have K: "K + 1 \<le> 2 * 2 ^ s"
  proof -
    have "K * 2 ^ 63 \<le> K * (D * 2 ^ s)" using D by simp
    also have "\<dots> = (K * D) * 2 ^ s" by simp
    also have "\<dots> \<le> N * 2 ^ s" by (simp add: K_def)
    also have "\<dots> < 2 ^ 64 * 2 ^ s" using N by simp
    also have "\<dots> = (2 * 2 ^ s) * 2 ^ 63" by simp
    finally show ?thesis by simp
  qed
  have slack: "(K + 1) * (e - 1) \<le> 2 * W"
  proof -
    have "(K + 1) * (e - 1) \<le> 2 * 2 ^ s * (e - 1)" using K by (rule mult_right_mono) simp
    also have "\<dots> = 2 * (e * 2 ^ s) - 2 * 2 ^ s" by (simp add: algebra_simps diff_mult_distrib2)
    also have "\<dots> = 2 ^ 33 - 2 * 2 ^ s" using e2 by simp
    also have "\<dots> \<le> 2 ^ 31 * e"
    proof (cases "s = 31")
      case False
      then have "(2 :: nat) ^ 2 \<le> e" unfolding e_def using s by (intro power_increasing) simp_all
      then show ?thesis by simp
    qed (simp add: e_def)
    also have "\<dots> \<le> 2 * W" using v31 W by simp
    finally show ?thesis .
  qed
  have D0: "0 < D" using lo W0 by simp
  have "N < (K + 1) * D" using D0 by (simp add: K_def dividend_less_times_div add.commute mult.commute)
  also have "\<dots> \<le> (K + 1) * (2 * W + (e - 1))" using hi by (intro mult_left_mono) simp_all
  also have "\<dots> \<le> (K + 2) * (2 * W)" using slack by (simp add: add_mult_distrib2 add_mult_distrib)
  finally have "N div (2 * W) < K + 2" using W0 by (simp add: less_mult_imp_div_less)
  then show "N div 2 div W \<le> N div D + 1" by (simp add: K_def div_mult2_eq)
  have "N div D \<le> N div (2 * W)" using W0 lo by (intro div_le_mono2) simp_all
  then show "N div D \<le> N div 2 div W" by (simp add: div_mult2_eq)
qed

subsection \<open>Unsigned division\<close>

lemma unat_lt_64: "unat (x :: u64) < 2 ^ 64"
  using unsigned_less [of x, where ?'a = nat] by simp

lemma unat_ucast_64: "unat (ucast (x :: u32) :: u64) = unat x"
  using unat_lt_32 [of x] by (simp add: unsigned_ucast_eq take_bit_eq_mod)

lemma unat_ucast_32: "unat (x :: u64) < 2 ^ 32 \<Longrightarrow> unat (ucast x :: u32) = unat x"
  by (simp add: unsigned_ucast_eq take_bit_eq_mod)

lemma unat_low_32: "unat (ucast (x :: u64) :: u32) = unat x mod 2 ^ 32"
  by (simp add: unsigned_ucast_eq take_bit_eq_mod)

lemma unat_high_32: "unat (ucast (drop_bit 32 (x :: u64)) :: u32) = unat x div 2 ^ 32"
proof -
  have "unat (drop_bit 32 x) = unat x div 2 ^ 32" by (simp add: drop_bit_eq_div unat_div)
  moreover have "unat x div 2 ^ 32 < 2 ^ 32" using unat_lt_64 [of x] by simp
  ultimately show ?thesis using unat_ucast_32 [of "drop_bit 32 x"] by simp
qed

lemma divl_ok:
  assumes "d \<noteq> 0" "unat n div unat d < 2 ^ 32"
  obtains q where "divl n d = Some q" "unat q = unat n div unat d"
proof -
  have u: "unat (n div ucast d) = unat n div unat d" by (simp add: unat_div unat_ucast_64)
  then have "\<not> n div ucast d \<ge> 0x100000000" using assms(2) by (simp add: word_le_nat_alt)
  then have "divl n d = Some (ucast (n div ucast d))" using assms(1) by (simp add: divl_def)
  moreover have "unat (ucast (n div ucast d) :: u32) = unat n div unat d" using u assms(2) by (simp add: unat_ucast_32)
  ultimately show thesis using that by blast
qed

lemma unat_join:
  fixes a c :: u64
  assumes "2 ^ 32 * unat a + unat c < 2 ^ 64"
  shows "unat (push_bit 32 1 * a + c) = 2 ^ 32 * unat a + unat c"
proof -
  have "unat (push_bit 32 1 * a) = 2 ^ 32 * unat a" using assms by (simp add: unat_word_ariths)
  then show ?thesis using assms by (simp add: unat_word_ariths)
qed

lemma long_division:
  fixes N D b :: nat
  assumes "0 < D"
  shows "N div D = (b * (N div b mod D) + N mod b) div D + b * (N div b div D)"
proof -
  define t r m where "t = N div b div D" and "r = N div b mod D" and "m = N mod b"
  have "N = b * (t * D + r) + m" by (simp add: t_def r_def m_def)
  also have "\<dots> = b * r + m + (b * t) * D" by (simp add: algebra_simps)
  finally have "N div D = (b * r + m) div D + b * t" using assms by simp
  then show ?thesis by (simp only: t_def r_def m_def)
qed

lemma udiv64_small:
  assumes d: "drop_bit 32 d = 0" "d \<noteq> 0"
  shows "udiv64 n d = Some (n div d)"
proof -
  let ?N = "unat n" and ?D = "unat d"
  let ?n1 = "ucast (drop_bit 32 n) :: u32" and ?n0 = "ucast n :: u32" and ?d0 = "ucast d :: u32"
  have "?D div 2 ^ 32 = 0" using d(1) by (metis unat_high_32 ucast_0 unat_0)
  then have D: "?D < 2 ^ 32" by (simp add: div_eq_0_iff)
  have d0: "unat ?d0 = ?D" by (rule unat_ucast_32 [OF D])
  have D0: "0 < ?D" using d(2) by (metis neq0_conv unat_eq_0)
  then have d0n: "?d0 \<noteq> 0" using d0 by auto
  have n1: "unat ?n1 = ?N div 2 ^ 32" by (rule unat_high_32)
  have n0: "unat ?n0 = ?N mod 2 ^ 32" by (rule unat_low_32)
  let ?r = "?N div 2 ^ 32 mod ?D" and ?t = "?N div 2 ^ 32 div ?D"
  have r: "?r < ?D" using D0 by simp
  have m: "unat (?n1 mod ?d0) = ?r" unfolding unat_mod n1 d0 by (rule refl)
  have t: "unat (?n1 div ?d0) = ?t" unfolding unat_div n1 d0 by (rule refl)
  have lt: "2 ^ 32 * ?r + ?N mod 2 ^ 32 < 2 ^ 32 * ?D"
  proof -
    have "2 ^ 32 * ?r + ?N mod 2 ^ 32 < 2 ^ 32 * (?r + 1)" by simp
    also have "\<dots> \<le> 2 ^ 32 * ?D" using r by (intro mult_left_mono) simp_all
    finally show ?thesis .
  qed
  have x: "unat (push_bit 32 1 * ucast (?n1 mod ?d0) + ucast ?n0 :: u64) = 2 ^ 32 * ?r + ?N mod 2 ^ 32"
  proof -
    have "2 ^ 32 * ?r + ?N mod 2 ^ 32 < 2 ^ 32 * 2 ^ 32" by (rule less_trans [OF lt]) (use D in simp)
    then have "2 ^ 32 * ?r + ?N mod 2 ^ 32 < 2 ^ 64" by simp
    from unat_join [of "ucast (?n1 mod ?d0)" "ucast ?n0", unfolded unat_ucast_64 m n0, OF this] show ?thesis .
  qed
  define X :: u64 where "X = push_bit 32 1 * ucast (?n1 mod ?d0) + ucast ?n0"
  have "unat X div unat ?d0 < 2 ^ 32" unfolding X_def x d0 using lt D0 by (simp add: div_less_iff_less_mult mult.commute)
  then obtain q where q: "divl X ?d0 = Some q" "unat q = unat X div unat ?d0" using divl_ok [OF d0n, of X] by blast
  have uq: "unat q = (2 ^ 32 * ?r + ?N mod 2 ^ 32) div ?D" using q(2) unfolding X_def x d0 .
  have e: "?N div ?D = (2 ^ 32 * ?r + ?N mod 2 ^ 32) div ?D + 2 ^ 32 * ?t"
    by (rule long_division [OF D0])
  have "unat (ucast q + push_bit 32 1 * ucast (?n1 div ?d0) :: u64) = ?N div ?D"
  proof -
    have "2 ^ 32 * ?t + unat q = ?N div ?D" using e uq by simp
    moreover have "?N div ?D < 2 ^ 64" using unat_lt_64 [of n] by (meson div_le_dividend le_less_trans)
    ultimately show ?thesis using unat_join [of "ucast (?n1 div ?d0)" "ucast q", unfolded unat_ucast_64 t] by (simp only: add.commute)
  qed
  then have "ucast q + push_bit 32 1 * ucast (?n1 div ?d0) = n div d" by (simp add: word_unat_eq_iff unat_div)
  then show ?thesis using d(1) d0n q(1) unfolding X_def udiv64_def Let_def by (simp only: if_True if_False refl simp_thms Option.bind.bind_lunit)
qed

text \<open>The correction of the estimate.\<close>

lemma correct_estimate:
  fixes n d q :: u64
  assumes "d \<le> n" "d \<noteq> 0" "unat n div unat d \<le> unat q" "unat q \<le> unat n div unat d + 1"
  shows "(if n - (q - 1) * d < d then q - 1 else q) = n div d"
proof -
  let ?N = "unat n" and ?D = "unat d"
  define K where "K = ?N div ?D"
  have D0: "0 < ?D" using assms(2) by (metis neq0_conv unat_eq_0)
  have K1: "1 \<le> K" unfolding K_def using assms(1) D0 by (simp add: word_le_nat_alt Suc_leI div_greater_zero_iff)
  have N: "?N = K * ?D + ?N mod ?D" by (simp add: K_def)
  have q1: "unat (q - 1) = unat q - 1"
  proof -
    have "1 \<le> q" using K1 assms(3) by (simp add: word_le_nat_alt K_def)
    then show ?thesis by (simp add: unat_sub)
  qed
  have qle: "(unat q - 1) * ?D \<le> K * ?D" using assms(4) by (intro mult_right_mono) (simp_all add: K_def)
  then have le: "(unat q - 1) * ?D \<le> ?N" using N by linarith
  then have m: "unat ((q - 1) * d) = (unat q - 1) * ?D" using unat_lt_64 [of n] by (simp add: unat_word_ariths q1)
  then have "(q - 1) * d \<le> n" using le by (simp add: word_le_nat_alt)
  then have r: "unat (n - (q - 1) * d) = ?N - (unat q - 1) * ?D" by (simp add: unat_sub m)
  have dv: "unat (n div d) = K" by (simp add: unat_div K_def)
  show ?thesis
  proof (cases "unat q = K")
    case True
    then have "(unat q - 1) * ?D + ?D = K * ?D" using K1 by (cases K) simp_all
    then have "?D \<le> ?N - (unat q - 1) * ?D" using N by linarith
    then have "\<not> n - (q - 1) * d < d" using r by (simp add: word_less_nat_alt)
    then show ?thesis using True dv by (simp add: word_unat_eq_iff)
  next
    case False
    then have q: "unat q - 1 = K" using assms(3,4) by (simp add: K_def)
    have "?N mod ?D < ?D" using D0 by simp
    then have "?N - K * ?D < ?D" using N by linarith
    then have "n - (q - 1) * d < d" using r q by (simp add: word_less_nat_alt)
    then show ?thesis using q q1 dv by (simp add: word_unat_eq_iff)
  qed
qed

lemma udiv64_large:
  assumes d: "drop_bit 32 d \<noteq> 0" "d \<le> n"
  shows "udiv64 n d = Some (n div d)"
proof -
  let ?N = "unat n" and ?D = "unat d"
  let ?d1 = "ucast (drop_bit 32 d) :: u32"
  have u1: "unat ?d1 = ?D div 2 ^ 32" by (rule unat_high_32)
  have d1: "?d1 \<noteq> 0"
  proof
    assume "?d1 = 0"
    then have "?D div 2 ^ 32 = 0" using u1 by simp
    then have "unat (drop_bit 32 d) = 0" by (simp add: drop_bit_eq_div unat_div)
    then show False using d(1) by (simp add: unat_eq_0)
  qed
  define s where "s = nlz ?d1"
  have s: "s \<le> 31" "2 ^ 31 \<le> ?D div 2 ^ 32 * 2 ^ s" "?D div 2 ^ 32 * 2 ^ s < 2 ^ 32"
    using nlz_normalises [OF d1] u1 by (simp_all add: s_def)
  have D: "2 ^ 63 \<le> ?D * 2 ^ s" "?D * 2 ^ s < 2 ^ 64"
  proof -
    have "(2 :: nat) ^ 31 * 2 ^ 32 \<le> ?D div 2 ^ 32 * 2 ^ s * 2 ^ 32" by (rule mult_right_mono [OF s(2)]) simp
    also have "\<dots> = (?D div 2 ^ 32 * 2 ^ 32) * 2 ^ s" by simp
    also have "\<dots> \<le> ?D * 2 ^ s" by (intro mult_right_mono) simp_all
    finally show "2 ^ 63 \<le> ?D * 2 ^ s" by simp
    have "?D < (?D div 2 ^ 32 + 1) * 2 ^ 32" using div_mult_mod_eq [of ?D "2 ^ 32"] by (simp add: dividend_less_div_times)
    then have "?D * 2 ^ s < (?D div 2 ^ 32 + 1) * 2 ^ 32 * 2 ^ s" by simp
    also have "\<dots> = (?D div 2 ^ 32 * 2 ^ s + 2 ^ s) * 2 ^ 32" by (simp add: algebra_simps)
    also have "\<dots> \<le> 2 ^ 32 * 2 ^ 32"
    proof (rule mult_right_mono)
      have "(2 :: nat) ^ 32 = 2 ^ (32 - s) * 2 ^ s" using s(1) by (simp flip: power_add)
      then have "?D div 2 ^ 32 * 2 ^ s < 2 ^ (32 - s) * 2 ^ s" using s(3) by (metis (no_types))
      then have "?D div 2 ^ 32 < 2 ^ (32 - s)" by simp
      then have "(?D div 2 ^ 32 + 1) * 2 ^ s \<le> 2 ^ (32 - s) * 2 ^ s" by (intro mult_right_mono) simp_all
      then show "?D div 2 ^ 32 * 2 ^ s + 2 ^ s \<le> 2 ^ 32" using \<open>2 ^ 32 = 2 ^ (32 - s) * 2 ^ s\<close> by simp
    qed simp
    finally show "?D * 2 ^ s < 2 ^ 64" by simp
  qed
  define v :: u32 where "v = ucast (drop_bit 32 (push_bit s d))"
  have v: "unat v = ?D * 2 ^ s div 2 ^ 32"
    unfolding v_def unat_high_32 using D(2) s(1) by (subst unat_push_bit) simp_all
  note est = quotient_estimate [OF unat_lt_64 [of n] D(1) s(1) v]
  have v0: "v \<noteq> 0" using est(3) by auto
  have h: "unat (drop_bit 1 n) = ?N div 2" by (simp add: drop_bit_eq_div unat_div)
  have "?N div 2 div unat v < 2 ^ 32"
  proof -
    have "?N div 2 < 2 ^ 63" using unat_lt_64 [of n] by simp
    also have "(2 :: nat) ^ 63 \<le> 2 ^ 32 * unat v" using est(3) by simp
    finally show ?thesis using est(3) by (simp add: div_less_iff_less_mult mult.commute)
  qed
  then obtain q where q: "divl (drop_bit 1 n) v = Some q" "unat q = ?N div 2 div unat v"
    using divl_ok [OF v0, of "drop_bit 1 n"] h by auto
  define Q :: u64 where "Q = ucast (drop_bit (31 - s) q)"
  have Q: "unat Q = ?N div 2 div (unat v * 2 ^ (31 - s))"
  proof -
    have "unat (drop_bit (31 - s) q) = unat q div 2 ^ (31 - s)" by (simp add: drop_bit_eq_div unat_div unat_two_power)
    then show ?thesis unfolding Q_def unat_ucast_64 q(2) by (simp add: div_mult2_eq)
  qed
  have QK: "?N div ?D \<le> unat Q" "unat Q \<le> ?N div ?D + 1" unfolding Q by (rule est(1), rule est(2))
  have "udiv64 n d = Some (if n - (Q - 1) * d < d then Q - 1 else Q)"
  proof -
    have "\<not> n < d" using d(2) by simp
    then show ?thesis
      using d(1) q(1) unfolding udiv64_def Let_def v_def s_def Q_def by (simp only: if_False simp_thms Option.bind.bind_lunit)
  qed
  moreover have "(if n - (Q - 1) * d < d then Q - 1 else Q) = n div d"
    by (rule correct_estimate [OF d(2) _ QK]) (use d(1) in auto)
  ultimately show ?thesis by simp
qed

lemma udiv64_eq: "udiv64 n d = (if d = 0 then None else Some (n div d))"
proof (cases "d = 0")
  case True
  then show ?thesis by (simp add: udiv64_def Let_def)
next
  case False
  consider "drop_bit 32 d = 0" | "drop_bit 32 d \<noteq> 0" "d \<le> n" | "drop_bit 32 d \<noteq> 0" "n < d" by (meson not_le)
  then show ?thesis
  proof cases
    case 3
    then have "unat (n div d) = 0" by (simp add: unat_div word_less_nat_alt)
    then have "n div d = 0" by (simp add: unat_eq_0)
    then show ?thesis using 3 False by (simp add: udiv64_def)
  qed (use False udiv64_small udiv64_large in simp_all)
qed

subsection \<open>Signed division\<close>

lemma word_of_int_sint: "word_of_int (sint x) = x"
  by simp

lemma abs_word:
  fixes x :: u64
  shows "unat (if sint x \<ge> 0 then x else - x) = nat \<bar>sint x\<bar>"
proof -
  have r: "- (2 ^ 63) \<le> sint x" "sint x < 2 ^ 63" using sint_ge [of x] sint_lt [of x] by simp_all
  have "uint (if sint x \<ge> 0 then x else - x) = \<bar>sint x\<bar>"
  proof (cases "sint x \<ge> 0")
    case True
    have "uint (word_of_int (sint x) :: u64) = sint x" using True r by (simp only: uint_word_of_int) simp
    then show ?thesis using True by simp
  next
    case False
    have "uint (word_of_int (- sint x) :: u64) = - sint x" using False r by (simp only: uint_word_of_int) simp
    then show ?thesis using False by simp
  qed
  then show ?thesis by (metis nat_uint_eq)
qed

lemma sdiv64_eq: "sdiv64 n d = (if d = 0 then None else Some (word_of_int (sint n sdiv sint d)))"
proof (cases "d = 0")
  case True
  then show ?thesis by (simp add: sdiv64_def udiv64_eq)
next
  case False
  define a b where "a = sint n" and "b = sint d"
  let ?n = "if sint n \<ge> 0 then n else - n" and ?d = "if sint d \<ge> 0 then d else - d"
  have b0: "b \<noteq> 0" unfolding b_def using False word_of_int_sint [of d] by (metis of_int_0)
  have d: "?d \<noteq> 0" using False by simp
  have "unat (?n div ?d) = nat \<bar>a\<bar> div nat \<bar>b\<bar>" unfolding unat_div abs_word a_def b_def by (rule refl)
  then have "int (unat (?n div ?d)) = \<bar>a\<bar> div \<bar>b\<bar>" by (simp add: zdiv_int)
  moreover have "?n div ?d = word_of_int (int (unat (?n div ?d)))" by simp
  ultimately have q: "?n div ?d = word_of_int (\<bar>a\<bar> div \<bar>b\<bar>)" by (simp only:)
  have "(if (a < 0) = (b < 0) then ?n div ?d else - (?n div ?d)) = word_of_int (a sdiv b)"
  proof (cases "a = 0")
    case True
    then show ?thesis unfolding q by (simp add: signed_divide_int_def)
  next
    case False
    then show ?thesis unfolding q using b0 by (auto simp: signed_divide_int_def sgn_if)
  qed
  moreover have "sdiv64 n d = Some (if (a < 0) = (b < 0) then ?n div ?d else - (?n div ?d))"
    unfolding sdiv64_def Let_def udiv64_eq a_def b_def using d by (simp only: if_False Option.bind.bind_lunit)
  ultimately show ?thesis using False by (simp add: a_def b_def)
qed

lemma umod64_eq: "umod64 n d = (if d = 0 then None else Some (ucast (n mod d)))"
  by (simp add: umod64_def udiv64_eq minus_mult_div_eq_mod)

lemma smod64_eq: "smod64 n d = (if d = 0 then None else Some (word_of_int (sint n smod sint d)))"
proof -
  have "n - d * word_of_int (sint n sdiv sint d) = word_of_int (sint n - sint d * (sint n sdiv sint d))" by simp
  also have "sint n - sint d * (sint n sdiv sint d) = sint n smod sint d" by (rule minus_mult_sdiv_eq_smod)
  finally have e: "n - d * word_of_int (sint n sdiv sint d) = word_of_int (sint n smod sint d)" .
  have "(ucast (word_of_int k :: u64) :: u32) = word_of_int k" for k
    by (rule bit_word_eqI) (auto simp: bit_simps)
  then show ?thesis by (simp add: smod64_def sdiv64_eq e)
qed

lemma smod_range:
  assumes "d \<noteq> 0"
  shows "\<bar>sint (n :: u64) smod sint (d :: u64)\<bar> < 2 ^ 63"
proof -
  have d: "sint d \<noteq> 0" using assms word_of_int_sint [of d] by (metis of_int_0)
  have "\<bar>sint n smod sint d\<bar> \<le> \<bar>sint n\<bar> mod \<bar>sint d\<bar>" using d by (simp add: signed_modulo_int_def abs_mult abs_sgn_eq pos_mod_sign)
  also have "\<dots> < \<bar>sint d\<bar>" using d by simp
  also have "\<dots> \<le> 2 ^ 63" using sint_ge [of d] sint_lt [of d] by simp
  finally show ?thesis .
qed

subsection \<open>Properties\<close>

text \<open>
  C17: The 64-bit division routines compute the exact unsigned and the truncating signed quotient
  for all arguments, without trapping, and trap exactly when the divisor is 0.
\<close>

theorem division_exact:
  "udivdi3 n d = (if d = 0 then None else Some (n div d)) \<and>
   divdi3 n d = (if d = 0 then None else Some (word_of_int (sint n sdiv sint d)))"
  by (simp add: udivdi3_def divdi3_def udiv64_eq sdiv64_eq)

text \<open>
  C39: The 64-bit remainder routines return the remainder exactly when it fits in 32 bits (unsigned
  or signed): the helpers behind them return 32-bit values.
\<close>

theorem remainder_truncated:
  assumes "d \<noteq> 0"
  shows "(umoddi3 n d = Some (n mod d) \<longleftrightarrow> unat (n mod d) < 2 ^ 32) \<and>
    (moddi3 n d = Some (word_of_int (sint n smod sint d)) \<longleftrightarrow> - (2 ^ 31) \<le> sint n smod sint d \<and> sint n smod sint d < 2 ^ 31)"
proof
  have "umoddi3 n d = Some (ucast (ucast (n mod d) :: u32))" using assms by (simp add: umoddi3_def umod64_eq)
  moreover have "unat (ucast (ucast (n mod d) :: u32) :: u64) = unat (n mod d) mod 2 ^ 32" by (simp only: unat_ucast_64 unat_low_32)
  moreover have "unat (n mod d) mod 2 ^ 32 = unat (n mod d) \<longleftrightarrow> unat (n mod d) < 2 ^ 32"
    by (metis mod_less mod_less_divisor zero_less_numeral zero_less_power)
  ultimately show "umoddi3 n d = Some (n mod d) \<longleftrightarrow> unat (n mod d) < 2 ^ 32" by (simp only: option.inject word_unat_eq_iff)
  define r where "r = sint n smod sint d"
  have "moddi3 n d = Some (scast (word_of_int r :: u32))" using assms by (simp add: moddi3_def smod64_eq r_def)
  moreover have "(scast (word_of_int r :: u32) :: u64) = word_of_int r \<longleftrightarrow> - (2 ^ 31) \<le> r \<and> r < 2 ^ 31"
  proof -
    have "\<bar>r\<bar> < 2 ^ 63" unfolding r_def by (rule smod_range [OF assms])
    then have s: "sint (word_of_int r :: u64) = r" by (simp add: sint_sbintrunc' signed_take_bit_int_eq_self)
    have "(scast (word_of_int r :: u32) :: u64) = word_of_int (signed_take_bit 31 r)" by (simp add: scast_eq sint_sbintrunc')
    moreover have "sint (word_of_int (signed_take_bit 31 r) :: u64) = signed_take_bit 31 r"
      by (simp add: sint_sbintrunc' signed_take_bit_signed_take_bit)
    moreover have "signed_take_bit 31 r = r \<longleftrightarrow> - (2 ^ 31) \<le> r \<and> r < 2 ^ 31" by (rule signed_take_bit_int_eq_self_iff)
    ultimately show ?thesis using s by metis
  qed
  ultimately show "moddi3 n d = Some (word_of_int (sint n smod sint d)) \<longleftrightarrow> - (2 ^ 31) \<le> sint n smod sint d \<and> sint n smod sint d < 2 ^ 31"
    by (simp only: option.inject r_def)
qed

theorem remainder_truncated_witness:
  "umoddi3 0x200000000 0x200000001 = Some 0 \<and> (0x200000000 :: u64) mod 0x200000001 = 0x200000000 \<and>
   umoddi3 0x200000000 0x200000001 \<noteq> Some (0x200000000 mod 0x200000001)"
proof -
  have m: "(0x200000000 :: u64) mod 0x200000001 = 0x200000000" by simp
  moreover have "umoddi3 0x200000000 0x200000001 = Some 0" by (simp add: umoddi3_def umod64_eq m)
  ultimately show ?thesis using remainder_truncated [of "0x200000001" "0x200000000"] by simp
qed
end
