(* ===== verification/Bitmap.thy ===== *)
theory Bitmap
  imports Prelude
begin

text \<open>
  \<open>lib/kernel/bitmap.c\<close>: arrays of bits packed into 32-bit elements.  \<open>bools\<close> abstracts a bitmap to the
  list of its bits; every operation is proved equal to an operation on that list.  The locale
  \<open>bit_allocator\<close> is the contract that the page allocator and the file system's free map use.
\<close>

subsection \<open>Elements and masks\<close>

record bitmap =
  bit_cnt :: size_t
  bits :: "u32 list"

definition ELEM_BITS :: size_t where "ELEM_BITS = 32"

definition BITMAP_ERROR :: size_t where "BITMAP_ERROR = - 1"

definition elem_idx :: "size_t \<Rightarrow> size_t" where
  "elem_idx bit_idx = bit_idx div ELEM_BITS"

definition bit_mask :: "size_t \<Rightarrow> u32" where
  "bit_mask bit_idx = push_bit (unat (bit_idx mod ELEM_BITS)) 1"

definition elem_cnt :: "size_t \<Rightarrow> size_t" where
  "elem_cnt n = (n + ELEM_BITS - 1) div ELEM_BITS"

definition byte_cnt :: "size_t \<Rightarrow> size_t" where
  "byte_cnt n = 4 * elem_cnt n"

definition last_mask :: "bitmap \<Rightarrow> u32" where
  "last_mask b = (let last_bits = bit_cnt b mod ELEM_BITS
     in if last_bits \<noteq> 0 then push_bit (unat last_bits) 1 - 1 else - 1)"

definition bitmap_size :: "bitmap \<Rightarrow> size_t" where
  "bitmap_size b = bit_cnt b"

subsection \<open>Single bits\<close>

text \<open>An access outside the array of elements is undefined in C and stops the model.\<close>

definition upd_elem :: "bitmap \<Rightarrow> size_t \<Rightarrow> (u32 \<Rightarrow> u32) \<Rightarrow> bitmap option" where
  "upd_elem b idx f = do {
     ASSERT (unat idx < length (bits b));
     Some (b\<lparr>bits := (bits b)[unat idx := f (bits b ! unat idx)]\<rparr>)
   }"

definition bitmap_mark :: "bitmap \<Rightarrow> size_t \<Rightarrow> bitmap option" where
  "bitmap_mark b bit_idx = upd_elem b (elem_idx bit_idx) (\<lambda>e. e OR bit_mask bit_idx)"

definition bitmap_reset :: "bitmap \<Rightarrow> size_t \<Rightarrow> bitmap option" where
  "bitmap_reset b bit_idx = upd_elem b (elem_idx bit_idx) (\<lambda>e. e AND NOT (bit_mask bit_idx))"

definition bitmap_flip :: "bitmap \<Rightarrow> size_t \<Rightarrow> bitmap option" where
  "bitmap_flip b bit_idx = upd_elem b (elem_idx bit_idx) (\<lambda>e. e XOR bit_mask bit_idx)"

definition bitmap_set :: "bitmap \<Rightarrow> size_t \<Rightarrow> bool \<Rightarrow> bitmap option" where
  "bitmap_set b idx v = do {
     ASSERT (idx < bit_cnt b);
     if v then bitmap_mark b idx else bitmap_reset b idx
   }"

definition bitmap_test :: "bitmap \<Rightarrow> size_t \<Rightarrow> bool option" where
  "bitmap_test b idx = do {
     ASSERT (idx < bit_cnt b);
     ASSERT (unat (elem_idx idx) < length (bits b));
     Some ((bits b ! unat (elem_idx idx)) AND bit_mask idx \<noteq> 0)
   }"

subsection \<open>Multiple bits\<close>

text \<open>The loops \<open>for (i = 0; i < cnt; i++)\<close>; the last argument is the number of turns left.\<close>

fun bitmap_set_loop :: "bitmap \<Rightarrow> size_t \<Rightarrow> bool \<Rightarrow> size_t \<Rightarrow> nat \<Rightarrow> bitmap option" where
  "bitmap_set_loop b start v i 0 = Some b"
| "bitmap_set_loop b start v i (Suc n) = do {
     b' \<leftarrow> bitmap_set b (start + i) v;
     bitmap_set_loop b' start v (i + 1) n
   }"

definition bitmap_set_multiple :: "bitmap \<Rightarrow> size_t \<Rightarrow> size_t \<Rightarrow> bool \<Rightarrow> bitmap option" where
  "bitmap_set_multiple b start cnt v = do {
     ASSERT (start \<le> bit_cnt b);
     ASSERT (start + cnt \<le> bit_cnt b);
     bitmap_set_loop b start v 0 (unat cnt)
   }"

definition bitmap_set_all :: "bitmap \<Rightarrow> bool \<Rightarrow> bitmap option" where
  "bitmap_set_all b v = bitmap_set_multiple b 0 (bitmap_size b) v"

fun bitmap_count_loop :: "bitmap \<Rightarrow> size_t \<Rightarrow> bool \<Rightarrow> size_t \<Rightarrow> nat \<Rightarrow> size_t \<Rightarrow> size_t option" where
  "bitmap_count_loop b start v i 0 value_cnt = Some value_cnt"
| "bitmap_count_loop b start v i (Suc n) value_cnt = do {
     t \<leftarrow> bitmap_test b (start + i);
     bitmap_count_loop b start v (i + 1) n (if t = v then value_cnt + 1 else value_cnt)
   }"

definition bitmap_count :: "bitmap \<Rightarrow> size_t \<Rightarrow> size_t \<Rightarrow> bool \<Rightarrow> size_t option" where
  "bitmap_count b start cnt v = do {
     ASSERT (start \<le> bit_cnt b);
     ASSERT (start + cnt \<le> bit_cnt b);
     bitmap_count_loop b start v 0 (unat cnt) 0
   }"

fun bitmap_contains_loop :: "bitmap \<Rightarrow> size_t \<Rightarrow> bool \<Rightarrow> size_t \<Rightarrow> nat \<Rightarrow> bool option" where
  "bitmap_contains_loop b start v i 0 = Some False"
| "bitmap_contains_loop b start v i (Suc n) = do {
     t \<leftarrow> bitmap_test b (start + i);
     if t = v then Some True else bitmap_contains_loop b start v (i + 1) n
   }"

definition bitmap_contains :: "bitmap \<Rightarrow> size_t \<Rightarrow> size_t \<Rightarrow> bool \<Rightarrow> bool option" where
  "bitmap_contains b start cnt v = do {
     ASSERT (start \<le> bit_cnt b);
     ASSERT (start + cnt \<le> bit_cnt b);
     bitmap_contains_loop b start v 0 (unat cnt)
   }"

definition bitmap_any :: "bitmap \<Rightarrow> size_t \<Rightarrow> size_t \<Rightarrow> bool option" where
  "bitmap_any b start cnt = bitmap_contains b start cnt True"

definition bitmap_none :: "bitmap \<Rightarrow> size_t \<Rightarrow> size_t \<Rightarrow> bool option" where
  "bitmap_none b start cnt = map_option Not (bitmap_contains b start cnt True)"

definition bitmap_all :: "bitmap \<Rightarrow> size_t \<Rightarrow> size_t \<Rightarrow> bool option" where
  "bitmap_all b start cnt = map_option Not (bitmap_contains b start cnt False)"

subsection \<open>Finding bits\<close>

partial_function (option) bitmap_scan_loop :: "bitmap \<Rightarrow> size_t \<Rightarrow> bool \<Rightarrow> size_t \<Rightarrow> size_t \<Rightarrow> size_t option" where
  "bitmap_scan_loop b cnt v lst i =
     (if i \<le> lst then do {
        c \<leftarrow> bitmap_contains b i cnt (\<not> v);
        if \<not> c then Some i else bitmap_scan_loop b cnt v lst (i + 1)
      } else Some BITMAP_ERROR)"

declare bitmap_scan_loop.simps [code]

definition bitmap_scan :: "bitmap \<Rightarrow> size_t \<Rightarrow> size_t \<Rightarrow> bool \<Rightarrow> size_t option" where
  "bitmap_scan b start cnt v = do {
     ASSERT (start \<le> bit_cnt b);
     if cnt \<le> bit_cnt b then bitmap_scan_loop b cnt v (bit_cnt b - cnt) start else Some BITMAP_ERROR
   }"

definition bitmap_scan_and_flip :: "bitmap \<Rightarrow> size_t \<Rightarrow> size_t \<Rightarrow> bool \<Rightarrow> (size_t \<times> bitmap) option" where
  "bitmap_scan_and_flip b start cnt v = do {
     idx \<leftarrow> bitmap_scan b start cnt v;
     if idx \<noteq> BITMAP_ERROR then do { b' \<leftarrow> bitmap_set_multiple b idx cnt (\<not> v); Some (idx, b') }
     else Some (idx, b)
   }"

subsection \<open>Creation\<close>

definition bitmap_buf_size :: "size_t \<Rightarrow> size_t" where
  "bitmap_buf_size n = 8 + byte_cnt n"

text \<open>
  \<open>bitmap_create\<close> gets the outcomes of its two calls of \<open>malloc\<close>: whether the structure could be allocated, and
  the uninitialised elements (\<open>None\<close> is the null pointer).  The result \<open>Some None\<close> is a null pointer.
\<close>

definition bitmap_create :: "bool \<Rightarrow> u32 list option \<Rightarrow> size_t \<Rightarrow> bitmap option option" where
  "bitmap_create struct_ok elems n =
     (if struct_ok then
        (case elems of
           Some es \<Rightarrow> map_option Some (bitmap_set_all \<lparr>bit_cnt = n, bits = es\<rparr> False)
         | None \<Rightarrow> if n = 0 then map_option Some (bitmap_set_all \<lparr>bit_cnt = n, bits = []\<rparr> False) else Some None)
      else Some None)"

text \<open>The elements of a bitmap in a preallocated block are what the block holds.\<close>

definition bitmap_create_in_buf :: "size_t \<Rightarrow> u32 list \<Rightarrow> size_t \<Rightarrow> bitmap option" where
  "bitmap_create_in_buf n block block_size = do {
     ASSERT (block_size \<ge> bitmap_buf_size n);
     bitmap_set_all \<lparr>bit_cnt = n, bits = block\<rparr> False
   }"

subsection \<open>Bitmaps in files\<close>

text \<open>The bytes of the elements in memory, least significant first.\<close>

definition word_bytes :: "u32 \<Rightarrow> u8 list" where
  "word_bytes w = [ucast w, ucast (drop_bit 8 w), ucast (drop_bit 16 w), ucast (drop_bit 24 w)]"

fun bytes_words :: "u8 list \<Rightarrow> u32 list" where
  "bytes_words (a # b # c # d # bs) =
     (ucast a OR push_bit 8 (ucast b) OR push_bit 16 (ucast c) OR push_bit 24 (ucast d)) # bytes_words bs"
| "bytes_words _ = []"

definition bitmap_file_size :: "bitmap \<Rightarrow> size_t" where
  "bitmap_file_size b = byte_cnt (bit_cnt b)"

text \<open>\<open>bitmap_read\<close> with the bytes that \<open>file_read_at\<close> stored over the beginning of the elements.\<close>

definition bitmap_read :: "bitmap \<Rightarrow> u8 list \<Rightarrow> (bool \<times> bitmap) option" where
  "bitmap_read b data =
     (if bit_cnt b > 0 then do {
        let sz = byte_cnt (bit_cnt b);
        let old = concat (map word_bytes (bits b));
        let b' = b\<lparr>bits := bytes_words (data @ drop (length data) old)\<rparr>;
        b'' \<leftarrow> upd_elem b' (elem_cnt (bit_cnt b) - 1) (\<lambda>e. e AND last_mask b);
        Some (length data = unat sz, b'')
      } else Some (True, b))"

text \<open>The bytes that \<open>bitmap_write\<close> passes to \<open>file_write_at\<close>.\<close>

definition bitmap_write_bytes :: "bitmap \<Rightarrow> u8 list" where
  "bitmap_write_bytes b = take (unat (byte_cnt (bit_cnt b))) (concat (map word_bytes (bits b)))"

subsection \<open>Bitmaps as lists of booleans\<close>

text \<open>A bitmap has the elements that its bits need; the bound keeps \<open>elem_cnt\<close> from wrapping around.\<close>

definition bm_wf :: "bitmap \<Rightarrow> bool" where
  "bm_wf b \<longleftrightarrow> unat (bit_cnt b) \<le> 2 ^ 32 - 32 \<and> length (bits b) = (unat (bit_cnt b) + 31) div 32"

definition bm_bit :: "bitmap \<Rightarrow> nat \<Rightarrow> bool" where
  "bm_bit b i = bit (bits b ! (i div 32)) (i mod 32)"

definition bools :: "bitmap \<Rightarrow> bool list" where
  "bools b = map (bm_bit b) [0..<unat (bit_cnt b)]"

lemma length_bools [simp]: "length (bools b) = unat (bit_cnt b)"
  by (simp add: bools_def)

lemma nth_bools: "i < unat (bit_cnt b) \<Longrightarrow> bools b ! i = bm_bit b i"
  by (simp add: bools_def)

lemma unat_elem_idx: "unat (elem_idx i) = unat i div 32"
  by (simp add: elem_idx_def ELEM_BITS_def unat_div)

lemma bit_bit_mask: "bit (bit_mask i) j \<longleftrightarrow> j = unat i mod 32"
  by (auto simp: bit_mask_def ELEM_BITS_def bit_push_bit_iff bit_1_iff bit_exp_iff unat_mod)

lemma elem_in_range: "bm_wf b \<Longrightarrow> i < unat (bit_cnt b) \<Longrightarrow> i div 32 < length (bits b)"
  by (simp add: bm_wf_def less_mult_imp_div_less)

lemma and_mask_eq_0: "x AND bit_mask i = 0 \<longleftrightarrow> \<not> bit x (unat i mod 32)"
proof
  assume "x AND bit_mask i = 0"
  then have "\<not> bit (x AND bit_mask i) (unat i mod 32)" by simp
  then show "\<not> bit x (unat i mod 32)" by (simp add: bit_and_iff bit_bit_mask)
next
  assume "\<not> bit x (unat i mod 32)"
  then show "x AND bit_mask i = 0" by (intro bit_word_eqI) (auto simp: bit_and_iff bit_bit_mask)
qed

lemma bitmap_test_eq:
  assumes "bm_wf b"
  shows "bitmap_test b idx = (if unat idx < unat (bit_cnt b) then Some (bools b ! unat idx) else None)"
  using assms elem_in_range [OF assms, of "unat idx"]
  by (simp add: bitmap_test_def unat_elem_idx and_mask_eq_0 nth_bools bm_bit_def word_less_nat_alt)

lemma bitmap_set_eq:
  assumes wf: "bm_wf b"
  shows "unat idx < unat (bit_cnt b) \<Longrightarrow> \<exists>b'. bitmap_set b idx v = Some b' \<and> bm_wf b' \<and> bit_cnt b' = bit_cnt b \<and>
      bools b' = (bools b)[unat idx := v]"
    and "\<not> unat idx < unat (bit_cnt b) \<Longrightarrow> bitmap_set b idx v = None"
proof -
  assume i: "unat idx < unat (bit_cnt b)"
  note r = elem_in_range [OF wf i]
  let ?j = "unat idx div 32"
  let ?e = "if v then bits b ! ?j OR bit_mask idx else bits b ! ?j AND NOT (bit_mask idx)"
  let ?b = "b\<lparr>bits := (bits b)[?j := ?e]\<rparr>"
  have s: "bitmap_set b idx v = Some ?b"
    using i r by (simp add: bitmap_set_def bitmap_mark_def bitmap_reset_def upd_elem_def unat_elem_idx word_less_nat_alt)
  have bt: "bit ?e k \<longleftrightarrow> (if k = unat idx mod 32 then v else bit (bits b ! ?j) k)" if "k < 32" for k
    using that by (auto simp: bit_or_iff bit_and_iff bit_not_iff bit_bit_mask)
  have "bools ?b = (bools b)[unat idx := v]"
  proof (rule nth_equalityI)
    fix k assume "k < length (bools ?b)"
    then have k: "k < unat (bit_cnt b)" by simp
    have "bm_bit ?b k = (if k = unat idx then v else bm_bit b k)"
    proof (cases "k div 32 = ?j")
      case True
      then have "k = unat idx \<longleftrightarrow> k mod 32 = unat idx mod 32" by (metis div_mod_decomp)
      with True r bt [of "k mod 32"] show ?thesis by (simp add: bm_bit_def)
    next
      case False
      then show ?thesis by (auto simp: bm_bit_def)
    qed
    with k show "bools ?b ! k = (bools b)[unat idx := v] ! k" by (simp add: nth_bools nth_list_update)
  qed simp
  with s wf show "\<exists>b'. bitmap_set b idx v = Some b' \<and> bm_wf b' \<and> bit_cnt b' = bit_cnt b \<and> bools b' = (bools b)[unat idx := v]"
    by (auto simp: bm_wf_def)
next
  assume "\<not> unat idx < unat (bit_cnt b)"
  then show "bitmap_set b idx v = None" by (simp add: bitmap_set_def word_less_nat_alt)
qed

text \<open>Writing a value to a range of a list.\<close>

definition fill :: "nat \<Rightarrow> nat \<Rightarrow> 'a \<Rightarrow> 'a list \<Rightarrow> 'a list" where
  "fill s n v xs = map (\<lambda>k. if s \<le> k \<and> k < s + n then v else xs ! k) [0..<length xs]"

lemma length_fill [simp]: "length (fill s n v xs) = length xs"
  by (simp add: fill_def)

lemma nth_fill: "k < length xs \<Longrightarrow> fill s n v xs ! k = (if s \<le> k \<and> k < s + n then v else xs ! k)"
  by (simp add: fill_def)

lemma fill_0 [simp]: "fill s 0 v xs = xs"
  by (rule nth_equalityI) (auto simp: nth_fill)

lemma fill_Suc: "s < length xs \<Longrightarrow> fill (Suc s) n v (xs[s := v]) = fill s (Suc n) v xs"
  by (rule nth_equalityI) (auto simp: nth_fill nth_list_update)

text \<open>All bits of a range have a value.\<close>

definition all_eq :: "'a list \<Rightarrow> nat \<Rightarrow> nat \<Rightarrow> 'a \<Rightarrow> bool" where
  "all_eq xs s n v \<longleftrightarrow> (\<forall>k<n. xs ! (s + k) = v)"

lemma all_eq_0 [simp]: "all_eq xs s 0 v"
  by (simp add: all_eq_def)

lemma all_eq_Suc: "all_eq xs s (Suc n) v \<longleftrightarrow> xs ! s = v \<and> all_eq xs (Suc s) n v"
  unfolding all_eq_def All_less_Suc2 by simp

lemma unat_plus_no_wrap:
  fixes x y :: "32 word"
  shows "unat x + unat y < 2 ^ 32 \<Longrightarrow> unat (x + y) = unat x + unat y"
  by (simp add: unat_word_ariths)

lemma bm_wf_bound: "bm_wf b \<Longrightarrow> unat (bit_cnt b) < 2 ^ 32 - 31"
  by (simp add: bm_wf_def)

lemma bitmap_set_loop_eq:
  assumes "bm_wf b" "unat start + unat i + n \<le> unat (bit_cnt b)"
  shows "\<exists>b'. bitmap_set_loop b start v i n = Some b' \<and> bm_wf b' \<and> bit_cnt b' = bit_cnt b \<and>
    bools b' = fill (unat start + unat i) n v (bools b)"
  using assms
proof (induction n arbitrary: b i)
  case (Suc n)
  have u: "unat (start + i) = unat start + unat i" "unat (i + 1) = Suc (unat i)"
    using Suc.prems bm_wf_bound [OF Suc.prems(1)] by (simp_all add: unat_plus_no_wrap unat_word_ariths)
  obtain b1 where b1: "bitmap_set b (start + i) v = Some b1" "bm_wf b1" "bit_cnt b1 = bit_cnt b"
    "bools b1 = (bools b)[unat start + unat i := v]"
    using bitmap_set_eq(1) [OF Suc.prems(1), of "start + i" v] u Suc.prems(2) by auto
  with Suc.IH [of b1 "i + 1"] Suc.prems(2) u fill_Suc [of "unat start + unat i" "bools b" n v] show ?case by auto
qed simp

text \<open>Past the last bit the loop panics.\<close>

lemma bitmap_set_loop_None:
  assumes "bm_wf b" "unat (start + i) \<le> unat (bit_cnt b)" "unat (bit_cnt b) < unat (start + i) + n"
  shows "bitmap_set_loop b start v i n = None"
  using assms
proof (induction n arbitrary: b i)
  case (Suc n)
  show ?case
  proof (cases "unat (start + i) < unat (bit_cnt b)")
    case True
    obtain b1 where b1: "bitmap_set b (start + i) v = Some b1" "bm_wf b1" "bit_cnt b1 = bit_cnt b"
      using bitmap_set_eq(1) [OF Suc.prems(1) True, of v] by blast
    have u: "unat (start + (i + 1)) = Suc (unat (start + i))"
    proof -
      have "unat (start + i + 1) = unat (start + i) + 1"
        using True bm_wf_bound [OF Suc.prems(1)] unat_plus_no_wrap [of "start + i" 1] by simp
      then show ?thesis by (simp add: add.assoc)
    qed
    with Suc.IH [of b1 "i + 1"] b1 Suc.prems True show ?thesis by simp
  next
    case False
    then show ?thesis using bitmap_set_eq(2) [OF Suc.prems(1) False] by simp
  qed
qed simp

lemma bitmap_set_multiple_eq:
  assumes wf: "bm_wf b"
  shows "if unat start + unat cnt \<le> unat (bit_cnt b)
    then \<exists>b'. bitmap_set_multiple b start cnt v = Some b' \<and> bm_wf b' \<and> bit_cnt b' = bit_cnt b \<and>
      bools b' = fill (unat start) (unat cnt) v (bools b)
    else bitmap_set_multiple b start cnt v = None"
proof (cases "unat start + unat cnt \<le> unat (bit_cnt b)")
  case True
  then have "unat (start + cnt) = unat start + unat cnt" using bm_wf_bound [OF wf] by (intro unat_plus_no_wrap) simp
  with True bitmap_set_loop_eq [OF wf, of start 0 "unat cnt" v] show ?thesis
    by (auto simp: bitmap_set_multiple_def word_le_nat_alt)
next
  case False
  then show ?thesis using bitmap_set_loop_None [OF wf, of start 0 "unat cnt" v]
    by (auto simp: bitmap_set_multiple_def word_le_nat_alt)
qed

lemma bitmap_contains_loop_eq:
  assumes wf: "bm_wf b" and le: "unat start + unat i + n \<le> unat (bit_cnt b)"
  shows "bitmap_contains_loop b start v i n = Some (\<not> all_eq (bools b) (unat start + unat i) n (\<not> v))"
  using le
proof (induction n arbitrary: i)
  case (Suc n)
  have u: "unat (start + i) = unat start + unat i" "unat (i + 1) = Suc (unat i)"
    using Suc.prems bm_wf_bound [OF wf] by (simp_all add: unat_plus_no_wrap unat_word_ariths)
  show ?case using Suc.IH [of "i + 1"] Suc.prems u by (auto simp: bitmap_test_eq [OF wf] all_eq_Suc)
qed simp

lemma bitmap_contains_eq:
  assumes wf: "bm_wf b" and le: "unat start + unat cnt \<le> unat (bit_cnt b)"
  shows "bitmap_contains b start cnt v = Some (\<not> all_eq (bools b) (unat start) (unat cnt) (\<not> v))"
proof -
  have "unat (start + cnt) = unat start + unat cnt" using le bm_wf_bound [OF wf] by (intro unat_plus_no_wrap) simp
  with le bitmap_contains_loop_eq [OF wf, of start 0 "unat cnt" v] show ?thesis
    by (simp add: bitmap_contains_def word_le_nat_alt)
qed

lemma bitmap_all_eq:
  "bm_wf b \<Longrightarrow> unat start + unat cnt \<le> unat (bit_cnt b) \<Longrightarrow>
    bitmap_all b start cnt = Some (all_eq (bools b) (unat start) (unat cnt) True)"
  by (simp add: bitmap_all_def bitmap_contains_eq)

text \<open>The first run of \<open>n\<close> bits with a value at or after \<open>s\<close>.\<close>

definition first_fit :: "'a list \<Rightarrow> nat \<Rightarrow> nat \<Rightarrow> 'a \<Rightarrow> nat option" where
  "first_fit xs s n v = find (\<lambda>k. all_eq xs k n v) [s..<Suc (length xs) - n]"

lemma first_fit_Some:
  "first_fit xs s n v = Some k \<longleftrightarrow> s \<le> k \<and> k + n \<le> length xs \<and> all_eq xs k n v \<and> (\<forall>j. s \<le> j \<and> j < k \<longrightarrow> \<not> all_eq xs j n v)"
  (is "?l \<longleftrightarrow> ?r")
proof
  assume ?l
  then obtain i where i: "i < Suc (length xs) - n - s" "all_eq xs (s + i) n v" "k = s + i" "\<forall>j<i. \<not> all_eq xs (s + j) n v"
    by (auto simp: first_fit_def find_Some_iff)
  have "\<not> all_eq xs j n v" if "s \<le> j" "j < k" for j using i(3,4) that by (auto dest: spec [of _ "j - s"])
  with i show ?r by auto
next
  assume ?r
  then have "k - s < length [s..<Suc (length xs) - n] \<and> all_eq xs ([s..<Suc (length xs) - n] ! (k - s)) n v \<and>
    k = [s..<Suc (length xs) - n] ! (k - s) \<and> (\<forall>j<k - s. \<not> all_eq xs ([s..<Suc (length xs) - n] ! j) n v)" by auto
  then show ?l unfolding first_fit_def find_Some_iff by blast
qed

lemma first_fit_None: "first_fit xs s n v = None \<longleftrightarrow> (\<forall>k. s \<le> k \<and> k + n \<le> length xs \<longrightarrow> \<not> all_eq xs k n v)"
  by (auto simp: first_fit_def find_None_iff)

definition scan_result :: "nat option \<Rightarrow> size_t" where
  "scan_result r = (case r of None \<Rightarrow> BITMAP_ERROR | Some k \<Rightarrow> of_nat k)"

lemma bitmap_scan_loop_eq:
  assumes wf: "bm_wf b" and c: "unat cnt \<le> unat (bit_cnt b)" and i: "unat i \<le> Suc (unat (bit_cnt b))"
  shows "bitmap_scan_loop b cnt v (bit_cnt b - cnt) i = Some (scan_result (first_fit (bools b) (unat i) (unat cnt) v))"
  using i
proof (induction "Suc (unat (bit_cnt b)) - unat i" arbitrary: i rule: less_induct)
  case less
  let ?N = "unat (bit_cnt b)" and ?n = "unat cnt"
  have l: "unat (bit_cnt b - cnt) = ?N - ?n" using c by (simp add: unat_sub word_le_nat_alt)
  show ?case
  proof (cases "unat i \<le> ?N - ?n")
    case False
    then have "[unat i..<Suc ?N - ?n] = []" using c by simp
    with False l show ?thesis
      by (subst bitmap_scan_loop.simps) (simp add: word_le_nat_alt first_fit_def scan_result_def)
  next
    case True
    have u: "unat (i + 1) = Suc (unat i)" using True bm_wf_bound [OF wf] by (simp add: unat_word_ariths)
    have f: "first_fit (bools b) (unat i) ?n v = (if all_eq (bools b) (unat i) ?n v then Some (unat i) else first_fit (bools b) (Suc (unat i)) ?n v)"
      using True c by (simp add: first_fit_def upt_conv_Cons)
    have "bitmap_contains b i cnt (\<not> v) = Some (\<not> all_eq (bools b) (unat i) ?n v)"
      using bitmap_contains_eq [OF wf, of i cnt "\<not> v"] True c by simp
    then have "bitmap_scan_loop b cnt v (bit_cnt b - cnt) i = (if all_eq (bools b) (unat i) ?n v then Some i
        else bitmap_scan_loop b cnt v (bit_cnt b - cnt) (i + 1))"
      using True l by (subst bitmap_scan_loop.simps) (simp add: word_le_nat_alt)
    with f less.hyps [of "i + 1"] u True show ?thesis by (auto simp: scan_result_def)
  qed
qed

lemma bitmap_scan_eq:
  assumes wf: "bm_wf b" and s: "unat start \<le> unat (bit_cnt b)"
  shows "bitmap_scan b start cnt v = Some (scan_result (first_fit (bools b) (unat start) (unat cnt) v))"
proof (cases "unat cnt \<le> unat (bit_cnt b)")
  case True
  with s bitmap_scan_loop_eq [OF wf True, of start v] show ?thesis by (simp add: bitmap_scan_def word_le_nat_alt)
next
  case False
  then have "first_fit (bools b) (unat start) (unat cnt) v = None" by (simp add: first_fit_None)
  with False s show ?thesis by (simp add: bitmap_scan_def word_le_nat_alt scan_result_def)
qed

lemma bitmap_scan_and_flip_eq:
  assumes wf: "bm_wf b" and s: "unat start \<le> unat (bit_cnt b)"
  shows "case first_fit (bools b) (unat start) (unat cnt) v of
      None \<Rightarrow> bitmap_scan_and_flip b start cnt v = Some (BITMAP_ERROR, b)
    | Some k \<Rightarrow> \<exists>b'. bitmap_scan_and_flip b start cnt v = Some (of_nat k, b') \<and> of_nat k \<noteq> BITMAP_ERROR \<and> bm_wf b' \<and>
        bit_cnt b' = bit_cnt b \<and> bools b' = fill k (unat cnt) (\<not> v) (bools b)"
proof (cases "first_fit (bools b) (unat start) (unat cnt) v")
  case None
  then show ?thesis using bitmap_scan_eq [OF assms, of cnt v] by (simp add: bitmap_scan_and_flip_def scan_result_def)
next
  case (Some k)
  then have k: "k + unat cnt \<le> unat (bit_cnt b)" by (simp add: first_fit_Some)
  then have u: "unat (of_nat k :: size_t) = k" using bm_wf_bound [OF wf] by (simp add: unat_of_nat)
  have "unat (BITMAP_ERROR) = 2 ^ 32 - 1" by (simp add: BITMAP_ERROR_def unsigned_minus_1_eq_mask mask_eq_exp_minus_1)
  then have e: "of_nat k \<noteq> BITMAP_ERROR" using u k bm_wf_bound [OF wf] by auto
  with Some k u bitmap_scan_eq [OF assms, of cnt v] bitmap_set_multiple_eq [OF wf, of "of_nat k" cnt "\<not> v"] show ?thesis
    by (auto simp: bitmap_scan_and_flip_def scan_result_def)
qed

subsection \<open>Round trip through a file\<close>

lemma bytes_words_Cons: "bytes_words (word_bytes w @ bs) = w # bytes_words bs"
proof -
  have "ucast (ucast w :: u8) OR push_bit 8 (ucast (ucast (drop_bit 8 w) :: u8)) OR
    push_bit 16 (ucast (ucast (drop_bit 16 w) :: u8)) OR push_bit 24 (ucast (ucast (drop_bit 24 w) :: u8)) = w" (is "?x = w")
  proof (rule bit_word_eqI)
    fix n assume "n < LENGTH(32)"
    then consider "n < 8" | "8 \<le> n" "n < 16" | "16 \<le> n" "n < 24" | "24 \<le> n" "n < 32" by fastforce
    then show "bit ?x n = bit w n"
      by cases (auto simp: bit_or_iff bit_push_bit_iff bit_ucast_iff bit_drop_bit_eq bit_unsigned_iff)
  qed
  then show ?thesis by (simp add: word_bytes_def)
qed

lemma bytes_words_word_bytes: "bytes_words (concat (map word_bytes ws)) = ws"
  by (induction ws) (simp_all add: bytes_words_Cons)

lemma length_word_bytes: "length (concat (map word_bytes ws)) = 4 * length ws"
  by (induction ws) (simp_all add: word_bytes_def)

lemma unat_elem_cnt:
  assumes "bm_wf b"
  shows "unat (elem_cnt (bit_cnt b)) = length (bits b)" "unat (byte_cnt (bit_cnt b)) = 4 * length (bits b)"
proof -
  have "unat (bit_cnt b + 32 - 1) = unat (bit_cnt b) + 31"
  proof -
    have "bit_cnt b + 32 - 1 = 31 + bit_cnt b" by simp
    moreover have "unat (31 + bit_cnt b) = unat (bit_cnt b) + 31" using assms by (simp add: bm_wf_def unat_word_ariths)
    ultimately show ?thesis by (simp only:)
  qed
  then show e: "unat (elem_cnt (bit_cnt b)) = length (bits b)" using assms by (simp add: elem_cnt_def ELEM_BITS_def unat_div bm_wf_def)
  have "4 * length (bits b) < 2 ^ 32" using assms by (auto simp: bm_wf_def less_mult_imp_div_less)
  then show "unat (byte_cnt (bit_cnt b)) = 4 * length (bits b)" using e by (simp add: byte_cnt_def unat_word_ariths)
qed

lemma bit_last_mask:
  assumes "n < 32" "unat (bit_cnt b) mod 32 \<noteq> 0 \<Longrightarrow> n < unat (bit_cnt b) mod 32"
  shows "bit (last_mask b) n"
proof (cases "bit_cnt b mod ELEM_BITS = 0")
  case False
  then have m: "unat (bit_cnt b mod ELEM_BITS) = unat (bit_cnt b) mod 32" by (simp add: ELEM_BITS_def unat_mod)
  then have "unat (bit_cnt b) mod 32 \<noteq> 0" using False by (metis unat_eq_0)
  with assms(2) have "n < unat (bit_cnt b) mod 32" by blast
  with False m assms(1) show ?thesis
    by (simp add: last_mask_def Let_def bit_mask_iff push_bit_eq_mult flip: mask_eq_exp_minus_1)
qed (use assms in \<open>simp add: last_mask_def\<close>)

lemma div_round_up: "c mod 32 \<noteq> 0 \<Longrightarrow> (c + 31) div 32 = Suc (c div 32)" for c :: nat
proof -
  assume "c mod 32 \<noteq> 0"
  then have e: "c + 31 = (c mod 32 - 1) + Suc (c div 32) * 32" using div_mult_mod_eq [of c 32] by simp
  have "c mod 32 - 1 < 32" using mod_less_divisor [of 32 c] by simp
  then show ?thesis unfolding e by simp
qed

lemma mod_less_same_div: "k < c \<Longrightarrow> k div n = c div n \<Longrightarrow> k mod n < c mod n" for k c n :: nat
  by (metis div_mult_mod_eq nat_add_left_cancel_less)

lemma bitmap_read_write:
  assumes wf: "bm_wf b" "bm_wf b0" "bit_cnt b0 = bit_cnt b"
  shows "\<exists>b'. bitmap_read b0 (bitmap_write_bytes b) = Some (True, b') \<and> bm_wf b' \<and> bit_cnt b' = bit_cnt b \<and> bools b' = bools b"
proof (cases "bit_cnt b = 0")
  case True
  with wf show ?thesis by (auto simp: bitmap_read_def bools_def)
next
  case False
  let ?l = "length (bits b) - 1"
  have w: "bitmap_write_bytes b = concat (map word_bytes (bits b))"
    by (simp add: bitmap_write_bytes_def unat_elem_cnt [OF wf(1)] length_word_bytes)
  have pos: "0 < unat (bit_cnt b)" using False by (simp add: unat_gt_0)
  have ln: "length (bits b0) = length (bits b)" "0 < length (bits b)" using wf pos by (simp_all add: bm_wf_def)
  have e: "unat (elem_cnt (bit_cnt b) - 1) = ?l"
  proof -
    have "elem_cnt (bit_cnt b) \<noteq> 0" using unat_elem_cnt(1) [OF wf(1)] ln(2) by auto
    then show ?thesis by (simp add: unat_minus_one unat_elem_cnt [OF wf(1)])
  qed
  let ?b = "b0\<lparr>bits := (bits b)[?l := bits b ! ?l AND last_mask b0]\<rparr>"
  have r: "bitmap_read b0 (bitmap_write_bytes b) = Some (True, ?b)"
    using False wf(3) ln e unat_elem_cnt [OF wf(1)]
    by (simp add: bitmap_read_def w length_word_bytes bytes_words_word_bytes upd_elem_def Let_def word_gt_0)
  have "bools ?b = bools b"
  proof (rule nth_equalityI)
    fix k assume "k < length (bools ?b)"
    then have k: "k < unat (bit_cnt b)" using wf(3) by simp
    have "bm_bit ?b k = bm_bit b k"
    proof (cases "k div 32 = ?l")
      case True
      have "bit (last_mask b0) (k mod 32)"
      proof (rule bit_last_mask)
        assume m: "unat (bit_cnt b0) mod 32 \<noteq> 0"
        have "?l = unat (bit_cnt b) div 32" using wf(1) div_round_up m wf(3) by (simp add: bm_wf_def)
        with True k show "k mod 32 < unat (bit_cnt b0) mod 32" unfolding wf(3) by (intro mod_less_same_div) simp_all
      qed simp
      with True ln show ?thesis by (simp add: bm_bit_def bit_and_iff)
    qed (simp add: bm_bit_def)
    with k wf(3) show "bools ?b ! k = bools b ! k" by (simp add: nth_bools)
  qed (simp add: wf(3))
  moreover have "bm_wf ?b" using wf ln by (simp add: bm_wf_def)
  ultimately show ?thesis using r wf(3) by auto
qed

subsection \<open>The interface of a bit allocator\<close>

text \<open>
  What the page allocator and the free map rely on: \<open>alloc\<close> takes the first run of free bits,
  \<open>set_range\<close> writes a range, \<open>all_used\<close> tests one.
\<close>

locale bit_allocator =
  fixes inv :: "'b \<Rightarrow> bool" and abs :: "'b \<Rightarrow> bool list"
    and alloc :: "'b \<Rightarrow> size_t \<Rightarrow> (size_t \<times> 'b) option"
    and set_range :: "'b \<Rightarrow> size_t \<Rightarrow> size_t \<Rightarrow> bool \<Rightarrow> 'b option"
    and all_used :: "'b \<Rightarrow> size_t \<Rightarrow> size_t \<Rightarrow> bool option"
  assumes small: "inv b \<Longrightarrow> length (abs b) < 2 ^ 32 - 31"
    and alloc: "inv b \<Longrightarrow> case first_fit (abs b) 0 (unat n) False of
        None \<Rightarrow> alloc b n = Some (BITMAP_ERROR, b)
      | Some k \<Rightarrow> \<exists>b'. alloc b n = Some (of_nat k, b') \<and> of_nat k \<noteq> BITMAP_ERROR \<and> inv b' \<and> abs b' = fill k (unat n) True (abs b)"
    and set_range: "inv b \<Longrightarrow> unat s + unat n \<le> length (abs b) \<Longrightarrow>
      \<exists>b'. set_range b s n v = Some b' \<and> inv b' \<and> abs b' = fill (unat s) (unat n) v (abs b)"
    and all_used: "inv b \<Longrightarrow> unat s + unat n \<le> length (abs b) \<Longrightarrow> all_used b s n = Some (all_eq (abs b) (unat s) (unat n) True)"
begin

text \<open>An allocation succeeds on free bits of the map and marks exactly them, or leaves the map alone.\<close>

lemma alloc_cases:
  assumes "inv b"
  obtains (full) "alloc b n = Some (BITMAP_ERROR, b)" "first_fit (abs b) 0 (unat n) False = None"
  | (run) i b' where "alloc b n = Some (i, b')" "i \<noteq> BITMAP_ERROR" "inv b'" "unat i + unat n \<le> length (abs b)"
      "all_eq (abs b) (unat i) (unat n) False" "abs b' = fill (unat i) (unat n) True (abs b)"
      "first_fit (abs b) 0 (unat n) False = Some (unat i)"
proof (cases "first_fit (abs b) 0 (unat n) False")
  case None
  with alloc [OF assms, of n] show ?thesis by (intro full) simp_all
next
  case (Some k)
  then have k: "k + unat n \<le> length (abs b)" "all_eq (abs b) k (unat n) False" by (simp_all add: first_fit_Some)
  then have "unat (of_nat k :: size_t) = k" using small [OF assms] by (simp add: unat_of_nat)
  with alloc [OF assms, of n] Some k show ?thesis using run by auto
qed

lemma alloc_inv: "inv b \<Longrightarrow> \<exists>i b'. alloc b n = Some (i, b') \<and> inv b' \<and> length (abs b') = length (abs b)"
  by (rule alloc_cases [of b n]) auto

lemma alloc_run:
  assumes "inv b" "alloc b n = Some (i, b')" "i \<noteq> BITMAP_ERROR"
  shows "inv b'" "unat i + unat n \<le> length (abs b)" "all_eq (abs b) (unat i) (unat n) False"
    "abs b' = fill (unat i) (unat n) True (abs b)"
  using assms(2,3) by (cases rule: alloc_cases [OF assms(1), of n]; simp)+

lemma all_eq_fill: "s + n \<le> length xs \<Longrightarrow> all_eq (fill s n v xs) s n v"
  by (simp add: all_eq_def nth_fill)

lemma fill_fill: "s + n \<le> length xs \<Longrightarrow> all_eq xs s n v \<Longrightarrow> fill s n v (fill s n u xs) = xs"
proof (rule nth_equalityI)
  fix i assume a: "all_eq xs s n v" "i < length (fill s n v (fill s n u xs))"
  have "xs ! i = v" if "s \<le> i" "i < s + n" using a(1) that by (auto simp: all_eq_def dest: spec [of _ "i - s"])
  with a(2) show "fill s n v (fill s n u xs) ! i = xs ! i" by (auto simp: nth_fill)
qed simp

text \<open>Releasing what was allocated restores the map.\<close>

lemma release_alloc:
  assumes "inv b" "alloc b n = Some (i, b')" "i \<noteq> BITMAP_ERROR"
  shows "all_used b' i n = Some True \<and> (\<exists>b''. set_range b' i n False = Some b'' \<and> inv b'' \<and> abs b'' = abs b)"
proof -
  note r = alloc_run [OF assms]
  have le: "unat i + unat n \<le> length (abs b')" using r by simp
  have "all_used b' i n = Some True" unfolding all_used [OF r(1) le] using all_eq_fill [OF r(2)] r(4) by simp
  moreover have "\<exists>b''. set_range b' i n False = Some b'' \<and> inv b'' \<and> abs b'' = abs b"
    using set_range [OF r(1) le, of False] fill_fill [OF r(2,3)] r(4) by simp
  ultimately show ?thesis by blast
qed

text \<open>A second allocation does not overlap bits that are in use.\<close>

lemma alloc_avoids_used:
  assumes "inv b" "alloc b n = Some (i, b')" "i \<noteq> BITMAP_ERROR" "unat i \<le> k" "k < unat i + unat n"
  shows "k < length (abs b) \<and> \<not> abs b ! k \<and> abs b' ! k"
proof -
  note r = alloc_run [OF assms(1-3)]
  have "k - unat i < unat n" using assms(4,5) by simp
  then have "abs b ! (unat i + (k - unat i)) = False" using r(3) unfolding all_eq_def by blast
  with r assms(4,5) show ?thesis by (simp add: nth_fill)
qed

lemma alloc_keeps_used:
  assumes "inv b" "alloc b n = Some (i, b')" "k < length (abs b)" "abs b ! k"
  shows "abs b' ! k"
  using assms(2-4) by (cases rule: alloc_cases [OF assms(1), of n]) (simp_all add: nth_fill)

end

interpretation bm: bit_allocator bm_wf bools "\<lambda>b n. bitmap_scan_and_flip b 0 n False" bitmap_set_multiple bitmap_all
proof unfold_locales
  fix b n assume wf: "bm_wf b"
  show "length (bools b) < 2 ^ 32 - 31" using bm_wf_bound [OF wf] by simp
  show "case first_fit (bools b) 0 (unat n) False of
      None \<Rightarrow> bitmap_scan_and_flip b 0 n False = Some (BITMAP_ERROR, b)
    | Some k \<Rightarrow> \<exists>b'. bitmap_scan_and_flip b 0 n False = Some (of_nat k, b') \<and> of_nat k \<noteq> BITMAP_ERROR \<and> bm_wf b' \<and>
        bools b' = fill k (unat n) True (bools b)"
    using bitmap_scan_and_flip_eq [OF wf, of 0 n False] by (auto split: option.splits)
next
  fix b :: bitmap and s n :: size_t and v :: bool assume "bm_wf b" "unat s + unat n \<le> length (bools b)"
  then show "\<exists>b'. bitmap_set_multiple b s n v = Some b' \<and> bm_wf b' \<and> bools b' = fill (unat s) (unat n) v (bools b)"
    using bitmap_set_multiple_eq [of b s n v] by auto
next
  fix b :: bitmap and s n :: size_t assume "bm_wf b" "unat s + unat n \<le> length (bools b)"
  then show "bitmap_all b s n = Some (all_eq (bools b) (unat s) (unat n) True)" by (simp add: bitmap_all_eq)
qed

subsection \<open>Creation\<close>

lemma bitmap_set_all_eq:
  assumes "bm_wf b"
  shows "\<exists>b'. bitmap_set_all b v = Some b' \<and> bm_wf b' \<and> bit_cnt b' = bit_cnt b \<and> bools b' = replicate (unat (bit_cnt b)) v"
proof -
  have "fill 0 (unat (bit_cnt b)) v (bools b) = replicate (unat (bit_cnt b)) v"
    by (rule nth_equalityI) (simp_all add: nth_fill)
  then show ?thesis using bitmap_set_multiple_eq [OF assms, of 0 "bit_cnt b" v] by (simp add: bitmap_set_all_def bitmap_size_def)
qed

lemma bitmap_create_eq:
  assumes "unat n \<le> 2 ^ 32 - 32" "length es = (unat n + 31) div 32"
  shows "\<exists>b. bitmap_create True (Some es) n = Some (Some b) \<and> bm_wf b \<and> bit_cnt b = n \<and> bools b = replicate (unat n) False"
  using bitmap_set_all_eq [of "\<lparr>bit_cnt = n, bits = es\<rparr>" False] assms by (auto simp: bitmap_create_def bm_wf_def)

subsection \<open>Claims\<close>

text \<open>
  \<open>bitmap_set_multiple\<close> succeeds exactly when start + cnt, without wrap-around, stays in the
  bitmap; a range that wraps around the word size fails an assertion.
\<close>

theorem bitmap_set_multiple_bounds:
  assumes "bm_wf b"
  shows "if unat start + unat cnt \<le> unat (bit_cnt b)
    then \<exists>b'. bitmap_set_multiple b start cnt v = Some b' \<and> bm_wf b' \<and> bit_cnt b' = bit_cnt b \<and>
      (\<forall>i<unat (bit_cnt b). bools b' ! i = (if unat start \<le> i \<and> i < unat start + unat cnt then v else bools b ! i))
    else bitmap_set_multiple b start cnt v = None"
  using bitmap_set_multiple_eq [OF assms, of start cnt v] by (auto simp: nth_fill split: if_splits)

text \<open>
  C18: bitmap_scan_and_flip finds the first run of cnt bits with the given value at or after start
  and flips exactly it, or returns BITMAP_ERROR and changes nothing.
\<close>

theorem bitmap_scan_and_flip_first_fit:
  assumes "bm_wf b" "unat start \<le> unat (bit_cnt b)"
  shows "\<exists>idx b'. bitmap_scan_and_flip b start cnt v = Some (idx, b') \<and> bm_wf b' \<and> bit_cnt b' = bit_cnt b \<and>
    (idx = BITMAP_ERROR \<longrightarrow> b' = b \<and> (\<forall>k. unat start \<le> k \<and> k + unat cnt \<le> unat (bit_cnt b) \<longrightarrow> \<not> all_eq (bools b) k (unat cnt) v)) \<and>
    (idx \<noteq> BITMAP_ERROR \<longrightarrow> unat start \<le> unat idx \<and> unat idx + unat cnt \<le> unat (bit_cnt b) \<and> all_eq (bools b) (unat idx) (unat cnt) v \<and>
       (\<forall>j. unat start \<le> j \<and> j < unat idx \<longrightarrow> \<not> all_eq (bools b) j (unat cnt) v) \<and> bools b' = fill (unat idx) (unat cnt) (\<not> v) (bools b))"
proof (cases "first_fit (bools b) (unat start) (unat cnt) v")
  case None
  with bitmap_scan_and_flip_eq [OF assms, of cnt v] assms show ?thesis by (auto simp: first_fit_None)
next
  case (Some k)
  then have k: "unat start \<le> k" "k + unat cnt \<le> unat (bit_cnt b)" "all_eq (bools b) k (unat cnt) v"
    "\<forall>j. unat start \<le> j \<and> j < k \<longrightarrow> \<not> all_eq (bools b) j (unat cnt) v" by (simp_all add: first_fit_Some)
  then have u: "unat (of_nat k :: size_t) = k" using bm_wf_bound [OF assms(1)] by (simp add: unat_of_nat)
  obtain b' where "bitmap_scan_and_flip b start cnt v = Some (of_nat k, b')" "of_nat k \<noteq> BITMAP_ERROR" "bm_wf b'"
    "bit_cnt b' = bit_cnt b" "bools b' = fill k (unat cnt) (\<not> v) (bools b)"
    using bitmap_scan_and_flip_eq [OF assms, of cnt v] Some by auto
  with k u show ?thesis by auto
qed

text \<open>
  C30: Reading the bytes bitmap_write stores gives back the same bits.
\<close>

theorem bitmap_file_roundtrip:
  assumes "bm_wf b" "bm_wf b0" "bit_cnt b0 = bit_cnt b"
  shows "\<exists>b'. bitmap_read b0 (bitmap_write_bytes b) = Some (True, b') \<and> bm_wf b' \<and> bools b' = bools b"
  using bitmap_read_write [OF assms] by blast

text \<open>A scan for no bits stops at its start, whatever that is.\<close>

lemma bitmap_scan_and_flip_zero:
  assumes "bm_wf b" "unat start \<le> unat (bit_cnt b)"
  shows "\<exists>b'. bitmap_scan_and_flip b start 0 v = Some (start, b') \<and> bools b' = bools b"
proof -
  have "first_fit (bools b) (unat start) 0 v = Some (unat start)" using assms(2) by (simp add: first_fit_Some)
  with bitmap_scan_and_flip_eq [OF assms, of 0 v] show ?thesis by auto
qed

definition sample_bitmap :: bitmap where
  "sample_bitmap = \<lparr>bit_cnt = 40, bits = [0xFF, 0xF0]\<rparr>"

lemma sample_bitmap_wf: "bm_wf sample_bitmap"
  by (simp add: bm_wf_def sample_bitmap_def)

theorem bitmap_set_multiple_bounds_witness:
  "bitmap_set_multiple sample_bitmap 38 0xFFFFFFFF True = None"
  using bitmap_set_multiple_bounds [OF sample_bitmap_wf, of 38 "0xFFFFFFFF" True] by (simp add: sample_bitmap_def)

theorem bitmap_scan_and_flip_first_fit_witness:
  "\<exists>idx b'. bitmap_scan_and_flip sample_bitmap 0 5 False = Some (idx, b') \<and> (idx \<noteq> BITMAP_ERROR \<longrightarrow> \<not> bools sample_bitmap ! unat idx)"
proof -
  have "unat (0 :: size_t) \<le> unat (bit_cnt sample_bitmap)" by simp
  from bitmap_scan_and_flip_first_fit [OF sample_bitmap_wf this, of 5 False]
  obtain idx b' where "bitmap_scan_and_flip sample_bitmap 0 5 False = Some (idx, b')"
    "idx \<noteq> BITMAP_ERROR \<longrightarrow> all_eq (bools sample_bitmap) (unat idx) (unat (5 :: size_t)) False" by blast
  then show ?thesis by (auto simp: all_eq_def dest: spec [of _ 0])
qed

theorem bitmap_file_roundtrip_witness:
  "\<exists>b'. bitmap_read \<lparr>bit_cnt = 40, bits = [0, 0]\<rparr> (bitmap_write_bytes sample_bitmap) = Some (True, b') \<and> bools b' = bools sample_bitmap"
  using bitmap_file_roundtrip [OF sample_bitmap_wf, of "\<lparr>bit_cnt = 40, bits = [0, 0]\<rparr>"] by (auto simp: bm_wf_def sample_bitmap_def)
end
