(* ===== verification/Block.thy ===== *)
theory Block
  imports Bitmap Kstring "HOL-Library.Signed_Division"
begin

text \<open>
  Block devices (\<open>devices/block.c\<close>): the registry of devices and access to their sectors.  A driver's \<open>read\<close> and \<open>write\<close>
  operations are seen through the sectors they transfer; a sector is a list of \<open>BLOCK_SECTOR_SIZE\<close> bytes.
\<close>

datatype block_type = BLOCK_KERNEL | BLOCK_FILESYS | BLOCK_SCRATCH | BLOCK_SWAP | BLOCK_RAW | BLOCK_FOREIGN

definition BLOCK_SECTOR_SIZE :: nat where "BLOCK_SECTOR_SIZE = 512"

record block =
  b_name :: "u8 list"
  b_type :: block_type
  b_size :: u32
  b_sectors :: "u32 \<Rightarrow> u8 list"
  b_read_cnt :: u64
  b_write_cnt :: u64

text \<open>The registered devices in probe order, and the device (by its position there) assigned to each role.\<close>

record registry =
  all_blocks :: "block list"
  block_by_role :: "block_type \<Rightarrow> nat option"

subsection \<open>The registry\<close>

definition is_role :: "block_type \<Rightarrow> bool" where
  "is_role t \<longleftrightarrow> t \<in> {BLOCK_KERNEL, BLOCK_FILESYS, BLOCK_SCRATCH, BLOCK_SWAP}"

fun block_type_name :: "block_type \<Rightarrow> string" where
  "block_type_name BLOCK_KERNEL = ''kernel''"
| "block_type_name BLOCK_FILESYS = ''filesys''"
| "block_type_name BLOCK_SCRATCH = ''scratch''"
| "block_type_name BLOCK_SWAP = ''swap''"
| "block_type_name BLOCK_RAW = ''raw''"
| "block_type_name BLOCK_FOREIGN = ''foreign''"

definition block_get_role :: "block_type \<Rightarrow> registry \<Rightarrow> nat option option" where
  "block_get_role role r = do { ASSERT (is_role role); Some (block_by_role r role) }"

definition block_set_role :: "block_type \<Rightarrow> nat option \<Rightarrow> registry \<Rightarrow> registry option" where
  "block_set_role role b r = do { ASSERT (is_role role); Some (r\<lparr>block_by_role := (block_by_role r)(role := b)\<rparr>) }"

text \<open>\<open>list_elem_to_block\<close>: the null pointer (\<open>None\<close>) stands for the end of the list.\<close>

definition list_elem_to_block :: "nat \<Rightarrow> registry \<Rightarrow> nat option" where
  "list_elem_to_block i r = (if i < length (all_blocks r) then Some i else None)"

definition block_first :: "registry \<Rightarrow> nat option" where
  "block_first r = list_elem_to_block 0 r"

definition block_next :: "nat \<Rightarrow> registry \<Rightarrow> nat option" where
  "block_next i r = list_elem_to_block (Suc i) r"

fun block_get_by_name_loop :: "u8 list \<Rightarrow> block list \<Rightarrow> nat \<Rightarrow> nat option" where
  "block_get_by_name_loop name [] i = None"
| "block_get_by_name_loop name (b # bs) i = (if name = b_name b then Some i else block_get_by_name_loop name bs (Suc i))"

definition block_get_by_name :: "u8 list \<Rightarrow> registry \<Rightarrow> nat option" where
  "block_get_by_name name r = block_get_by_name_loop name (all_blocks r) 0"

text \<open>\<open>block_register\<close>, given whether \<open>malloc\<close> succeeds; \<open>strlcpy\<close> cuts the name to 15 characters.\<close>

definition block_register :: "bool \<Rightarrow> u8 list \<Rightarrow> block_type \<Rightarrow> u32 \<Rightarrow> (u32 \<Rightarrow> u8 list) \<Rightarrow> registry \<Rightarrow> (nat \<times> registry) option" where
  "block_register malloc_ok name type sz contents r = do {
     ASSERT malloc_ok;
     Some (length (all_blocks r), r\<lparr>all_blocks := all_blocks r @
       [\<lparr>b_name = take 15 name, b_type = type, b_size = sz, b_sectors = contents, b_read_cnt = 0, b_write_cnt = 0\<rparr>]\<rparr>)
   }"

subsection \<open>Sectors\<close>

definition check_sector :: "block \<Rightarrow> u32 \<Rightarrow> unit option" where
  "check_sector block sector = (if sector \<ge> b_size block then None else Some ())"

definition block_read :: "block \<Rightarrow> u32 \<Rightarrow> (u8 list \<times> block) option" where
  "block_read block sector = do {
     check_sector block sector;
     Some (b_sectors block sector, block\<lparr>b_read_cnt := b_read_cnt block + 1\<rparr>)
   }"

definition block_write :: "block \<Rightarrow> u32 \<Rightarrow> u8 list \<Rightarrow> block option" where
  "block_write block sector buffer = do {
     check_sector block sector;
     ASSERT (b_type block \<noteq> BLOCK_FOREIGN);
     Some (block\<lparr>b_sectors := (b_sectors block)(sector := buffer), b_write_cnt := b_write_cnt block + 1\<rparr>)
   }"

definition block_size :: "block \<Rightarrow> u32" where "block_size block = b_size block"
definition block_name :: "block \<Rightarrow> u8 list" where "block_name block = b_name block"
definition block_type_of :: "block \<Rightarrow> block_type" where "block_type_of block = b_type block"

text \<open>What the file system needs of its device: writable, and every sector has the sector size.\<close>

definition dev_ok :: "block \<Rightarrow> bool" where
  "dev_ok d \<longleftrightarrow> b_type d \<noteq> BLOCK_FOREIGN \<and> (\<forall>i. i < b_size d \<longrightarrow> length (b_sectors d i) = 512)"

lemma block_read_ok: "i < b_size d \<Longrightarrow> block_read d i = Some (b_sectors d i, d\<lparr>b_read_cnt := b_read_cnt d + 1\<rparr>)"
  by (simp add: block_read_def check_sector_def)

lemma block_write_ok:
  assumes "dev_ok d" "i < b_size d" "length xs = 512"
  obtains d' where "block_write d i xs = Some d'" "dev_ok d'" "b_size d' = b_size d" "b_sectors d' = (b_sectors d)(i := xs)" "b_type d' = b_type d"
proof -
  have "block_write d i xs = Some (d\<lparr>b_sectors := (b_sectors d)(i := xs), b_write_cnt := b_write_cnt d + 1\<rparr>)"
    using assms by (simp add: block_write_def check_sector_def dev_ok_def not_le)
  moreover have "dev_ok (d\<lparr>b_sectors := (b_sectors d)(i := xs), b_write_cnt := b_write_cnt d + 1\<rparr>)"
    using assms by (simp add: dev_ok_def)
  ultimately show thesis by (rule that) simp_all
qed

lemma dev_ok_read_cnt [simp]: "dev_ok (d\<lparr>b_read_cnt := n\<rparr>) = dev_ok d"
  by (simp add: dev_ok_def)


end
