(* ===== verification/Inode.thy ===== *)
theory Inode
  imports Block
begin

text \<open>
  Inodes (\<open>filesys/inode.c\<close>): their layout on disk, and reading and writing the data of an inode sector by sector.  The
  state \<open>fs\<close> of the whole file system is declared here: the device, the inodes, files and directories in memory (by their
  addresses; 0 is the null pointer) and the free map.  The outcome of the \<open>n\<close>-th call of \<open>malloc\<close> or \<open>calloc\<close> is
  \<open>malloc_ok n\<close>; a successful one returns a new address.

  Offsets (\<open>off_t\<close>) are integers; where the code's arithmetic could leave 32 bits the wrap-around is written out.  The
  lemmas show that the sector loops read and write the byte sequence of the inode (\<open>data_byte\<close>) as one piece.
\<close>

subsection \<open>State\<close>

definition INODE_MAGIC :: u32 where "INODE_MAGIC = 0x494e4f44"

record inode_disk =
  start :: u32
  length_of :: int
  magic :: u32
  unused :: "u32 list"

record inode =
  sector :: u32
  open_cnt :: int
  removed :: bool
  deny_write_cnt :: int
  data :: inode_disk

record open_file =
  f_inode :: nat
  f_pos :: int
  deny_write :: bool

record dir =
  d_inode :: nat
  d_pos :: int

record fs =
  dev :: block
  open_inodes :: "nat list"
  inodes :: "nat \<Rightarrow> inode"
  files :: "nat \<Rightarrow> open_file"
  dirs :: "nat \<Rightarrow> dir"
  free_map :: bitmap
  free_map_file :: nat
  allocs :: nat
  malloc_ok :: "nat \<Rightarrow> bool"

definition malloc :: "fs \<Rightarrow> nat \<times> fs" where
  "malloc s = (if malloc_ok s (allocs s) then Suc (allocs s) else 0, s\<lparr>allocs := Suc (allocs s)\<rparr>)"

text \<open>No allocation fails.\<close>

definition memory_ok :: "fs \<Rightarrow> bool" where
  "memory_ok s \<longleftrightarrow> (\<forall>n. malloc_ok s n)"

text \<open>The bytes of an inode on disk.\<close>

definition inode_bytes :: "inode_disk \<Rightarrow> u8 list" where
  "inode_bytes d = word_bytes (start d) @ word_bytes (word_of_int (length_of d)) @ word_bytes (magic d) @
     concat (map word_bytes (unused d))"

definition bytes_inode :: "u8 list \<Rightarrow> inode_disk" where
  "bytes_inode bs = (let ws = bytes_words bs in
     \<lparr>start = ws ! 0, length_of = sint (ws ! 1), magic = ws ! 2, unused = drop 3 ws\<rparr>)"

definition bytes_to_sectors :: "int \<Rightarrow> size_t" where
  "bytes_to_sectors sz = word_of_int (wrap32 (sz + 511) sdiv 512)"

definition byte_to_sector :: "inode \<Rightarrow> int \<Rightarrow> u32" where
  "byte_to_sector inode pos =
     (if pos < length_of (data inode) then start (data inode) + word_of_int (pos sdiv 512) else - 1)"

definition inode_length :: "inode \<Rightarrow> int" where
  "inode_length inode = length_of (data inode)"

subsection \<open>Reading and writing\<close>

text \<open>The size of the next chunk, from the computations at the head of both loops.\<close>

definition chunk_size :: "inode \<Rightarrow> int \<Rightarrow> int \<Rightarrow> int" where
  "chunk_size inode sz offset =
     (let sector_ofs = offset smod 512;
          inode_left = wrap32 (inode_length inode - offset);
          sector_left = 512 - sector_ofs;
          min_left = (if inode_left < sector_left then inode_left else sector_left)
      in if sz < min_left then sz else min_left)"

text \<open>
  The loop of \<open>inode_read_at\<close>; \<open>bounce\<close> says whether the bounce buffer was allocated, \<open>acc\<close> holds the bytes already in the
  caller's buffer.  With a negative offset \<open>sector_ofs\<close> would be negative and \<open>memcpy\<close> read outside the bounce buffer.
\<close>

function inode_read_loop :: "inode \<Rightarrow> int \<Rightarrow> int \<Rightarrow> bool \<Rightarrow> u8 list \<Rightarrow> fs \<Rightarrow> (u8 list \<times> fs) option" where
  "inode_read_loop inode sz offset bounce acc s =
     (if sz > 0 then
        let sector_idx = byte_to_sector inode offset; sector_ofs = offset smod 512; chunk = chunk_size inode sz offset in
        if chunk \<le> 0 then Some (acc, s)
        else if sector_ofs = 0 \<and> chunk = 512 then do {
          (buf, d) \<leftarrow> block_read (dev s) sector_idx;
          inode_read_loop inode (sz - chunk) (offset + chunk) bounce (acc @ buf) (s\<lparr>dev := d\<rparr>)
        } else
          let (p, s) = (if bounce then (1, s) else malloc s) in
          if p = 0 then Some (acc, s)
          else do {
            (buf, d) \<leftarrow> block_read (dev s) sector_idx;
            ASSERT (sector_ofs \<ge> 0);
            inode_read_loop inode (sz - chunk) (offset + chunk) True (acc @ take (nat chunk) (drop (nat sector_ofs) buf)) (s\<lparr>dev := d\<rparr>)
          }
      else Some (acc, s))"
  by pat_completeness auto
termination
  by (relation "measure (\<lambda>(inode, sz, offset, bounce, acc, s). nat sz)") auto

text \<open>\<open>inode_read_at\<close>: the bytes read; their number is the return value.\<close>

definition inode_read_at :: "nat \<Rightarrow> int \<Rightarrow> int \<Rightarrow> fs \<Rightarrow> (u8 list \<times> fs) option" where
  "inode_read_at p sz offset s = inode_read_loop (inodes s p) sz offset False [] s"

text \<open>The loop of \<open>inode_write_at\<close> over the bytes \<open>buffer\<close> of the caller; \<open>n\<close> is \<open>bytes_written\<close>.\<close>

function inode_write_loop :: "inode \<Rightarrow> u8 list \<Rightarrow> int \<Rightarrow> int \<Rightarrow> bool \<Rightarrow> nat \<Rightarrow> fs \<Rightarrow> (nat \<times> fs) option" where
  "inode_write_loop inode buffer sz offset bounce n s =
     (if sz > 0 then
        let sector_idx = byte_to_sector inode offset; sector_ofs = offset smod 512; sector_left = 512 - sector_ofs;
            chunk = chunk_size inode sz offset in
        if chunk \<le> 0 then Some (n, s)
        else if sector_ofs = 0 \<and> chunk = 512 then do {
          d \<leftarrow> block_write (dev s) sector_idx (take 512 (drop n buffer));
          inode_write_loop inode buffer (sz - chunk) (offset + chunk) bounce (n + nat chunk) (s\<lparr>dev := d\<rparr>)
        } else
          let (p, s) = (if bounce then (1, s) else malloc s) in
          if p = 0 then Some (n, s)
          else do {
            (buf, d) \<leftarrow> (if sector_ofs > 0 \<or> chunk < sector_left then block_read (dev s) sector_idx
                         else Some (replicate 512 0, dev s));
            ASSERT (sector_ofs \<ge> 0);
            let buf = take (nat sector_ofs) buf @ take (nat chunk) (drop n buffer) @ drop (nat sector_ofs + nat chunk) buf;
            d \<leftarrow> block_write d sector_idx buf;
            inode_write_loop inode buffer (sz - chunk) (offset + chunk) True (n + nat chunk) (s\<lparr>dev := d\<rparr>)
          }
      else Some (n, s))"
  by pat_completeness auto
termination
  by (relation "measure (\<lambda>(inode, buffer, sz, offset, bounce, n, s). nat sz)") auto

definition inode_write_at :: "nat \<Rightarrow> u8 list \<Rightarrow> int \<Rightarrow> int \<Rightarrow> fs \<Rightarrow> (nat \<times> fs) option" where
  "inode_write_at p buffer sz offset s =
     (if deny_write_cnt (inodes s p) \<noteq> 0 then Some (0, s)
      else inode_write_loop (inodes s p) buffer sz offset False 0 s)"

declare inode_read_loop.simps [simp del] inode_write_loop.simps [simp del]

subsection \<open>The bytes of an inode\<close>

definition data_byte :: "block \<Rightarrow> inode_disk \<Rightarrow> nat \<Rightarrow> u8" where
  "data_byte dv d k = b_sectors dv (start d + of_nat (k div 512)) ! (k mod 512)"

text \<open>The data sectors of an inode lie on the device.\<close>

definition sector_cnt :: "int \<Rightarrow> nat" where
  "sector_cnt n = (nat n + 511) div 512"

definition extent_ok :: "block \<Rightarrow> inode_disk \<Rightarrow> bool" where
  "extent_ok dv d \<longleftrightarrow> dev_ok dv \<and> 0 \<le> length_of d \<and> length_of d < 2 ^ 31 \<and> unat (start d) + sector_cnt (length_of d) \<le> unat (b_size dv)"

definition contents :: "block \<Rightarrow> inode_disk \<Rightarrow> u8 list" where
  "contents dv d = map (data_byte dv d) [0..<nat (length_of d)]"

lemma wrap32_id: "- (2 ^ 31) \<le> x \<Longrightarrow> x < 2 ^ 31 \<Longrightarrow> wrap32 x = x"
  by (simp add: wrap32_def signed_take_bit_int_eq_self)

lemma sdiv_nat: "int a sdiv 512 = int (a div 512)" "int a smod 512 = int (a mod 512)"
  by (simp_all add: signed_divide_int_def signed_modulo_int_def sgn_if zdiv_int zmod_int minus_div_mult_eq_mod)

lemma data_byte_cnt [simp]: "data_byte (dv\<lparr>b_read_cnt := c\<rparr>) = data_byte dv"
  by (simp add: data_byte_def fun_eq_iff)

lemma extent_ok_cnt [simp]: "extent_ok (dv\<lparr>b_read_cnt := c\<rparr>) = extent_ok dv"
  by (simp add: extent_ok_def fun_eq_iff)

text \<open>A chunk stays in one sector and in the file.\<close>

lemma chunk_size_eq:
  assumes "extent_ok dv (data ino)" "off < 2 ^ 31"
  shows "chunk_size ino (int n) (int off) =
    min (int n) (min (length_of (data ino) - int off) (512 - int (off mod 512)))"
proof -
  have "wrap32 (inode_length ino - int off) = length_of (data ino) - int off"
    using assms by (intro trans [OF wrap32_id]) (auto simp: extent_ok_def inode_length_def)
  then show ?thesis by (simp add: chunk_size_def sdiv_nat Let_def min_def)
qed

lemma chunk_nat:
  assumes "extent_ok dv (data ino)" "off < 2 ^ 31" "length_of (data ino) = int L" "off < L"
  shows "chunk_size ino (int n) (int off) = int (min n (min (L - off) (512 - off mod 512)))"
proof -
  have "int (L - off) = int L - int off" using assms(4) by simp
  moreover have "int (512 - off mod 512) = 512 - int (off mod 512)" using mod_less_divisor [of 512 off] by (simp add: of_nat_diff)
  ultimately show ?thesis unfolding chunk_size_eq [OF assms(1,2)] assms(3) of_nat_min by simp
qed

lemma byte_to_sector_eq:
  assumes e: "extent_ok dv (data ino)" and off: "off < nat (length_of (data ino))"
  shows "byte_to_sector ino (int off) = start (data ino) + of_nat (off div 512)"
    "start (data ino) + of_nat (off div 512) < b_size dv"
    "unat (start (data ino) + of_nat (off div 512)) = unat (start (data ino)) + off div 512"
proof -
  show "byte_to_sector ino (int off) = start (data ino) + of_nat (off div 512)"
    using off by (simp add: byte_to_sector_def sdiv_nat zless_nat_eq_int_zless)
  have "off div 512 < sector_cnt (length_of (data ino))" using off by (simp add: sector_cnt_def)
  then have le: "unat (start (data ino)) + off div 512 < unat (b_size dv)" using e by (simp add: extent_ok_def)
  then have l2: "unat (start (data ino)) + off div 512 < 2 ^ 32" using unat_lt_32 [of "b_size dv"] by simp
  then have "unat (of_nat (off div 512) :: u32) = off div 512" by (simp add: unat_of_nat)
  with l2 show u: "unat (start (data ino) + of_nat (off div 512)) = unat (start (data ino)) + off div 512"
    by (simp add: unat_plus_no_wrap)
  show "start (data ino) + of_nat (off div 512) < b_size dv" unfolding word_less_nat_alt u by (rule le)
qed

lemma div_mod_add:
  assumes "off mod 512 + i < 512"
  shows "(off + i) div 512 = off div 512 \<and> (off + i) mod 512 = off mod 512 + (i :: nat)"
proof -
  have q: "(off + i) div 512 = off div 512"
  proof (rule div_nat_eqI)
    show "512 * (off div 512) \<le> off + i" using mult_div_mod_eq [of 512 off] by linarith
    show "off + i < 512 * Suc (off div 512)" unfolding mult_Suc_right using assms mult_div_mod_eq [of 512 off] by linarith
  qed
  moreover have "(off + i) mod 512 = off mod 512 + i"
    using mult_div_mod_eq [of 512 "off + i", unfolded q] mult_div_mod_eq [of 512 off] by linarith
  ultimately show ?thesis ..
qed

lemma sector_bytes:
  assumes "dev_ok dv" "start d + of_nat (off div 512) < b_size dv" "off mod 512 + c \<le> 512"
  shows "take c (drop (off mod 512) (b_sectors dv (start d + of_nat (off div 512)))) = map (data_byte dv d) [off..<off + c]"
proof (rule nth_equalityI)
  have l: "length (b_sectors dv (start d + of_nat (off div 512))) = 512" using assms by (simp add: dev_ok_def)
  then show "length (take c (drop (off mod 512) (b_sectors dv (start d + of_nat (off div 512))))) = length (map (data_byte dv d) [off..<off + c])"
    using assms(3) by simp
  fix i assume "i < length (take c (drop (off mod 512) (b_sectors dv (start d + of_nat (off div 512)))))"
  then have i: "i < c" "off mod 512 + i < 512" using l assms(3) by simp_all
  have "(off + i) div 512 = off div 512" "(off + i) mod 512 = off mod 512 + i"
    using div_mod_add [OF i(2)] by simp_all
  with i l assms(3) show "take c (drop (off mod 512) (b_sectors dv (start d + of_nat (off div 512)))) ! i = map (data_byte dv d) [off..<off + c] ! i"
    by (simp add: data_byte_def)
qed

definition reads :: "fs \<Rightarrow> fs \<Rightarrow> bool" where
  "reads s s' \<longleftrightarrow> (\<exists>c a. allocs s \<le> a \<and> s' = s\<lparr>dev := dev s\<lparr>b_read_cnt := c\<rparr>, allocs := a\<rparr>)"

lemma reads_refl: "reads s s"
  by (auto simp: reads_def intro!: exI [of _ "b_read_cnt (dev s)"])

lemma reads_trans:
  assumes "reads s s'" "reads s' s''"
  shows "reads s s''"
proof -
  obtain c a where s': "allocs s \<le> a" "s' = s\<lparr>dev := dev s\<lparr>b_read_cnt := c\<rparr>, allocs := a\<rparr>" using assms(1) by (auto simp: reads_def)
  obtain c' a' where s'': "allocs s' \<le> a'" "s'' = s'\<lparr>dev := dev s'\<lparr>b_read_cnt := c'\<rparr>, allocs := a'\<rparr>" using assms(2) by (auto simp: reads_def)
  have "s'' = s\<lparr>dev := dev s\<lparr>b_read_cnt := c'\<rparr>, allocs := a'\<rparr>" using s' s'' by simp
  then show ?thesis using s' s'' unfolding reads_def by (intro exI [of _ c'] exI [of _ a']) simp
qed

lemma reads_step: "reads s (s\<lparr>dev := dev s\<lparr>b_read_cnt := c\<rparr>\<rparr>)" "reads s (s\<lparr>allocs := Suc (allocs s), dev := dev s\<lparr>b_read_cnt := c\<rparr>\<rparr>)"
proof -
  have "s\<lparr>dev := dev s\<lparr>b_read_cnt := c\<rparr>\<rparr> = s\<lparr>dev := dev s\<lparr>b_read_cnt := c\<rparr>, allocs := allocs s\<rparr>" by simp
  then show "reads s (s\<lparr>dev := dev s\<lparr>b_read_cnt := c\<rparr>\<rparr>)" unfolding reads_def by blast
  show "reads s (s\<lparr>allocs := Suc (allocs s), dev := dev s\<lparr>b_read_cnt := c\<rparr>\<rparr>)"
    unfolding reads_def by (intro exI [of _ c] exI [of _ "Suc (allocs s)"]) simp
qed

lemma reads_sel:
  assumes "reads s s'"
  shows "extent_ok (dev s') = extent_ok (dev s)" "data_byte (dev s') = data_byte (dev s)" "inodes s' = inodes s" "files s' = files s"
    "dirs s' = dirs s" "free_map s' = free_map s" "free_map_file s' = free_map_file s" "open_inodes s' = open_inodes s"
    "b_sectors (dev s') = b_sectors (dev s)" "b_size (dev s') = b_size (dev s)" "dev_ok (dev s') = dev_ok (dev s)"
    "malloc_ok s' = malloc_ok s"
  using assms by (auto simp: reads_def)

text \<open>Without a bounce buffer the loop stops before the first chunk that is not a whole sector.\<close>

lemma inode_read_loop_any:
  assumes "extent_ok (dev s) (data ino)" "off < 2 ^ 31"
  shows "\<exists>k s'. inode_read_loop ino (int n) (int off) bounce acc s = Some (acc @ map (data_byte (dev s) (data ino)) [off..<off + k], s') \<and>
      reads s s' \<and> k \<le> min n (nat (length_of (data ino)) - off) \<and>
      (bounce \<or> malloc_ok s (allocs s) \<longrightarrow> k = min n (nat (length_of (data ino)) - off))"
  using assms
proof (induction n arbitrary: off bounce acc s rule: less_induct)
  case (less n)
  let ?d = "data ino"
  note ext = less.prems(1)
  have dok: "dev_ok (dev s)" using ext by (simp add: extent_ok_def)
  obtain L where L: "length_of ?d = int L" using ext by (metis extent_ok_def nonneg_int_cases)
  note ch = chunk_size_eq [OF ext less.prems(2), of n]
  show ?case
  proof (cases "0 < n \<and> off < L")
    case False
    then have "min n (L - off) = 0" by auto
    moreover have "inode_read_loop ino (int n) (int off) bounce acc s = Some (acc, s)"
      using False ch L by (subst inode_read_loop.simps) (auto simp: Let_def)
    ultimately show ?thesis using reads_refl L by (intro exI [of _ 0] exI [of _ s]) simp
  next
    case True
    define c where "c = min n (min (L - off) (512 - off mod 512))"
    have c: "0 < c" "c \<le> n" "off + c \<le> L" "off mod 512 + c \<le> 512" using True by (auto simp: c_def)
    have cs: "chunk_size ino (int n) (int off) = int c" using True chunk_nat [OF ext less.prems(2) L, of n] by (simp add: c_def)
    have lt: "off < nat (length_of ?d)" using True L by simp
    note sec = byte_to_sector_eq [OF ext lt]
    let ?i = "start ?d + of_nat (off div 512)"
    let ?dv = "(dev s)\<lparr>b_read_cnt := b_read_cnt (dev s) + 1\<rparr>"
    define s1 where "s1 = (if off mod 512 = 0 \<and> c = 512 then s else if bounce then s else snd (malloc s))"
    define b1 where "b1 = (bounce \<or> \<not> (off mod 512 = 0 \<and> c = 512))"
    have ds1: "dev s1 = dev s" by (simp add: s1_def malloc_def)
    have r1: "reads s (s1\<lparr>dev := ?dv\<rparr>)"
      using reads_step [of s "b_read_cnt (dev s) + 1"] by (simp add: s1_def malloc_def)
    have full: "b_sectors (dev s) ?i = take c (drop (off mod 512) (b_sectors (dev s) ?i))" if "off mod 512 = 0" "c = 512"
      using that dok sec(2) by (simp add: dev_ok_def)
    have bytes: "take c (drop (off mod 512) (b_sectors (dev s) ?i)) = map (data_byte (dev s) ?d) [off..<off + c]"
      by (rule sector_bytes [OF dok sec(2) c(4)])
    show ?thesis
    proof (cases "\<not> (off mod 512 = 0 \<and> c = 512) \<and> \<not> bounce \<and> \<not> malloc_ok s (allocs s)")
      case no_memory: True
      then have "inode_read_loop ino (int n) (int off) bounce acc s = Some (acc, s\<lparr>allocs := Suc (allocs s)\<rparr>)"
        using c(1,2) cs by (subst inode_read_loop.simps) (auto simp: Let_def sdiv_nat malloc_def)
      moreover have "reads s (s\<lparr>allocs := Suc (allocs s)\<rparr>)" using reads_step(2) [of s "b_read_cnt (dev s)"] by simp
      ultimately show ?thesis using no_memory by (intro exI [of _ 0] exI [of _ "s\<lparr>allocs := Suc (allocs s)\<rparr>"]) simp
    next
      case memory: False
      have step: "inode_read_loop ino (int n) (int off) bounce acc s =
        inode_read_loop ino (int (n - c)) (int (off + c)) b1 (acc @ map (data_byte (dev s) ?d) [off..<off + c]) (s1\<lparr>dev := ?dv\<rparr>)"
      proof (cases "off mod 512 = 0 \<and> c = 512")
        case True
        then show ?thesis
          using full bytes c(1,2) cs sec(1) block_read_ok [OF sec(2)]
          by (subst inode_read_loop.simps) (simp add: Let_def sdiv_nat s1_def b1_def of_nat_diff)
      next
        case False
        then show ?thesis
          using bytes c(1,2) cs sec(1) block_read_ok [OF sec(2)] memory
          by (subst inode_read_loop.simps) (auto simp: Let_def sdiv_nat s1_def b1_def of_nat_diff malloc_def)
      qed
      have lt1: "n - c < n" using c(1,2) by simp
      have ext1: "extent_ok (dev (s1\<lparr>dev := ?dv\<rparr>)) ?d" using ext by simp
      have off1: "off + c < 2 ^ 31" using c(3) L ext by (simp add: extent_ok_def)
      have al: "b1 \<or> malloc_ok (s1\<lparr>dev := ?dv\<rparr>) (allocs (s1\<lparr>dev := ?dv\<rparr>))" if "bounce \<or> malloc_ok s (allocs s)"
        using that by (auto simp: b1_def s1_def)
      obtain k s' where s': "inode_read_loop ino (int (n - c)) (int (off + c)) b1 (acc @ map (data_byte (dev s) ?d) [off..<off + c]) (s1\<lparr>dev := ?dv\<rparr>) =
        Some ((acc @ map (data_byte (dev s) ?d) [off..<off + c]) @ map (data_byte (dev s) ?d) [off + c..<off + c + k], s')"
        "reads (s1\<lparr>dev := ?dv\<rparr>) s'" "k \<le> min (n - c) (L - (off + c))"
        "b1 \<or> malloc_ok (s1\<lparr>dev := ?dv\<rparr>) (allocs (s1\<lparr>dev := ?dv\<rparr>)) \<longrightarrow> k = min (n - c) (L - (off + c))"
        using less.IH [OF lt1 ext1 off1, of b1 "acc @ map (data_byte (dev s) ?d) [off..<off + c]"] L by auto
      have "[off..<off + c] @ [off + c..<off + c + k] = [off..<off + (c + k)]" using upt_add_eq_append [of off "off + c" k] by (simp add: add.assoc)
      then have m: "map (data_byte (dev s) ?d) [off..<off + c] @ map (data_byte (dev s) ?d) [off + c..<off + c + k] =
        map (data_byte (dev s) ?d) [off..<off + (c + k)]" by (simp only: map_append [symmetric])
      have mn: "c + min (n - c) (L - (off + c)) = min n (L - off)" using c by auto
      have "inode_read_loop ino (int n) (int off) bounce acc s = Some (acc @ map (data_byte (dev s) ?d) [off..<off + (c + k)], s')"
        using step s'(1) unfolding append_assoc m by simp
      moreover have "c + k \<le> min n (L - off)" using s'(3) mn by linarith
      moreover have "c + k = min n (L - off)" if "bounce \<or> malloc_ok s (allocs s)" using mp [OF s'(4) al [OF that]] mn by simp
      ultimately show ?thesis using reads_trans [OF r1 s'(2)] L by (intro exI [of _ "c + k"] exI [of _ s']) simp
    qed
  qed
qed

lemma inode_read_loop_eq:
  assumes "extent_ok (dev s) (data ino)" "off < 2 ^ 31" "bounce \<or> malloc_ok s (allocs s)"
  shows "\<exists>s'. inode_read_loop ino (int n) (int off) bounce acc s =
      Some (acc @ map (data_byte (dev s) (data ino)) [off..<min (off + n) (nat (length_of (data ino)))], s') \<and> reads s s'"
proof -
  have "[off..<off + min n (L - off)] = [off..<min (off + n) L]" for L by (cases "off \<le> L") (auto simp: min_def)
  then show ?thesis using inode_read_loop_any [OF assms(1,2), of n bounce acc] assms(3) by auto
qed

text \<open>Writing a chunk into its sector changes the bytes of the chunk.\<close>

lemma extent_sector:
  assumes "extent_ok dv d" "k < 512 * sector_cnt (length_of d)"
  shows "unat (start d + of_nat (k div 512)) = unat (start d) + k div 512" "start d + of_nat (k div 512) < b_size dv"
proof -
  have "k div 512 < sector_cnt (length_of d)" using assms(2) by (simp add: less_mult_imp_div_less mult.commute)
  then have le: "unat (start d) + k div 512 < unat (b_size dv)" using assms(1) by (simp add: extent_ok_def)
  then have l2: "unat (start d) + k div 512 < 2 ^ 32" using unat_lt_32 [of "b_size dv"] by simp
  then have "unat (of_nat (k div 512) :: u32) = k div 512" by (simp add: unat_of_nat)
  with l2 show u: "unat (start d + of_nat (k div 512)) = unat (start d) + k div 512" by (simp add: unat_plus_no_wrap)
  show "start d + of_nat (k div 512) < b_size dv" unfolding word_less_nat_alt u by (rule le)
qed

lemma data_byte_write:
  assumes e: "extent_ok dv d" and off: "off < 512 * sector_cnt (length_of d)" and k: "k < 512 * sector_cnt (length_of d)"
    and c: "off mod 512 + c \<le> 512" "length xs = c"
    and dv': "b_sectors dv' = (b_sectors dv)(start d + of_nat (off div 512) :=
      take (off mod 512) (b_sectors dv (start d + of_nat (off div 512))) @ xs @
      drop (off mod 512 + c) (b_sectors dv (start d + of_nat (off div 512))))"
  shows "data_byte dv' d k = (if off \<le> k \<and> k < off + c then xs ! (k - off) else data_byte dv d k)"
proof (cases "k div 512 = off div 512")
  case False
  have "start d + of_nat (k div 512) \<noteq> start d + of_nat (off div 512)"
    using extent_sector(1) [OF e k] extent_sector(1) [OF e off] False by (metis add_left_cancel)
  moreover have "\<not> (off \<le> k \<and> k < off + c)"
  proof
    assume a: "off \<le> k \<and> k < off + c"
    then have "off mod 512 + (k - off) < 512" using c(1) by linarith
    from div_mod_add [OF this] a False show False by simp
  qed
  ultimately show ?thesis by (simp only: data_byte_def dv' fun_upd_other not_False_eq_True if_False)
next
  case True
  let ?o = "off mod 512" and ?old = "b_sectors dv (start d + of_nat (off div 512))"
  have l: "length ?old = 512" using e extent_sector(2) [OF e off] by (simp add: extent_ok_def dev_ok_def)
  have m: "k = 512 * (off div 512) + k mod 512" "off = 512 * (off div 512) + ?o" using True mult_div_mod_eq [of 512 k] by simp_all
  have i: "off \<le> k \<longleftrightarrow> ?o \<le> k mod 512" "k < off + c \<longleftrightarrow> k mod 512 < ?o + c" "k - off = k mod 512 - ?o"
    using m by linarith+
  have "k mod 512 < 512" by simp
  then have "(take ?o ?old @ xs @ drop (?o + c) ?old) ! (k mod 512) =
    (if ?o \<le> k mod 512 \<and> k mod 512 < ?o + c then xs ! (k mod 512 - ?o) else ?old ! (k mod 512))"
    using l c by (auto simp: nth_append)
  then show ?thesis unfolding data_byte_def dv' True fun_upd_same i by simp
qed

definition wrote :: "fs \<Rightarrow> fs \<Rightarrow> bool" where
  "wrote s s' \<longleftrightarrow> (\<exists>dv a. allocs s \<le> a \<and> s' = s\<lparr>dev := dv, allocs := a\<rparr> \<and> b_size dv = b_size (dev s) \<and> b_type dv = b_type (dev s))"

lemma wrote_sel:
  assumes "wrote s s'"
  shows "inodes s' = inodes s" "files s' = files s" "dirs s' = dirs s" "free_map s' = free_map s" "free_map_file s' = free_map_file s"
    "open_inodes s' = open_inodes s" "b_size (dev s') = b_size (dev s)" "b_type (dev s') = b_type (dev s)"
    "malloc_ok s' = malloc_ok s" "allocs s \<le> allocs s'"
  using assms by (auto simp: wrote_def)

lemma wrote_trans:
  assumes "wrote s s'" "wrote s' s''"
  shows "wrote s s''"
proof -
  obtain dv a where s': "allocs s \<le> a" "s' = s\<lparr>dev := dv, allocs := a\<rparr>" "b_size dv = b_size (dev s)" "b_type dv = b_type (dev s)"
    using assms(1) by (auto simp: wrote_def)
  obtain dv' a' where s'': "allocs s' \<le> a'" "s'' = s'\<lparr>dev := dv', allocs := a'\<rparr>" "b_size dv' = b_size (dev s')" "b_type dv' = b_type (dev s')"
    using assms(2) by (auto simp: wrote_def)
  have "s'' = s\<lparr>dev := dv', allocs := a'\<rparr>" using s' s'' by simp
  then show ?thesis using s' s'' unfolding wrote_def by (intro exI [of _ dv'] exI [of _ a']) simp
qed

lemma wrote_step:
  assumes "b_size dv = b_size (dev s)" "b_type dv = b_type (dev s)"
  shows "wrote s (s\<lparr>dev := dv\<rparr>)" "wrote s (s\<lparr>allocs := Suc (allocs s), dev := dv\<rparr>)" "wrote s s" "wrote s (s\<lparr>allocs := Suc (allocs s)\<rparr>)"
proof -
  show "wrote s (s\<lparr>dev := dv\<rparr>)"
    unfolding wrote_def by (intro exI [of _ dv] exI [of _ "allocs s"]) (simp add: assms)
  show "wrote s s"
    unfolding wrote_def by (intro exI [of _ "dev s"] exI [of _ "allocs s"]) simp
  show "wrote s (s\<lparr>allocs := Suc (allocs s)\<rparr>)"
    unfolding wrote_def by (intro exI [of _ "dev s"] exI [of _ "Suc (allocs s)"]) simp
  show "wrote s (s\<lparr>allocs := Suc (allocs s), dev := dv\<rparr>)"
    using assms unfolding wrote_def by (intro exI [of _ dv] exI [of _ "Suc (allocs s)"]) simp
qed

text \<open>\<open>xs\<close> written at \<open>off\<close>: the bytes of the inode, and no other sector, change.\<close>

definition written_at :: "block \<Rightarrow> block \<Rightarrow> inode_disk \<Rightarrow> nat \<Rightarrow> u8 list \<Rightarrow> bool" where
  "written_at dv dv' d off xs \<longleftrightarrow> extent_ok dv' d \<and>
     (\<forall>k < 512 * sector_cnt (length_of d). data_byte dv' d k =
        (if off \<le> k \<and> k < off + length xs then xs ! (k - off) else data_byte dv d k)) \<and>
     (\<forall>i. \<not> (unat (start d) \<le> unat i \<and> unat i < unat (start d) + sector_cnt (length_of d)) \<longrightarrow> b_sectors dv' i = b_sectors dv i)"

lemma written_at_Nil: "extent_ok dv d \<Longrightarrow> written_at dv dv d off []"
  by (auto simp: written_at_def)

lemma written_at_append:
  assumes "written_at dv dv1 d off xs" "written_at dv1 dv2 d (off + length xs) ys"
  shows "written_at dv dv2 d off (xs @ ys)"
  using assms unfolding written_at_def by (auto simp: nth_append)

lemma written_at_chunk:
  assumes e: "extent_ok dv d" and off: "off < 512 * sector_cnt (length_of d)" and c: "off mod 512 + length xs \<le> 512"
    and dv': "dev_ok dv'" "b_size dv' = b_size dv" "b_sectors dv' = (b_sectors dv)(start d + of_nat (off div 512) :=
      take (off mod 512) (b_sectors dv (start d + of_nat (off div 512))) @ xs @
      drop (off mod 512 + length xs) (b_sectors dv (start d + of_nat (off div 512))))"
  shows "written_at dv dv' d off xs"
  unfolding written_at_def
proof (intro conjI allI impI)
  show "extent_ok dv' d" using e dv' by (simp add: extent_ok_def)
  show "data_byte dv' d k = (if off \<le> k \<and> k < off + length xs then xs ! (k - off) else data_byte dv d k)"
    if "k < 512 * sector_cnt (length_of d)" for k using data_byte_write [OF e off that c refl dv'(3)] .
  fix i :: u32 assume i: "\<not> (unat (start d) \<le> unat i \<and> unat i < unat (start d) + sector_cnt (length_of d))"
  have "off div 512 < sector_cnt (length_of d)" using off by (simp add: less_mult_imp_div_less mult.commute)
  then have "i \<noteq> start d + of_nat (off div 512)" using i extent_sector(1) [OF e off] by auto
  then show "b_sectors dv' i = b_sectors dv i" using dv'(3) by simp
qed

lemma inode_write_loop_any:
  assumes "extent_ok (dev s) (data ino)" "off < 2 ^ 31" "n + m \<le> length buffer"
  shows "\<exists>w s'. inode_write_loop ino buffer (int m) (int off) bounce n s = Some (n + w, s') \<and> wrote s s' \<and>
      written_at (dev s) (dev s') (data ino) off (take w (drop n buffer)) \<and> w \<le> min m (nat (length_of (data ino)) - off) \<and>
      (bounce \<or> malloc_ok s (allocs s) \<longrightarrow> w = min m (nat (length_of (data ino)) - off))"
  using assms
proof (induction m arbitrary: off bounce n s rule: less_induct)
  case (less m)
  let ?d = "data ino"
  note ext = less.prems(1)
  have dok: "dev_ok (dev s)" using ext by (simp add: extent_ok_def)
  obtain L where L: "length_of ?d = int L" using ext by (metis extent_ok_def nonneg_int_cases)
  show ?case
  proof (cases "0 < m \<and> off < L")
    case False
    then have "min m (L - off) = 0" by auto
    moreover have "inode_write_loop ino buffer (int m) (int off) bounce n s = Some (n, s)"
    proof (cases "m = 0")
      case True
      then show ?thesis by (subst inode_write_loop.simps) simp
    next
      case m: False
      then have "chunk_size ino (int m) (int off) \<le> 0" using False chunk_size_eq [OF ext less.prems(2), of m] L by auto
      with m show ?thesis by (subst inode_write_loop.simps) (simp only: Let_def of_nat_0_less_iff neq0_conv [symmetric] if_True not_False_eq_True simp_thms)
    qed
    ultimately show ?thesis using written_at_Nil [OF ext] wrote_step(3) [of "dev s" s] L by (intro exI [of _ 0] exI [of _ s]) simp
  next
    case True
    define c where "c = min m (min (L - off) (512 - off mod 512))"
    have c: "0 < c" "c \<le> m" "off + c \<le> L" "off mod 512 + c \<le> 512" using True by (auto simp: c_def)
    have cs: "chunk_size ino (int m) (int off) = int c" using True chunk_nat [OF ext less.prems(2) L, of m] by (simp add: c_def)
    have lt: "off < nat (length_of ?d)" using True L by simp
    note sec = byte_to_sector_eq [OF ext lt]
    let ?i = "start ?d + of_nat (off div 512)" and ?x = "take c (drop n buffer)"
    let ?old = "b_sectors (dev s) ?i"
    have lo: "length ?old = 512" using dok sec(2) by (simp add: dev_ok_def)
    have lx: "length ?x = c" using less.prems(3) c(2) by simp
    have offs: "off < 512 * sector_cnt (length_of ?d)"
    proof -
      have "L \<le> 512 * ((L + 511) div 512)" by simp
      then show ?thesis using True L by (simp add: sector_cnt_def)
    qed
    let ?new = "take (off mod 512) ?old @ ?x @ drop (off mod 512 + c) ?old"
    have ln: "length ?new = 512" using lo lx c(4) by simp
    show ?thesis
    proof (cases "\<not> (off mod 512 = 0 \<and> c = 512) \<and> \<not> bounce \<and> \<not> malloc_ok s (allocs s)")
      case no_memory: True
      then have "inode_write_loop ino buffer (int m) (int off) bounce n s = Some (n, s\<lparr>allocs := Suc (allocs s)\<rparr>)"
        using c(1,2) cs by (subst inode_write_loop.simps) (auto simp: Let_def sdiv_nat malloc_def)
      then show ?thesis using no_memory written_at_Nil [OF ext, of off] wrote_step(4) [of "dev s" s]
        by (intro exI [of _ 0] exI [of _ "s\<lparr>allocs := Suc (allocs s)\<rparr>"]) simp
    next
      case memory: False
      obtain s1 b1 where step: "inode_write_loop ino buffer (int m) (int off) bounce n s =
          inode_write_loop ino buffer (int (m - c)) (int (off + c)) b1 (n + c) s1"
        and s1: "wrote s s1" "dev_ok (dev s1)" "b_sectors (dev s1) = (b_sectors (dev s))(?i := ?new)" "bounce \<or> malloc_ok s (allocs s) \<longrightarrow> b1 \<or> malloc_ok s1 (allocs s1)"
      proof (cases "off mod 512 = 0 \<and> c = 512")
        case True
        then have x: "?new = take 512 (drop n buffer)" using lo by simp
        obtain dv where dv: "block_write (dev s) ?i ?new = Some dv" "dev_ok dv" "b_size dv = b_size (dev s)"
          "b_sectors dv = (b_sectors (dev s))(?i := ?new)" "b_type dv = b_type (dev s)" by (rule block_write_ok [OF dok sec(2) ln])
        have "inode_write_loop ino buffer (int m) (int off) bounce n s =
          inode_write_loop ino buffer (int (m - c)) (int (off + c)) bounce (n + c) (s\<lparr>dev := dv\<rparr>)"
          using True dv(1) [unfolded x] c(1,2) cs sec(1) by (subst inode_write_loop.simps) (simp add: Let_def sdiv_nat of_nat_diff)
        then show thesis using that [of bounce "s\<lparr>dev := dv\<rparr>"] dv wrote_step(1) [OF dv(3,5)] by simp
      next
        case False
        let ?s = "if bounce then s else snd (malloc s)"
        let ?dr = "(dev s)\<lparr>b_read_cnt := b_read_cnt (dev s) + 1\<rparr>"
        have ds: "dev ?s = dev s" by (simp add: malloc_def)
        have sec': "?i < b_size ?dr" "dev_ok ?dr" using sec(2) dok by simp_all
        obtain dv where dv: "block_write ?dr ?i ?new = Some dv" "dev_ok dv" "b_size dv = b_size (dev s)"
          "b_sectors dv = (b_sectors (dev s))(?i := ?new)" "b_type dv = b_type (dev s)"
          using block_write_ok [OF sec'(2,1) ln] by auto
        have "inode_write_loop ino buffer (int m) (int off) bounce n s =
          inode_write_loop ino buffer (int (m - c)) (int (off + c)) True (n + c) (?s\<lparr>dev := dv\<rparr>)"
          using False dv(1) c cs sec(1) block_read_ok [OF sec(2)] memory
          by (subst inode_write_loop.simps) (auto simp: Let_def sdiv_nat of_nat_diff malloc_def)
        moreover have "wrote s (?s\<lparr>dev := dv\<rparr>)" using wrote_step(1,2) [OF dv(3,5)] by (simp add: malloc_def)
        ultimately show thesis using that [of True "?s\<lparr>dev := dv\<rparr>"] dv by simp
      qed
      have w1: "written_at (dev s) (dev s1) ?d off ?x"
        using written_at_chunk [OF ext offs, of ?x "dev s1"] c(4) lx s1(2,3) wrote_sel(7) [OF s1(1)] by simp
      have lt1: "m - c < m" using c(1,2) by simp
      have ext1: "extent_ok (dev s1) ?d" using w1 by (simp add: written_at_def)
      have off1: "off + c < 2 ^ 31" using c(3) L ext by (simp add: extent_ok_def)
      have le1: "n + c + (m - c) \<le> length buffer" using less.prems(3) c(2) by simp
      obtain w s' where s': "inode_write_loop ino buffer (int (m - c)) (int (off + c)) b1 (n + c) s1 = Some (n + c + w, s')"
        "wrote s1 s'" "written_at (dev s1) (dev s') ?d (off + c) (take w (drop (n + c) buffer))" "w \<le> min (m - c) (L - (off + c))"
        "b1 \<or> malloc_ok s1 (allocs s1) \<longrightarrow> w = min (m - c) (L - (off + c))"
        using less.IH [OF lt1 ext1 off1 le1, of b1] L by auto
      have mn: "c + min (m - c) (L - (off + c)) = min m (L - off)" using c by auto
      have tk: "?x @ take w (drop (n + c) buffer) = take (c + w) (drop n buffer)" by (simp add: take_add add.commute)
      have "written_at (dev s1) (dev s') ?d (off + length ?x) (take w (drop (n + c) buffer))" unfolding lx by (rule s'(3))
      from written_at_append [OF w1 this] have "written_at (dev s) (dev s') ?d off (take (c + w) (drop n buffer))" unfolding tk .
      moreover have "c + w \<le> min m (L - off)" using s'(4) mn by linarith
      moreover have "c + w = min m (L - off)" if "bounce \<or> malloc_ok s (allocs s)" using mp [OF s'(5) mp [OF s1(4) that]] mn by simp
      moreover have "inode_write_loop ino buffer (int m) (int off) bounce n s = Some (n + (c + w), s')" using step s'(1) by (simp add: add.assoc)
      ultimately show ?thesis using wrote_trans [OF s1(1) s'(2)] L by (intro exI [of _ "c + w"] exI [of _ s']) simp
    qed
  qed
qed

lemma inode_write_loop_eq:
  assumes "extent_ok (dev s) (data ino)" "off < 2 ^ 31" "bounce \<or> malloc_ok s (allocs s)" "n + m \<le> length buffer"
  shows "\<exists>s'. let w = min m (nat (length_of (data ino)) - off) in
      inode_write_loop ino buffer (int m) (int off) bounce n s = Some (n + w, s') \<and> wrote s s' \<and>
      written_at (dev s) (dev s') (data ino) off (take w (drop n buffer))"
  using inode_write_loop_any [OF assms(1,2,4), of bounce] assms(3) by (auto simp: Let_def)

text \<open>A whole call, from outside the loop.\<close>

lemma inode_read_at_any:
  assumes "extent_ok (dev s) (data (inodes s p))" "off < 2 ^ 31"
  defines "c \<equiv> contents (dev s) (data (inodes s p))"
  shows "\<exists>k s'. inode_read_at p (int n) (int off) s = Some (take k (drop off c), s') \<and> reads s s' \<and> k \<le> min n (length c - off) \<and>
    (malloc_ok s (allocs s) \<longrightarrow> k = min n (length c - off))"
proof -
  have e: "map g [off..<off + k] = take k (drop off (map g [0..<L]))" if "k \<le> L - off" for g :: "nat \<Rightarrow> u8" and k L
    using that by (cases "k = 0") (simp_all add: take_map drop_map take_upt drop_upt)
  have lc: "length c = nat (length_of (data (inodes s p)))" by (simp add: c_def contents_def)
  obtain k s' where k: "inode_read_at p (int n) (int off) s = Some (map (data_byte (dev s) (data (inodes s p))) [off..<off + k], s')"
    "reads s s'" "k \<le> min n (length c - off)" "malloc_ok s (allocs s) \<longrightarrow> k = min n (length c - off)"
    using inode_read_loop_any [OF assms(1,2), of n False "[]"] by (auto simp: inode_read_at_def lc)
  have "k \<le> nat (length_of (data (inodes s p))) - off" using k(3) lc by simp
  from e [OF this] have "map (data_byte (dev s) (data (inodes s p))) [off..<off + k] = take k (drop off c)" unfolding c_def contents_def .
  then show ?thesis using k by (intro exI [of _ k] exI [of _ s']) simp
qed

text \<open>A read or write of less than a sector needs the bounce buffer.\<close>

lemma inode_at_no_memory:
  assumes ext: "extent_ok (dev s) (data (inodes s p))" and off: "off < nat (length_of (data (inodes s p)))" and n: "0 < n" "n < 512"
    and mem: "\<not> malloc_ok s (allocs s)"
  shows "inode_read_at p (int n) (int off) s = Some ([], s\<lparr>allocs := Suc (allocs s)\<rparr>)"
    "deny_write_cnt (inodes s p) = 0 \<Longrightarrow> inode_write_at p buffer (int n) (int off) s = Some (0, s\<lparr>allocs := Suc (allocs s)\<rparr>)"
proof -
  obtain L where L: "length_of (data (inodes s p)) = int L" using ext by (metis extent_ok_def nonneg_int_cases)
  have o31: "off < 2 ^ 31" using off ext by (auto simp: extent_ok_def)
  define c where "c = min n (min (L - off) (512 - off mod 512))"
  have c: "0 < c" "c \<noteq> 512" using n off L by (auto simp: c_def)
  have cs: "chunk_size (inodes s p) (int n) (int off) = int c" using off n(1) L chunk_nat [OF ext o31 L, of n] by (simp add: c_def)
  show "inode_read_at p (int n) (int off) s = Some ([], s\<lparr>allocs := Suc (allocs s)\<rparr>)"
    unfolding inode_read_at_def using c n mem cs by (subst inode_read_loop.simps) (auto simp: Let_def malloc_def)
  show "inode_write_at p buffer (int n) (int off) s = Some (0, s\<lparr>allocs := Suc (allocs s)\<rparr>)" if "deny_write_cnt (inodes s p) = 0"
    unfolding inode_write_at_def using that c n mem cs by (subst inode_write_loop.simps) (auto simp: Let_def malloc_def)
qed

lemma inode_read_at_eq:
  assumes "extent_ok (dev s) (data (inodes s p))" "off < 2 ^ 31" "malloc_ok s (allocs s)"
  shows "\<exists>s'. inode_read_at p (int n) (int off) s = Some (take n (drop off (contents (dev s) (data (inodes s p)))), s') \<and> reads s s'"
proof -
  have e: "[off..<min (off + n) L] = take n (drop off [0..<L])" for L by (simp add: take_upt drop_upt min_def)
  then show ?thesis
    using inode_read_loop_eq [OF assms(1,2), of False n "[]"] assms(3)
    by (simp add: inode_read_at_def contents_def take_map drop_map)
qed

lemma contents_written:
  assumes "written_at dv dv' d off xs" "off + length xs \<le> nat (length_of d)"
  shows "contents dv' d = take off (contents dv d) @ xs @ drop (off + length xs) (contents dv d)"
proof (rule nth_equalityI)
  show "length (contents dv' d) = length (take off (contents dv d) @ xs @ drop (off + length xs) (contents dv d))"
    using assms(2) by (simp add: contents_def)
  fix i assume "i < length (contents dv' d)"
  then have i: "i < nat (length_of d)" by (simp add: contents_def)
  have "nat (length_of d) \<le> 512 * sector_cnt (length_of d)" by (simp add: sector_cnt_def)
  then have "data_byte dv' d i = (if off \<le> i \<and> i < off + length xs then xs ! (i - off) else data_byte dv d i)"
    using assms(1) i by (simp add: written_at_def)
  then show "contents dv' d ! i = (take off (contents dv d) @ xs @ drop (off + length xs) (contents dv d)) ! i"
    using i assms(2) by (auto simp: contents_def nth_append)
qed

lemma inode_write_at_any:
  assumes "extent_ok (dev s) (data (inodes s p))" "off < 2 ^ 31" "m \<le> length buffer"
  defines "W \<equiv> min m (nat (length_of (data (inodes s p))) - off)"
  shows "\<exists>w s'. inode_write_at p buffer (int m) (int off) s = Some (w, s') \<and> wrote s s' \<and>
    written_at (dev s) (dev s') (data (inodes s p)) off (take w buffer) \<and> w \<le> W \<and>
    (deny_write_cnt (inodes s p) \<noteq> 0 \<longrightarrow> w = 0 \<and> s' = s) \<and> (deny_write_cnt (inodes s p) = 0 \<and> malloc_ok s (allocs s) \<longrightarrow> w = W)"
proof (cases "deny_write_cnt (inodes s p) = 0")
  case True
  then show ?thesis using inode_write_loop_any [OF assms(1,2), of 0 m buffer False] assms(3) by (simp add: inode_write_at_def W_def)
next
  case False
  then show ?thesis using written_at_Nil [OF assms(1)] wrote_step(3) [of "dev s" s]
    by (intro exI [of _ 0] exI [of _ s]) (simp add: inode_write_at_def)
qed

lemma inode_write_at_eq:
  assumes "extent_ok (dev s) (data (inodes s p))" "off < 2 ^ 31" "malloc_ok s (allocs s)" "deny_write_cnt (inodes s p) = 0" "m \<le> length buffer"
  defines "w \<equiv> min m (nat (length_of (data (inodes s p))) - off)"
  shows "\<exists>s'. inode_write_at p buffer (int m) (int off) s = Some (w, s') \<and> wrote s s' \<and>
    written_at (dev s) (dev s') (data (inodes s p)) off (take w buffer)"
  using inode_write_loop_eq [OF assms(1,2), of False 0 m buffer] assms(3,4,5)
  by (simp add: inode_write_at_def w_def Let_def)

subsection \<open>Properties\<close>

text \<open>
  C7: On an inode whose data sectors lie on the device, inode_write_at at any offset that is not
  negative returns, touches no other sector, and replaces in the byte sequence of the inode the
  bytes from the offset on by the first w bytes of the buffer, where w is its result; w is 0 if
  writing is denied, and otherwise all that fits before the end of the inode unless the bounce
  buffer cannot be allocated, in which case it may be less. inode_read_at then returns these w
  bytes, or a prefix of them if an allocation fails.
\<close>

theorem inode_write_read:
  assumes ext: "extent_ok (dev s) (data (inodes s p))" and off: "off < 2 ^ 31" and buf: "m \<le> length buffer"
  defines "c \<equiv> contents (dev s) (data (inodes s p))"
  defines "W \<equiv> min m (length c - off)"
  shows "\<exists>w s'. inode_write_at p buffer (int m) (int off) s = Some (w, s') \<and> inodes s' = inodes s \<and> w \<le> W \<and>
    (deny_write_cnt (inodes s p) \<noteq> 0 \<longrightarrow> w = 0 \<and> s' = s) \<and>
    (deny_write_cnt (inodes s p) = 0 \<and> malloc_ok s (allocs s) \<longrightarrow> w = W) \<and>
    contents (dev s') (data (inodes s p)) = (if off \<le> length c then take off c @ take w buffer @ drop (off + w) c else c) \<and>
    (\<exists>k s''. inode_read_at p (int w) (int off) s' = Some (take k buffer, s'') \<and> k \<le> w \<and> (memory_ok s \<longrightarrow> k = w)) \<and>
    (\<forall>i. \<not> (unat (start (data (inodes s p))) \<le> unat i \<and> unat i < unat (start (data (inodes s p))) + sector_cnt (int (length c))) \<longrightarrow>
       b_sectors (dev s') i = b_sectors (dev s) i)"
proof -
  let ?d = "data (inodes s p)"
  have lc: "length c = nat (length_of ?d)" by (simp add: c_def contents_def)
  obtain w s' where s': "inode_write_at p buffer (int m) (int off) s = Some (w, s')" "wrote s s'"
    "written_at (dev s) (dev s') ?d off (take w buffer)" "w \<le> W"
    "deny_write_cnt (inodes s p) \<noteq> 0 \<longrightarrow> w = 0 \<and> s' = s" "deny_write_cnt (inodes s p) = 0 \<and> malloc_ok s (allocs s) \<longrightarrow> w = W"
    using inode_write_at_any [OF ext off buf] unfolding W_def lc by blast
  have wb: "w \<le> length buffer" "w \<le> length c - off" using buf s'(4) by (simp_all add: W_def)
  then have lw: "length (take w buffer) = w" by simp
  have ext': "extent_ok (dev s') ?d" using s'(3) by (simp add: written_at_def)
  have con: "contents (dev s') ?d = (if off \<le> length c then take off c @ take w buffer @ drop (off + w) c else c)"
  proof (cases "off \<le> length c")
    case True
    then have "off + length (take w buffer) \<le> nat (length_of ?d)" using lw lc wb(2) by simp
    from contents_written [OF s'(3) this] True show ?thesis unfolding lw by (simp add: c_def)
  next
    case False
    then have "w = 0" using wb(2) by simp
    then have "contents (dev s') ?d = contents (dev s) ?d"
      using s'(3) by (auto simp: written_at_def contents_def sector_cnt_def)
    then show ?thesis using False by (simp add: c_def)
  qed
  have lc': "length (contents (dev s') ?d) = length c" by (simp add: lc contents_def)
  have ino: "inodes s' = inodes s" using wrote_sel [OF s'(2)] by simp
  obtain k s'' where k: "inode_read_at p (int w) (int off) s' = Some (take k (drop off (contents (dev s') ?d)), s'')"
    "k \<le> min w (length c - off)" "malloc_ok s' (allocs s') \<longrightarrow> k = min w (length c - off)"
    using inode_read_at_any [of s' p off w] ext' off lc' by (auto simp: ino)
  have kw: "k \<le> w" using k(2) by simp
  have "take k (drop off (contents (dev s') ?d)) = take k buffer"
  proof (cases "off \<le> length c")
    case True
    have "take k (take w buffer) = take k buffer" using kw by (simp add: min_def)
    with True show ?thesis unfolding con using lw kw by simp
  next
    case False
    then have "w = 0" "k = 0" using wb(2) kw by simp_all
    then show ?thesis by simp
  qed
  then have rd: "\<exists>k s''. inode_read_at p (int w) (int off) s' = Some (take k buffer, s'') \<and> k \<le> w \<and> (memory_ok s \<longrightarrow> k = w)"
    using k kw wb(2) wrote_sel(9) [OF s'(2)] by (intro exI [of _ k] exI [of _ s'']) (simp add: min_def memory_ok_def)
  have "sector_cnt (int (length c)) = sector_cnt (length_of ?d)" by (simp add: lc sector_cnt_def)
  then show ?thesis using s'(1,4,5,6) ino con rd s'(3) unfolding written_at_def
    by (intro exI [of _ w] exI [of _ s']) simp
qed

text \<open>A device of 64 zeroed sectors with one open inode of 1000 bytes in sectors 10 and 11.\<close>

definition sample_dev :: block where
  "sample_dev = \<lparr>b_name = [104], b_type = BLOCK_FILESYS, b_size = 64, b_sectors = \<lambda>_. replicate 512 0, b_read_cnt = 0, b_write_cnt = 0\<rparr>"

definition sample_inode :: inode where
  "sample_inode = \<lparr>sector = 5, open_cnt = 1, removed = False, deny_write_cnt = 0,
     data = \<lparr>start = 10, length_of = 1000, magic = INODE_MAGIC, unused = replicate 125 0\<rparr>\<rparr>"

definition sample_fs :: fs where
  "sample_fs = \<lparr>dev = sample_dev, open_inodes = [1], inodes = \<lambda>_. sample_inode, files = \<lambda>_. \<lparr>f_inode = 0, f_pos = 0, deny_write = False\<rparr>,
     dirs = \<lambda>_. \<lparr>d_inode = 0, d_pos = 0\<rparr>, free_map = \<lparr>bit_cnt = 64, bits = [0xC23, 0]\<rparr>, free_map_file = 0, allocs = 1,
     malloc_ok = \<lambda>_. True\<rparr>"

lemma sample_extent: "extent_ok (dev sample_fs) (data (inodes sample_fs 1))"
  by (simp add: sample_fs_def sample_inode_def sample_dev_def extent_ok_def dev_ok_def sector_cnt_def)

theorem inode_write_read_witness:
  "\<exists>s'. inode_write_at 1 (replicate 600 7) 600 500 sample_fs = Some (500, s') \<and>
    contents (dev s') (data (inodes sample_fs 1)) = take 500 (contents sample_dev (data sample_inode)) @ replicate 500 7 \<and>
    (\<exists>s''. inode_read_at 1 500 500 s' = Some (replicate 500 7, s''))"
proof -
  define b :: "u8 list" where "b = replicate 600 7"
  define c where "c = contents (dev sample_fs) (data (inodes sample_fs 1))"
  have l: "length c = 1000" by (simp add: c_def contents_def sample_fs_def sample_inode_def)
  have m: "malloc_ok sample_fs (allocs sample_fs)" "deny_write_cnt (inodes sample_fs 1) = 0" "memory_ok sample_fs"
    by (simp_all add: sample_fs_def sample_inode_def memory_ok_def)
  have b: "(600 :: nat) \<le> length b" "(500 :: nat) < 2 ^ 31" by (simp_all add: b_def)
  obtain w s' where s': "inode_write_at 1 b (int 600) (int 500) sample_fs = Some (w, s')" "w = min 600 (length c - 500)"
    "contents (dev s') (data (inodes sample_fs 1)) = (if 500 \<le> length c then take 500 c @ take w b @ drop (500 + w) c else c)"
    "\<exists>k s''. inode_read_at 1 (int w) (int 500) s' = Some (take k b, s'') \<and> k \<le> w \<and> (memory_ok sample_fs \<longrightarrow> k = w)"
    using inode_write_read [OF sample_extent b(2,1)] m unfolding c_def [symmetric] by blast
  obtain s'' where s'': "inode_read_at 1 (int w) (int 500) s' = Some (take w b, s'')" using s'(4) m(3) by blast
  have w: "w = 500" using s'(2) l by simp
  have t: "take 500 b = replicate 500 7" by (simp add: b_def)
  have "inode_write_at 1 (replicate 600 7) 600 500 sample_fs = Some (500, s')" using s'(1) by (simp add: w b_def)
  moreover have "contents (dev s') (data (inodes sample_fs 1)) = take 500 (contents sample_dev (data sample_inode)) @ replicate 500 7"
    using s'(3) l by (simp add: w t) (simp add: c_def sample_fs_def)
  moreover have "inode_read_at 1 500 500 s' = Some (replicate 500 7, s'')" using s'' by (simp add: w t)
  ultimately show ?thesis by blast
qed

end
