(* ===== verification/Freemap.thy ===== *)
theory Freemap
  imports Inode
begin

text \<open>
  The free map (\<open>filesys/free-map.c\<close>), the life of inodes (\<open>inode_create\<close>, \<open>inode_open\<close>, \<open>inode_close\<close> of
  \<open>filesys/inode.c\<close>) and open files (\<open>filesys/file.c\<close>).  They belong together: creating an inode allocates sectors in the
  free map, the free map is itself a file and every change of it is written through, and closing the last opener of a
  removed inode releases its sectors.  The lemmas follow the map of sectors in use and its copy on disk.
\<close>

subsection \<open>The free map\<close>

definition FREE_MAP_SECTOR :: u32 where "FREE_MAP_SECTOR = 0"
definition ROOT_DIR_SECTOR :: u32 where "ROOT_DIR_SECTOR = 1"

text \<open>\<open>file_read_at\<close> and \<open>file_write_at\<close> dereference the file.\<close>

definition file_read_at :: "nat \<Rightarrow> int \<Rightarrow> int \<Rightarrow> fs \<Rightarrow> (u8 list \<times> fs) option" where
  "file_read_at f sz file_ofs s = do {
     ASSERT (f \<noteq> 0);
     inode_read_at (f_inode (files s f)) sz file_ofs s
   }"

definition file_write_at :: "nat \<Rightarrow> u8 list \<Rightarrow> int \<Rightarrow> int \<Rightarrow> fs \<Rightarrow> (nat \<times> fs) option" where
  "file_write_at f buffer sz file_ofs s = do {
     ASSERT (f \<noteq> 0);
     inode_write_at (f_inode (files s f)) buffer sz file_ofs s
   }"

definition bitmap_write :: "bitmap \<Rightarrow> nat \<Rightarrow> fs \<Rightarrow> (bool \<times> fs) option" where
  "bitmap_write b f s = do {
     let sz = sint (byte_cnt (bit_cnt b));
     (n, s) \<leftarrow> file_write_at f (bitmap_write_bytes b) sz 0 s;
     Some (int n = sz, s)
   }"

text \<open>The bytes \<open>file_read_at\<close> stores go to \<open>bitmap_read\<close>.\<close>

definition bitmap_read_file :: "bitmap \<Rightarrow> nat \<Rightarrow> fs \<Rightarrow> (bool \<times> bitmap \<times> fs) option" where
  "bitmap_read_file b f s =
     (if bit_cnt b > 0 then do {
        (buf, s) \<leftarrow> file_read_at f (sint (byte_cnt (bit_cnt b))) 0 s;
        (ok, b) \<leftarrow> bitmap_read b buf;
        Some (ok, b, s)
      } else Some (True, b, s))"

text \<open>\<open>garbage\<close> is what the memory for the elements of the new bitmap holds.\<close>

definition free_map_init :: "u32 list \<Rightarrow> fs \<Rightarrow> fs option" where
  "free_map_init garbage s = do {
     let (p, s) = malloc s;
     let (q, s) = (if p \<noteq> 0 then malloc s else (0, s));
     r \<leftarrow> bitmap_create (p \<noteq> 0) (if q \<noteq> 0 then Some garbage else None) (block_size (dev s));
     b \<leftarrow> r;
     b \<leftarrow> bitmap_mark b FREE_MAP_SECTOR;
     b \<leftarrow> bitmap_mark b ROOT_DIR_SECTOR;
     Some (s\<lparr>free_map := b\<rparr>)
   }"

text \<open>The sector that \<open>free_map_allocate\<close> stores through its pointer, or \<open>None\<close> when it returns false.\<close>

definition free_map_allocate :: "size_t \<Rightarrow> fs \<Rightarrow> (u32 option \<times> fs) option" where
  "free_map_allocate cnt s = do {
     (sec, b) \<leftarrow> bitmap_scan_and_flip (free_map s) 0 cnt False;
     let s = s\<lparr>free_map := b\<rparr>;
     (sec, s) \<leftarrow>
       (if sec \<noteq> BITMAP_ERROR \<and> free_map_file s \<noteq> 0 then do {
          (ok, s) \<leftarrow> bitmap_write (free_map s) (free_map_file s) s;
          if \<not> ok then do {
            b \<leftarrow> bitmap_set_multiple (free_map s) sec cnt False;
            Some (BITMAP_ERROR, s\<lparr>free_map := b\<rparr>)
          } else Some (sec, s)
        } else Some (sec, s));
     Some (if sec \<noteq> BITMAP_ERROR then Some sec else None, s)
   }"

definition free_map_release :: "u32 \<Rightarrow> size_t \<Rightarrow> fs \<Rightarrow> fs option" where
  "free_map_release sec cnt s = do {
     used \<leftarrow> bitmap_all (free_map s) sec cnt;
     ASSERT used;
     b \<leftarrow> bitmap_set_multiple (free_map s) sec cnt False;
     let s = s\<lparr>free_map := b\<rparr>;
     (_, s) \<leftarrow> bitmap_write (free_map s) (free_map_file s) s;
     Some s
   }"

subsection \<open>Inodes\<close>

definition inode_init :: "fs \<Rightarrow> fs" where
  "inode_init s = s\<lparr>open_inodes := []\<rparr>"

text \<open>The loop of \<open>inode_create\<close> that clears the data sectors, from the \<open>i\<close>-th on.\<close>

fun zero_sectors :: "u32 \<Rightarrow> nat \<Rightarrow> nat \<Rightarrow> block \<Rightarrow> block option" where
  "zero_sectors st i 0 d = Some d"
| "zero_sectors st i (Suc n) d = do { d \<leftarrow> block_write d (st + of_nat i) (replicate 512 0); zero_sectors st (Suc i) n d }"

definition inode_create :: "u32 \<Rightarrow> int \<Rightarrow> fs \<Rightarrow> (bool \<times> fs) option" where
  "inode_create sec len s = do {
     ASSERT (len \<ge> 0);
     let (p, s) = malloc s;
     if p \<noteq> 0 then do {
       let sectors = bytes_to_sectors len;
       (r, s) \<leftarrow> free_map_allocate sectors s;
       case r of
         None \<Rightarrow> Some (False, s)
       | Some st \<Rightarrow> do {
           d \<leftarrow> block_write (dev s) sec (inode_bytes \<lparr>start = st, length_of = len, magic = INODE_MAGIC, unused = replicate 125 0\<rparr>);
           d \<leftarrow> zero_sectors st 0 (unat sectors) d;
           Some (True, s\<lparr>dev := d\<rparr>)
         }
     } else Some (False, s)
   }"

definition set_inode :: "nat \<Rightarrow> inode \<Rightarrow> fs \<Rightarrow> fs" where
  "set_inode p ino s = s\<lparr>inodes := (inodes s)(p := ino)\<rparr>"

definition inode_reopen :: "nat \<Rightarrow> fs \<Rightarrow> nat \<times> fs" where
  "inode_reopen p s = (p, if p \<noteq> 0 then set_inode p ((inodes s p)\<lparr>open_cnt := wrap32 (open_cnt (inodes s p) + 1)\<rparr>) s else s)"

definition inode_open :: "u32 \<Rightarrow> fs \<Rightarrow> (nat \<times> fs) option" where
  "inode_open sec s =
     (case find (\<lambda>p. sector (inodes s p) = sec) (open_inodes s) of
        Some p \<Rightarrow> Some (inode_reopen p s)
      | None \<Rightarrow>
          let (p, s) = malloc s in
          if p = 0 then Some (0, s)
          else do {
            let s = s\<lparr>open_inodes := p # open_inodes s\<rparr>;
            (buf, d) \<leftarrow> block_read (dev s) sec;
            Some (p, set_inode p \<lparr>sector = sec, open_cnt = 1, removed = False, deny_write_cnt = 0, data = bytes_inode buf\<rparr> (s\<lparr>dev := d\<rparr>))
          })"

definition inode_get_inumber :: "nat \<Rightarrow> fs \<Rightarrow> u32" where
  "inode_get_inumber p s = sector (inodes s p)"

definition inode_close :: "nat \<Rightarrow> fs \<Rightarrow> fs option" where
  "inode_close p s =
     (if p = 0 then Some s
      else
        let ino = (inodes s p)\<lparr>open_cnt := wrap32 (open_cnt (inodes s p) - 1)\<rparr>; s = set_inode p ino s in
        if open_cnt ino = 0 then
          let s = s\<lparr>open_inodes := remove1 p (open_inodes s)\<rparr> in
          if removed ino then do {
            s \<leftarrow> free_map_release (sector ino) 1 s;
            free_map_release (start (data ino)) (bytes_to_sectors (length_of (data ino))) s
          } else Some s
        else Some s)"

definition inode_remove :: "nat \<Rightarrow> fs \<Rightarrow> fs option" where
  "inode_remove p s = do { ASSERT (p \<noteq> 0); Some (set_inode p ((inodes s p)\<lparr>removed := True\<rparr>) s) }"

definition inode_deny_write :: "nat \<Rightarrow> fs \<Rightarrow> fs option" where
  "inode_deny_write p s = do {
     let ino = (inodes s p)\<lparr>deny_write_cnt := wrap32 (deny_write_cnt (inodes s p) + 1)\<rparr>;
     ASSERT (deny_write_cnt ino \<le> open_cnt ino);
     Some (set_inode p ino s)
   }"

definition inode_allow_write :: "nat \<Rightarrow> fs \<Rightarrow> fs option" where
  "inode_allow_write p s = do {
     let ino = inodes s p;
     ASSERT (deny_write_cnt ino > 0);
     ASSERT (deny_write_cnt ino \<le> open_cnt ino);
     Some (set_inode p (ino\<lparr>deny_write_cnt := deny_write_cnt ino - 1\<rparr>) s)
   }"

subsection \<open>Open files\<close>

definition set_file :: "nat \<Rightarrow> open_file \<Rightarrow> fs \<Rightarrow> fs" where
  "set_file f v s = s\<lparr>files := (files s)(f := v)\<rparr>"

definition file_open :: "nat \<Rightarrow> fs \<Rightarrow> (nat \<times> fs) option" where
  "file_open p s =
     (let (f, s) = malloc s in
      if p \<noteq> 0 \<and> f \<noteq> 0 then Some (f, set_file f \<lparr>f_inode = p, f_pos = 0, deny_write = False\<rparr> s)
      else do { s \<leftarrow> inode_close p s; Some (0, s) })"

definition file_reopen :: "nat \<Rightarrow> fs \<Rightarrow> (nat \<times> fs) option" where
  "file_reopen f s = (let (p, s) = inode_reopen (f_inode (files s f)) s in file_open p s)"

definition file_allow_write :: "nat \<Rightarrow> fs \<Rightarrow> fs option" where
  "file_allow_write f s = do {
     ASSERT (f \<noteq> 0);
     if deny_write (files s f) then
       inode_allow_write (f_inode (files s f)) (set_file f ((files s f)\<lparr>deny_write := False\<rparr>) s)
     else Some s
   }"

definition file_deny_write :: "nat \<Rightarrow> fs \<Rightarrow> fs option" where
  "file_deny_write f s = do {
     ASSERT (f \<noteq> 0);
     if \<not> deny_write (files s f) then
       inode_deny_write (f_inode (files s f)) (set_file f ((files s f)\<lparr>deny_write := True\<rparr>) s)
     else Some s
   }"

definition file_close :: "nat \<Rightarrow> fs \<Rightarrow> fs option" where
  "file_close f s =
     (if f \<noteq> 0 then do {
        s \<leftarrow> file_allow_write f s;
        inode_close (f_inode (files s f)) s
      } else Some s)"

definition file_get_inode :: "nat \<Rightarrow> fs \<Rightarrow> nat" where
  "file_get_inode f s = f_inode (files s f)"

definition file_read :: "nat \<Rightarrow> int \<Rightarrow> fs \<Rightarrow> (u8 list \<times> fs) option" where
  "file_read f sz s = do {
     ASSERT (f \<noteq> 0);
     (buf, s) \<leftarrow> inode_read_at (f_inode (files s f)) sz (f_pos (files s f)) s;
     Some (buf, set_file f ((files s f)\<lparr>f_pos := wrap32 (f_pos (files s f) + int (length buf))\<rparr>) s)
   }"

definition file_write :: "nat \<Rightarrow> u8 list \<Rightarrow> int \<Rightarrow> fs \<Rightarrow> (nat \<times> fs) option" where
  "file_write f buffer sz s = do {
     ASSERT (f \<noteq> 0);
     (n, s) \<leftarrow> inode_write_at (f_inode (files s f)) buffer sz (f_pos (files s f)) s;
     Some (n, set_file f ((files s f)\<lparr>f_pos := wrap32 (f_pos (files s f) + int n)\<rparr>) s)
   }"

definition file_length :: "nat \<Rightarrow> fs \<Rightarrow> int option" where
  "file_length f s = do { ASSERT (f \<noteq> 0); Some (inode_length (inodes s (f_inode (files s f)))) }"

definition file_seek :: "nat \<Rightarrow> int \<Rightarrow> fs \<Rightarrow> fs option" where
  "file_seek f new_pos s = do {
     ASSERT (f \<noteq> 0);
     ASSERT (new_pos \<ge> 0);
     Some (set_file f ((files s f)\<lparr>f_pos := new_pos\<rparr>) s)
   }"

definition file_tell :: "nat \<Rightarrow> fs \<Rightarrow> int option" where
  "file_tell f s = do { ASSERT (f \<noteq> 0); Some (f_pos (files s f)) }"

subsection \<open>The free map file\<close>

definition free_map_open :: "fs \<Rightarrow> fs option" where
  "free_map_open s = do {
     (p, s) \<leftarrow> inode_open FREE_MAP_SECTOR s;
     (f, s) \<leftarrow> file_open p s;
     let s = s\<lparr>free_map_file := f\<rparr>;
     ASSERT (f \<noteq> 0);
     (ok, b, s) \<leftarrow> bitmap_read_file (free_map s) f s;
     ASSERT ok;
     Some (s\<lparr>free_map := b\<rparr>)
   }"

definition free_map_close :: "fs \<Rightarrow> fs option" where
  "free_map_close s = file_close (free_map_file s) s"

definition free_map_create :: "fs \<Rightarrow> fs option" where
  "free_map_create s = do {
     (ok, s) \<leftarrow> inode_create FREE_MAP_SECTOR (sint (bitmap_file_size (free_map s))) s;
     ASSERT ok;
     (p, s) \<leftarrow> inode_open FREE_MAP_SECTOR s;
     (f, s) \<leftarrow> file_open p s;
     let s = s\<lparr>free_map_file := f\<rparr>;
     ASSERT (f \<noteq> 0);
     (ok, s) \<leftarrow> bitmap_write (free_map s) f s;
     ASSERT ok;
     Some s
   }"

subsection \<open>The map of sectors in use and its copy on disk\<close>

definition fm_inode :: "fs \<Rightarrow> inode" where
  "fm_inode s = inodes s (f_inode (files s (free_map_file s)))"

text \<open>The sectors that hold the data of an inode.\<close>

definition in_extent :: "inode_disk \<Rightarrow> u32 \<Rightarrow> bool" where
  "in_extent d i \<longleftrightarrow> unat (start d) \<le> unat i \<and> unat i < unat (start d) + sector_cnt (length_of d)"

definition used_sector :: "fs \<Rightarrow> u32 \<Rightarrow> bool" where
  "used_sector s i \<longleftrightarrow> unat i < unat (bit_cnt (free_map s)) \<and> bools (free_map s) ! unat i"

definition fs_ok :: "fs \<Rightarrow> bool" where
  "fs_ok s \<longleftrightarrow> dev_ok (dev s) \<and> bm_wf (free_map s) \<and> bit_cnt (free_map s) = b_size (dev s) \<and>
     (free_map_file s \<noteq> 0 \<longrightarrow> extent_ok (dev s) (data (fm_inode s)) \<and> deny_write_cnt (fm_inode s) = 0 \<and>
        length_of (data (fm_inode s)) = int (unat (byte_cnt (bit_cnt (free_map s)))) \<and>
        (\<forall>i. in_extent (data (fm_inode s)) i \<longrightarrow> used_sector s i))"

text \<open>Only the device, the free map and the count of allocations differ.\<close>

definition same_handles :: "fs \<Rightarrow> fs \<Rightarrow> bool" where
  "same_handles s s' \<longleftrightarrow> inodes s' = inodes s \<and> files s' = files s \<and> dirs s' = dirs s \<and> open_inodes s' = open_inodes s \<and>
     free_map_file s' = free_map_file s \<and> malloc_ok s' = malloc_ok s \<and> b_size (dev s') = b_size (dev s) \<and> allocs s \<le> allocs s'"

lemma same_handles_trans: "same_handles s s' \<Longrightarrow> same_handles s' s'' \<Longrightarrow> same_handles s s''"
  by (simp add: same_handles_def)

lemma same_handles_wrote: "wrote s s' \<Longrightarrow> same_handles s s'"
  using wrote_sel [of s s'] by (simp add: same_handles_def)

lemma sint_small:
  fixes w :: u32
  assumes "unat w < 2 ^ 31"
  shows "sint w = int (unat w)"
proof -
  have e: "int (unat w) = uint w" by simp
  have "int (unat w) < int (2 ^ 31)" using assms by (simp only: of_nat_less_iff)
  then have "uint w < 2 ^ 31" unfolding e by simp
  moreover have "- (2 ^ 31) \<le> uint w" by (rule order_trans [of _ 0]) simp_all
  ultimately have "signed_take_bit 31 (uint w) = uint w" by (rule signed_take_bit_int_eq_self [rotated])
  then show ?thesis unfolding e by (simp add: sint_uint)
qed

lemma byte_cnt_small:
  assumes "bm_wf b"
  shows "unat (byte_cnt (bit_cnt b)) < 2 ^ 31" "sint (byte_cnt (bit_cnt b)) = int (unat (byte_cnt (bit_cnt b)))"
    "length (bitmap_write_bytes b) = unat (byte_cnt (bit_cnt b))"
proof -
  have n: "unat (bit_cnt b) \<le> 2 ^ 32 - 32" "length (bits b) = (unat (bit_cnt b) + 31) div 32" using assms by (simp_all add: bm_wf_def)
  have l: "length (bits b) \<le> 2 ^ 27" using n by simp
  have u: "unat (byte_cnt (bit_cnt b)) = 4 * length (bits b)" by (rule unat_elem_cnt(2) [OF assms])
  then show s: "unat (byte_cnt (bit_cnt b)) < 2 ^ 31" using l by simp
  show "sint (byte_cnt (bit_cnt b)) = int (unat (byte_cnt (bit_cnt b)))"
    by (rule sint_small [OF s])
  have "length (concat (map word_bytes ws)) = 4 * length ws" for ws by (induction ws) (simp_all add: word_bytes_def)
  then show "length (bitmap_write_bytes b) = unat (byte_cnt (bit_cnt b))" using u by (simp add: bitmap_write_bytes_def)
qed

text \<open>Writing the map through.\<close>

lemma bitmap_write_any:
  assumes ok: "fs_ok s" and f: "free_map_file s \<noteq> 0"
  obtains (short) s' where "bitmap_write (free_map s) (free_map_file s) s = Some (False, s')" "wrote s s'" "fs_ok s'" "\<not> malloc_ok s (allocs s)"
      "\<And>i. \<not> in_extent (data (fm_inode s)) i \<Longrightarrow> b_sectors (dev s') i = b_sectors (dev s) i"
  | (whole) s' where "bitmap_write (free_map s) (free_map_file s) s = Some (True, s')" "wrote s s'"
      "written_at (dev s) (dev s') (data (fm_inode s)) 0 (bitmap_write_bytes (free_map s))"
      "contents (dev s') (data (fm_inode s)) = bitmap_write_bytes (free_map s)" "fs_ok s'"
proof -
  let ?d = "data (fm_inode s)" and ?n = "unat (byte_cnt (bit_cnt (free_map s)))"
  have o: "bm_wf (free_map s)" "extent_ok (dev s) ?d" "deny_write_cnt (fm_inode s) = 0" "length_of ?d = int ?n"
    using ok f by (simp_all add: fs_ok_def)
  note b = byte_cnt_small [OF o(1)]
  have e: "extent_ok (dev s) (data (inodes s (f_inode (files s (free_map_file s)))))" using o(2) by (simp add: fm_inode_def)
  obtain w s' where s': "inode_write_at (f_inode (files s (free_map_file s))) (bitmap_write_bytes (free_map s)) (int ?n) (int 0) s = Some (w, s')"
    "wrote s s'" "written_at (dev s) (dev s') ?d 0 (take w (bitmap_write_bytes (free_map s)))" "w \<le> ?n" "malloc_ok s (allocs s) \<longrightarrow> w = ?n"
    using inode_write_at_any [OF e, of 0 ?n "bitmap_write_bytes (free_map s)"] o(3,4) b(3) by (auto simp: fm_inode_def)
  note sel = wrote_sel [OF s'(2)]
  have ok': "fs_ok s'" using ok s'(3) sel by (auto simp: fs_ok_def written_at_def extent_ok_def fm_inode_def used_sector_def)
  have "(int w = uint x) = (w = unat x)" for x :: u32 by (metis of_nat_eq_iff of_nat_unat)
  then have r: "bitmap_write (free_map s) (free_map_file s) s = Some (w = ?n, s')"
    using s'(1) f b(2) by (simp add: bitmap_write_def file_write_at_def)
  show thesis
  proof (cases "w = ?n")
    case True
    have w: "written_at (dev s) (dev s') ?d 0 (bitmap_write_bytes (free_map s))" using s'(3) b(3) True by simp
    have c: "contents (dev s') ?d = bitmap_write_bytes (free_map s)"
      using contents_written [OF w] b(3) o(4) by (simp add: contents_def)
    show thesis using that(2) [OF _ s'(2) w c ok'] r True by simp
  next
    case False
    show thesis using that(1) [OF _ s'(2) ok'] r False s'(3,5) by (simp add: written_at_def in_extent_def)
  qed
qed

lemma bitmap_write_ok:
  assumes ok: "fs_ok s" and mal: "malloc_ok s (allocs s)" and f: "free_map_file s \<noteq> 0"
  obtains s' where "bitmap_write (free_map s) (free_map_file s) s = Some (True, s')" "wrote s s'"
    "written_at (dev s) (dev s') (data (fm_inode s)) 0 (bitmap_write_bytes (free_map s))"
    "contents (dev s') (data (fm_inode s)) = bitmap_write_bytes (free_map s)" "fs_ok s'"
  using ok f
proof (cases rule: bitmap_write_any)
  case (whole s')
  then show thesis by (rule that)
qed (use mal in simp)

text \<open>Allocation.\<close>

lemma fill_undo:
  assumes "all_eq xs k n v" "k + n \<le> length xs"
  shows "fill k n v (fill k n w xs) = xs"
proof (rule nth_equalityI)
  fix i assume "i < length (fill k n v (fill k n w xs))"
  moreover have "xs ! i = v" if "k \<le> i" "i < k + n"
  proof -
    have "i - k < n" "k + (i - k) = i" using that by simp_all
    then show ?thesis using assms(1) unfolding all_eq_def by metis
  qed
  ultimately show "fill k n v (fill k n w xs) ! i = xs ! i" using assms(2) by (auto simp: nth_fill)
qed simp

text \<open>When the map cannot be written, the allocation is undone in memory; sectors of the file may have been written.\<close>

lemma free_map_allocate_any:
  assumes ok: "fs_ok s"
  obtains (full) "free_map_allocate cnt s = Some (None, s)" "first_fit (bools (free_map s)) 0 (unat cnt) False = None"
  | (undone) s' where "free_map_allocate cnt s = Some (None, s')" "same_handles s s'" "fs_ok s'" "free_map_file s \<noteq> 0" "\<not> malloc_ok s (allocs s)"
      "bools (free_map s') = bools (free_map s)" "bit_cnt (free_map s') = bit_cnt (free_map s)"
      "\<And>i. \<not> in_extent (data (fm_inode s)) i \<Longrightarrow> b_sectors (dev s') i = b_sectors (dev s) i"
  | (got) sec s' where "free_map_allocate cnt s = Some (Some sec, s')" "same_handles s s'" "fs_ok s'"
      "unat sec + unat cnt \<le> unat (b_size (dev s))" "all_eq (bools (free_map s)) (unat sec) (unat cnt) False"
      "bools (free_map s') = fill (unat sec) (unat cnt) True (bools (free_map s))" "bit_cnt (free_map s') = bit_cnt (free_map s)"
      "free_map_file s \<noteq> 0 \<longrightarrow> contents (dev s') (data (fm_inode s)) = bitmap_write_bytes (free_map s')"
      "\<And>i. free_map_file s = 0 \<or> \<not> in_extent (data (fm_inode s)) i \<Longrightarrow> b_sectors (dev s') i = b_sectors (dev s) i"
      "first_fit (bools (free_map s)) 0 (unat cnt) False = Some (unat sec)"
proof -
  have wf: "bm_wf (free_map s)" using ok by (simp add: fs_ok_def)
  show thesis
    using wf
  proof (cases rule: bm.alloc_cases [of _ cnt])
    case full
    have "s\<lparr>free_map := free_map s\<rparr> = s" by simp
    with full show thesis by (intro that(1)) (simp_all add: free_map_allocate_def Let_def)
  next
    case (run sec b)
    let ?s = "s\<lparr>free_map := b\<rparr>"
    have bc: "bit_cnt b = bit_cnt (free_map s)" using run(6) by (metis length_bools length_fill word_unat_eq_iff)
    have keep: "bools b ! i" if "bools (free_map s) ! i" "i < unat (bit_cnt (free_map s))" for i
      using that run(4,6) by (simp add: nth_fill)
    have ok1: "fs_ok ?s"
      using ok run(3) bc keep by (auto simp: fs_ok_def used_sector_def fm_inode_def)
    have le: "unat sec + unat cnt \<le> unat (b_size (dev s))" using run(4) ok by (simp add: fs_ok_def)
    have h: "same_handles s ?s" by (simp add: same_handles_def)
    show thesis
    proof (cases "free_map_file s = 0")
      case True
      then have "free_map_allocate cnt s = Some (Some sec, ?s)" using run by (simp add: free_map_allocate_def Let_def)
      then show thesis using that(3) [OF _ h ok1 le run(5)] True run(6,7) bc by simp
    next
      case False
      then have f: "free_map_file ?s \<noteq> 0" by simp
      have fi: "fm_inode ?s = fm_inode s" by (simp add: fm_inode_def)
      show thesis
        using ok1 f
      proof (cases rule: bitmap_write_any)
        case (short s')
        have fr: "free_map s' = b" using wrote_sel(4) [OF short(2)] by simp
        have lb: "unat sec + unat cnt \<le> length (bools b)" using run(4) bc by simp
        obtain b' where b': "bitmap_set_multiple b sec cnt False = Some b'" "bm_wf b'" "bools b' = fill (unat sec) (unat cnt) False (bools b)"
          using bm.set_range [OF run(3) lb, of False] by blast
        have bb: "bools b' = bools (free_map s)" unfolding b'(3) run(6) by (rule fill_undo [OF run(5)]) (use run(4) in simp)
        then have bc': "bit_cnt b' = bit_cnt (free_map s)" by (metis length_bools word_unat_eq_iff)
        let ?s' = "s'\<lparr>free_map := b'\<rparr>"
        note w = wrote_sel [OF short(2)]
        have a: "free_map_allocate cnt s = Some (None, ?s')"
          using run(1,2) short(1) False b'(1) fr by (simp add: free_map_allocate_def Let_def)
        have h': "same_handles s ?s'" using same_handles_trans [OF h same_handles_wrote [OF short(2)]] by (simp add: same_handles_def)
        have fi': "fm_inode ?s' = fm_inode s" using w by (simp add: fm_inode_def)
        have "fs_ok ?s'"
          using ok short(3) b'(2) bb bc' w fi' by (auto simp: fs_ok_def used_sector_def extent_ok_def)
        then show thesis using that(2) [OF a h'] False short(4,5) bb bc' fi by simp
      next
        case (whole s')
        have fr: "free_map s' = b" using wrote_sel(4) [OF whole(2)] by simp
        have "free_map_allocate cnt s = Some (Some sec, s')" using run whole(1) False by (simp add: free_map_allocate_def Let_def)
        moreover have "same_handles s s'" using same_handles_trans [OF h same_handles_wrote [OF whole(2)]] .
        moreover have "b_sectors (dev s') i = b_sectors (dev s) i" if "\<not> in_extent (data (fm_inode s)) i" for i
          using whole(3) that by (simp add: written_at_def in_extent_def fi)
        ultimately show thesis using that(3) [of sec s'] le run(5,6,7) whole(4,5) fr bc False fi by simp
      qed
    qed
  qed
qed

lemma free_map_allocate_cases:
  assumes ok: "fs_ok s" and mal: "malloc_ok s (allocs s)"
  obtains (full) "free_map_allocate cnt s = Some (None, s)" "first_fit (bools (free_map s)) 0 (unat cnt) False = None"
  | (got) sec s' where "free_map_allocate cnt s = Some (Some sec, s')" "same_handles s s'" "fs_ok s'"
      "unat sec + unat cnt \<le> unat (b_size (dev s))" "all_eq (bools (free_map s)) (unat sec) (unat cnt) False"
      "bools (free_map s') = fill (unat sec) (unat cnt) True (bools (free_map s))" "bit_cnt (free_map s') = bit_cnt (free_map s)"
      "free_map_file s \<noteq> 0 \<longrightarrow> contents (dev s') (data (fm_inode s)) = bitmap_write_bytes (free_map s')"
      "\<And>i. free_map_file s = 0 \<or> \<not> in_extent (data (fm_inode s)) i \<Longrightarrow> b_sectors (dev s') i = b_sectors (dev s) i"
      "first_fit (bools (free_map s)) 0 (unat cnt) False = Some (unat sec)"
  using ok
proof (cases rule: free_map_allocate_any [of s cnt])
  case full
  then show thesis by (rule that(1))
next
  case undone
  then show thesis using mal by simp
next
  case (got sec s')
  then show thesis by (rule that(2))
qed

lemma free_map_release_ok:
  assumes ok: "fs_ok s" and mal: "malloc_ok s (allocs s)" and f: "free_map_file s \<noteq> 0"
    and le: "unat sec + unat cnt \<le> unat (b_size (dev s))" and used: "all_eq (bools (free_map s)) (unat sec) (unat cnt) True"
    and apart: "\<And>i. in_extent (data (fm_inode s)) i \<Longrightarrow> \<not> (unat sec \<le> unat i \<and> unat i < unat sec + unat cnt)"
  obtains s' where "free_map_release sec cnt s = Some s'" "same_handles s s'" "fs_ok s'"
    "bools (free_map s') = fill (unat sec) (unat cnt) False (bools (free_map s))" "bit_cnt (free_map s') = bit_cnt (free_map s)"
    "contents (dev s') (data (fm_inode s)) = bitmap_write_bytes (free_map s')"
    "\<And>i. \<not> in_extent (data (fm_inode s)) i \<Longrightarrow> b_sectors (dev s') i = b_sectors (dev s) i"
proof -
  have wf: "bm_wf (free_map s)" and bs: "bit_cnt (free_map s) = b_size (dev s)" using ok by (simp_all add: fs_ok_def)
  have le': "unat sec + unat cnt \<le> length (bools (free_map s))" using le bs by simp
  obtain b where b: "bitmap_set_multiple (free_map s) sec cnt False = Some b" "bm_wf b"
    "bools b = fill (unat sec) (unat cnt) False (bools (free_map s))" using bm.set_range [OF wf le', of False] by blast
  have a: "bitmap_all (free_map s) sec cnt = Some True" using bm.all_used [OF wf le'] used by simp
  let ?s = "s\<lparr>free_map := b\<rparr>"
  have bc: "bit_cnt b = bit_cnt (free_map s)" using b(3) by (metis length_bools length_fill word_unat_eq_iff)
  have fi: "fm_inode ?s = fm_inode s" by (simp add: fm_inode_def)
  have keep: "bools b ! unat i" if "bools (free_map s) ! unat i" "unat i < unat (bit_cnt (free_map s))" "in_extent (data (fm_inode s)) i" for i
    using that(1,2) apart [OF that(3)] le' b(3) by (auto simp: nth_fill)
  have ok1: "fs_ok ?s" using ok b(2) bc keep by (auto simp: fs_ok_def used_sector_def fm_inode_def)
  obtain s' where s': "bitmap_write (free_map ?s) (free_map_file ?s) ?s = Some (True, s')" "wrote ?s s'"
    "written_at (dev ?s) (dev s') (data (fm_inode ?s)) 0 (bitmap_write_bytes (free_map ?s))"
    "contents (dev s') (data (fm_inode ?s)) = bitmap_write_bytes (free_map ?s)" "fs_ok s'"
    by (rule bitmap_write_ok [OF ok1]) (use mal f in simp_all)
  have fr: "free_map s' = b" using wrote_sel(4) [OF s'(2)] by simp
  have "free_map_release sec cnt s = Some s'" using a b(1) s'(1) by (simp add: free_map_release_def Let_def)
  moreover have "same_handles s ?s" by (simp add: same_handles_def)
  then have "same_handles s s'" using same_handles_trans same_handles_wrote [OF s'(2)] by blast
  moreover have "b_sectors (dev s') i = b_sectors (dev s) i" if "\<not> in_extent (data (fm_inode s)) i" for i
    using s'(3) that by (simp add: written_at_def in_extent_def fi)
  ultimately show thesis using that [of s'] s'(4,5) fr b(3) bc fi by simp
qed

lemma free_map_release_panics:
  assumes "bm_wf (free_map s)" "unat sec + unat cnt \<le> unat (bit_cnt (free_map s))" "\<not> all_eq (bools (free_map s)) (unat sec) (unat cnt) True"
  shows "free_map_release sec cnt s = None"
  using bm.all_used [OF assms(1), of sec cnt] assms(2,3) by (simp add: free_map_release_def)

subsection \<open>Creating and opening an inode\<close>

lemma sint_word_of_int: "- (2 ^ 31) \<le> l \<Longrightarrow> l < 2 ^ 31 \<Longrightarrow> sint (word_of_int l :: u32) = l"
  by (simp add: sint_uint unsigned_of_int signed_take_bit_take_bit signed_take_bit_int_eq_self)

lemma bytes_inode_bytes:
  assumes "- (2 ^ 31) \<le> length_of d" "length_of d < 2 ^ 31"
  shows "bytes_inode (inode_bytes d) = d"
proof -
  have "bytes_words (inode_bytes d) = start d # word_of_int (length_of d) # magic d # unused d"
    by (simp add: inode_bytes_def bytes_words_Cons bytes_words_word_bytes)
  then show ?thesis using sint_word_of_int [OF assms] by (simp add: bytes_inode_def Let_def)
qed

lemma length_inode_bytes: "length (unused d) = 125 \<Longrightarrow> length (inode_bytes d) = 512"
proof -
  have "length (concat (map word_bytes ws)) = 4 * length ws" for ws by (induction ws) (simp_all add: word_bytes_def)
  then show "length (unused d) = 125 \<Longrightarrow> length (inode_bytes d) = 512" by (simp add: inode_bytes_def word_bytes_def)
qed

lemma zero_sectors_ok:
  assumes "dev_ok d" "unat st + i + n \<le> unat (b_size d)"
  shows "\<exists>d'. zero_sectors st i n d = Some d' \<and> dev_ok d' \<and> b_size d' = b_size d \<and>
    (\<forall>j. b_sectors d' j = (if unat st + i \<le> unat j \<and> unat j < unat st + i + n then replicate 512 0 else b_sectors d j))"
  using assms
proof (induction n arbitrary: i d)
  case (Suc n)
  have u: "unat (st + of_nat i) = unat st + i"
  proof -
    have "unat st + i < 2 ^ 32" using Suc.prems(2) unat_lt_32 [of "b_size d"] by simp
    moreover from this have "unat (of_nat i :: u32) = i" by (simp add: unat_of_nat)
    ultimately show ?thesis by (simp add: unat_plus_no_wrap)
  qed
  have lt: "st + of_nat i < b_size d" unfolding word_less_nat_alt u using Suc.prems(2) by simp
  obtain d1 where d1: "block_write d (st + of_nat i) (replicate 512 0) = Some d1" "dev_ok d1" "b_size d1 = b_size d"
    "b_sectors d1 = (b_sectors d)(st + of_nat i := replicate 512 0)"
    by (rule block_write_ok [OF Suc.prems(1) lt length_replicate])
  obtain d' where d': "zero_sectors st (Suc i) n d1 = Some d'" "dev_ok d'" "b_size d' = b_size d1"
    "\<And>j. b_sectors d' j = (if unat st + Suc i \<le> unat j \<and> unat j < unat st + Suc i + n then replicate 512 0 else b_sectors d1 j)"
    using Suc.IH [of d1 "Suc i"] d1(2,3) Suc.prems(2) by auto
  have "b_sectors d' j = (if unat st + i \<le> unat j \<and> unat j < unat st + i + Suc n then replicate 512 0 else b_sectors d j)" for j
  proof (cases "j = st + of_nat i")
    case True
    then show ?thesis using d'(4) [of j] d1(4) u by simp
  next
    case False
    then have "unat j \<noteq> unat st + i" using u by (metis word_unat_eq_iff)
    then show ?thesis using d'(4) [of j] d1(4) False by auto
  qed
  then show ?case using d1 d' by simp
qed auto

lemma bytes_to_sectors_eq:
  assumes "0 \<le> len" "len \<le> 2 ^ 31 - 512"
  shows "unat (bytes_to_sectors len) = sector_cnt len"
proof -
  obtain n where n: "len = int n" using assms(1) nonneg_int_cases by blast
  have "wrap32 (len + 511) = int (n + 511)" using assms n by (subst wrap32_id) simp_all
  then have "bytes_to_sectors len = word_of_int (int ((n + 511) div 512))" 
    using sdiv_nat(1) [of "n + 511"] by (simp only: bytes_to_sectors_def)
  moreover have "(n + 511) div 512 < 2 ^ 32" using assms(2) n by simp
  ultimately show ?thesis by (simp add: n sector_cnt_def unat_of_nat del: of_nat_add)
qed

text \<open>The inode that \<open>inode_create\<close> writes.\<close>

abbreviation new_disk :: "u32 \<Rightarrow> int \<Rightarrow> inode_disk" where
  "new_disk st len \<equiv> \<lparr>start = st, length_of = len, magic = INODE_MAGIC, unused = replicate 125 0\<rparr>"

lemma fs_ok_dev:
  assumes "fs_ok s" "dev_ok d" "b_size d = b_size (dev s)"
  shows "fs_ok (s\<lparr>dev := d\<rparr>)"
  using assms by (auto simp: fs_ok_def extent_ok_def fm_inode_def used_sector_def)

lemma fs_ok_alloc: "fs_ok (s\<lparr>allocs := n\<rparr>) = fs_ok s"
  by (simp add: fs_ok_def fm_inode_def used_sector_def)

lemma inode_create_any:
  assumes ok: "fs_ok s" and len: "0 \<le> len" "len \<le> 2 ^ 31 - 512"
    and sec: "used_sector s sec" "free_map_file s = 0 \<or> \<not> in_extent (data (fm_inode s)) sec"
  obtains (full) s' where "inode_create sec len s = Some (False, s')" "same_handles s s'" "fs_ok s'" "free_map s' = free_map s" "dev s' = dev s"
      "first_fit (bools (free_map s)) 0 (sector_cnt len) False = None"
  | (no_memory) s' where "inode_create sec len s = Some (False, s')" "same_handles s s'" "fs_ok s'"
      "\<not> malloc_ok s (allocs s) \<or> \<not> malloc_ok s (Suc (allocs s))"
      "bools (free_map s') = bools (free_map s)" "bit_cnt (free_map s') = bit_cnt (free_map s)"
      "\<And>i. free_map_file s = 0 \<or> \<not> in_extent (data (fm_inode s)) i \<Longrightarrow> b_sectors (dev s') i = b_sectors (dev s) i"
  | (created) st s' where "inode_create sec len s = Some (True, s')" "same_handles s s'" "fs_ok s'"
      "unat st + sector_cnt len \<le> unat (b_size (dev s))" "all_eq (bools (free_map s)) (unat st) (sector_cnt len) False"
      "bools (free_map s') = fill (unat st) (sector_cnt len) True (bools (free_map s))" "bit_cnt (free_map s') = bit_cnt (free_map s)"
      "b_sectors (dev s') sec = inode_bytes (new_disk st len)"
      "\<And>i. in_extent (new_disk st len) i \<Longrightarrow> b_sectors (dev s') i = replicate 512 0"
      "\<And>i. i \<noteq> sec \<Longrightarrow> \<not> in_extent (new_disk st len) i \<Longrightarrow> free_map_file s = 0 \<or> \<not> in_extent (data (fm_inode s)) i \<Longrightarrow>
        b_sectors (dev s') i = b_sectors (dev s) i"
proof -
  let ?s = "s\<lparr>allocs := Suc (allocs s)\<rparr>" and ?n = "sector_cnt len"
  have ok1: "fs_ok ?s" using ok by (simp add: fs_ok_alloc)
  have h0: "same_handles s ?s" by (simp add: same_handles_def)
  have cnt: "unat (bytes_to_sectors len) = ?n" by (rule bytes_to_sectors_eq [OF len])
  have fi: "fm_inode ?s = fm_inode s" by (simp add: fm_inode_def)
  show thesis
  proof (cases "malloc_ok s (allocs s)")
    case False
    then have "inode_create sec len s = Some (False, ?s)" using len by (simp add: inode_create_def malloc_def Let_def)
    then show thesis using that(2) [of ?s] False h0 ok1 by simp
  next
    case mal: True
    show thesis
      using ok1
    proof (cases rule: free_map_allocate_any [of ?s "bytes_to_sectors len"])
      case full
      then show thesis using that(1) [of ?s] len mal h0 ok1 cnt by (simp add: inode_create_def malloc_def Let_def)
    next
      case (undone s1)
      have "inode_create sec len s = Some (False, s1)" using undone(1) len mal by (simp add: inode_create_def malloc_def Let_def)
      then show thesis using that(2) [of s1] same_handles_trans [OF h0 undone(2)] undone(3-8) fi by simp
    next
      case (got st s1)
      let ?d = "new_disk st len"
      have h1: "same_handles s s1" by (rule same_handles_trans [OF h0 got(2)])
      have dok: "dev_ok (dev s1)" using got(3) by (simp add: fs_ok_def)
      have size1: "b_size (dev s1) = b_size (dev s)" using h1 by (simp add: same_handles_def)
      have secl: "sec < b_size (dev s1)" using sec(1) ok size1 by (simp add: used_sector_def fs_ok_def word_less_nat_alt)
      have lb: "length (inode_bytes ?d) = 512" by (rule length_inode_bytes) simp
      obtain d1 where d1: "block_write (dev s1) sec (inode_bytes ?d) = Some d1" "dev_ok d1" "b_size d1 = b_size (dev s1)"
        "b_sectors d1 = (b_sectors (dev s1))(sec := inode_bytes ?d)" by (rule block_write_ok [OF dok secl lb])
      have le: "unat st + ?n \<le> unat (b_size (dev s))" using got(4) cnt by simp
      obtain d2 where d2: "zero_sectors st 0 ?n d1 = Some d2" "dev_ok d2" "b_size d2 = b_size d1"
        "\<And>j. b_sectors d2 j = (if unat st \<le> unat j \<and> unat j < unat st + ?n then replicate 512 0 else b_sectors d1 j)"
        using zero_sectors_ok [OF d1(2), of st 0 ?n] le d1(3) size1 by auto
      have ext: "in_extent ?d j \<longleftrightarrow> unat st \<le> unat j \<and> unat j < unat st + ?n" for j by (simp add: in_extent_def)
      have d2e: "b_sectors d2 j = (if in_extent ?d j then replicate 512 0 else b_sectors d1 j)" for j using d2(4) ext by simp
      have free: "\<not> used_sector s j" if "in_extent ?d j" for j
      proof -
        have "unat j - unat st < unat (bytes_to_sectors len)" "unat st + (unat j - unat st) = unat j" using that ext cnt by auto
        then have "\<not> bools (free_map ?s) ! unat j" using got(5) unfolding all_eq_def by metis
        then show ?thesis by (simp add: used_sector_def)
      qed
      have nsec: "\<not> in_extent ?d sec" using free sec(1) by blast
      have r: "inode_create sec len s = Some (True, s1\<lparr>dev := d2\<rparr>)"
        using got(1) len mal d1(1) d2(1) cnt by (simp add: inode_create_def malloc_def Let_def)
      have h: "same_handles s (s1\<lparr>dev := d2\<rparr>)" using h1 d2(3) d1(3) by (simp add: same_handles_def)
      have okr: "fs_ok (s1\<lparr>dev := d2\<rparr>)" by (rule fs_ok_dev [OF got(3) d2(2)]) (simp add: d2(3) d1(3))
      show thesis
      proof (rule that(3) [OF r h okr le])
        show "all_eq (bools (free_map s)) (unat st) ?n False" using got(5) cnt by simp
        show "bools (free_map (s1\<lparr>dev := d2\<rparr>)) = fill (unat st) ?n True (bools (free_map s))" using got(6) cnt by simp
        show "bit_cnt (free_map (s1\<lparr>dev := d2\<rparr>)) = bit_cnt (free_map s)" using got(7) by simp
        show "b_sectors (dev (s1\<lparr>dev := d2\<rparr>)) sec = inode_bytes ?d" using d2e [of sec] d1(4) nsec by simp
        show "b_sectors (dev (s1\<lparr>dev := d2\<rparr>)) i = replicate 512 0" if "in_extent ?d i" for i
          using d2e [of i] that by simp
        show "b_sectors (dev (s1\<lparr>dev := d2\<rparr>)) i = b_sectors (dev s) i"
          if "i \<noteq> sec" "\<not> in_extent ?d i" "free_map_file s = 0 \<or> \<not> in_extent (data (fm_inode s)) i" for i
          using d2e [of i] d1(4) got(9) [of i] that fi by simp
      qed
    qed
  qed
qed

lemma inode_create_cases:
  assumes ok: "fs_ok s" and mal: "\<And>n. malloc_ok s n" and len: "0 \<le> len" "len \<le> 2 ^ 31 - 512"
    and sec: "used_sector s sec" "free_map_file s = 0 \<or> \<not> in_extent (data (fm_inode s)) sec"
  obtains (full) s' where "inode_create sec len s = Some (False, s')" "same_handles s s'" "fs_ok s'" "free_map s' = free_map s" "dev s' = dev s"
      "first_fit (bools (free_map s)) 0 (sector_cnt len) False = None"
  | (created) st s' where "inode_create sec len s = Some (True, s')" "same_handles s s'" "fs_ok s'"
      "unat st + sector_cnt len \<le> unat (b_size (dev s))" "all_eq (bools (free_map s)) (unat st) (sector_cnt len) False"
      "bools (free_map s') = fill (unat st) (sector_cnt len) True (bools (free_map s))" "bit_cnt (free_map s') = bit_cnt (free_map s)"
      "b_sectors (dev s') sec = inode_bytes (new_disk st len)"
      "\<And>i. in_extent (new_disk st len) i \<Longrightarrow> b_sectors (dev s') i = replicate 512 0"
      "\<And>i. i \<noteq> sec \<Longrightarrow> \<not> in_extent (new_disk st len) i \<Longrightarrow> free_map_file s = 0 \<or> \<not> in_extent (data (fm_inode s)) i \<Longrightarrow>
        b_sectors (dev s') i = b_sectors (dev s) i"
  using ok len sec
proof (cases rule: inode_create_any [of s len sec])
  case (full s')
  then show thesis by (rule that(1))
next
  case (no_memory s')
  then show thesis using mal by simp
next
  case (created st s')
  then show thesis by (rule that(2))
qed

lemma inode_open_new:
  assumes "\<And>n. malloc_ok s n" "sec < b_size (dev s)" "\<And>p. p \<in> set (open_inodes s) \<Longrightarrow> sector (inodes s p) \<noteq> sec"
  shows "inode_open sec s = Some (Suc (allocs s),
    s\<lparr>allocs := Suc (allocs s), open_inodes := Suc (allocs s) # open_inodes s, dev := (dev s)\<lparr>b_read_cnt := b_read_cnt (dev s) + 1\<rparr>,
      inodes := (inodes s)(Suc (allocs s) :=
        \<lparr>sector = sec, open_cnt = 1, removed = False, deny_write_cnt = 0, data = bytes_inode (b_sectors (dev s) sec)\<rparr>)\<rparr>)"
proof -
  have "find (\<lambda>p. sector (inodes s p) = sec) (open_inodes s) = None" using assms(3) by (auto simp: find_None_iff)
  then show ?thesis using assms(1,2) block_read_ok [of sec "dev s"]
    by (simp add: inode_open_def malloc_def set_inode_def Let_def)
qed

text \<open>Opening a sector: an inode that is open already is shared, with the data it was read with.\<close>

lemma inode_open_any:
  assumes "sec < b_size (dev s)"
  shows "case inode_open sec s of
      None \<Rightarrow> False
    | Some (p, s') \<Rightarrow> b_sectors (dev s') = b_sectors (dev s) \<and>
        (case find (\<lambda>p. sector (inodes s p) = sec) (open_inodes s) of
           Some q \<Rightarrow> p = q \<and> data (inodes s' p) = data (inodes s p)
         | None \<Rightarrow> if malloc_ok s (allocs s) then p \<noteq> 0 \<and> data (inodes s' p) = bytes_inode (b_sectors (dev s) sec) \<and> open_cnt (inodes s' p) = 1
             else p = 0)"
  using assms block_read_ok [of sec "dev s"]
  by (auto simp: inode_open_def inode_reopen_def malloc_def set_inode_def Let_def split: option.splits)

lemma contents_zero:
  assumes "0 \<le> length_of d" "\<And>i. in_extent d i \<Longrightarrow> b_sectors dv i = replicate 512 0" "extent_ok dv d"
  shows "contents dv d = replicate (nat (length_of d)) 0"
proof (rule nth_equalityI)
  fix k assume "k < length (contents dv d)"
  then have k: "k < nat (length_of d)" by (simp add: contents_def)
  then have k2: "k < 512 * sector_cnt (length_of d)" by (simp add: sector_cnt_def)
  have "k div 512 < sector_cnt (length_of d)" using k2 by (simp add: less_mult_imp_div_less mult.commute)
  then have "in_extent d (start d + of_nat (k div 512))" using extent_sector(1) [OF assms(3) k2] by (simp add: in_extent_def)
  from assms(2) [OF this] k show "contents dv d ! k = replicate (nat (length_of d)) 0 ! k" by (simp add: contents_def data_byte_def)
qed (simp add: contents_def)

subsection \<open>Properties\<close>

text \<open>
  C10: free_map_allocate on a consistent free map always returns. When it succeeds the sectors are
  on the device and were all free, exactly they become used, and the new map is in the file of the
  free map if that is open. When it fails the same sectors are in use as before, so the bits it had
  flipped are flipped back, and either no run of that many sectors is free and nothing changed, or
  the map could not be written because malloc failed. In both cases no sector outside the file of
  the free map changes.
\<close>

theorem free_map_allocate_fresh:
  assumes "fs_ok s"
  shows "case free_map_allocate cnt s of
      None \<Rightarrow> False
    | Some (None, s') \<Rightarrow> fs_ok s' \<and> used_sector s' = used_sector s \<and>
        (\<forall>i. free_map_file s = 0 \<or> \<not> in_extent (data (fm_inode s)) i \<longrightarrow> b_sectors (dev s') i = b_sectors (dev s) i) \<and>
        (s' = s \<and> first_fit (bools (free_map s)) 0 (unat cnt) False = None \<or> free_map_file s \<noteq> 0 \<and> \<not> malloc_ok s (allocs s))
    | Some (Some sec, s') \<Rightarrow> fs_ok s' \<and> unat sec + unat cnt \<le> unat (b_size (dev s)) \<and>
        (\<forall>i. unat sec \<le> unat i \<and> unat i < unat sec + unat cnt \<longrightarrow> \<not> used_sector s i) \<and>
        (\<forall>i. used_sector s' i \<longleftrightarrow> used_sector s i \<or> unat sec \<le> unat i \<and> unat i < unat sec + unat cnt) \<and>
        (free_map_file s \<noteq> 0 \<longrightarrow> contents (dev s') (data (fm_inode s)) = bitmap_write_bytes (free_map s')) \<and>
        (\<forall>i. free_map_file s = 0 \<or> \<not> in_extent (data (fm_inode s)) i \<longrightarrow> b_sectors (dev s') i = b_sectors (dev s) i)"
  using assms
proof (cases rule: free_map_allocate_any [of s cnt])
  case full
  then show ?thesis using assms by simp
next
  case (undone s')
  then show ?thesis by (simp add: used_sector_def fun_eq_iff)
next
  case (got sec s')
  have bs: "bit_cnt (free_map s) = b_size (dev s)" using assms(1) by (simp add: fs_ok_def)
  have "\<not> used_sector s i" if "unat sec \<le> unat i" "unat i < unat sec + unat cnt" for i
  proof -
    have "unat i - unat sec < unat cnt" "unat sec + (unat i - unat sec) = unat i" using that by auto
    then show ?thesis using got(5) unfolding all_eq_def used_sector_def by metis
  qed
  moreover have "used_sector s' i \<longleftrightarrow> used_sector s i \<or> unat sec \<le> unat i \<and> unat i < unat sec + unat cnt" for i
    using got(4,6,7) bs by (auto simp: used_sector_def nth_fill)
  ultimately show ?thesis using got by simp
qed

text \<open>
  C14: inode_create on a sector in use outside the free map, for a length from 0 to 2^31 - 512,
  returns. When it succeeds it has taken free data sectors and zeroed them, and no other sector in
  use changes except the inode and the free map; opening the sector then gives an inode of the
  requested length whose contents are zero bytes and whose data sectors are exactly the newly used
  ones, provided that the sector was not open before (then the open inode is returned with its old
  data) and that malloc succeeds (else a null pointer). When inode_create fails, the same sectors
  are in use as before, no sector outside the file of the free map changes, and there was no room or
  one of its first two allocations failed.
\<close>

theorem inode_create_open:
  assumes ok: "fs_ok s" and len: "0 \<le> len" "len \<le> 2 ^ 31 - 512"
    and sec: "used_sector s sec" "free_map_file s = 0 \<or> \<not> in_extent (data (fm_inode s)) sec"
  shows "case inode_create sec len s of
      None \<Rightarrow> False
    | Some (False, s') \<Rightarrow> fs_ok s' \<and> used_sector s' = used_sector s \<and>
        (\<forall>i. free_map_file s = 0 \<or> \<not> in_extent (data (fm_inode s)) i \<longrightarrow> b_sectors (dev s') i = b_sectors (dev s) i) \<and>
        (dev s' = dev s \<and> first_fit (bools (free_map s)) 0 (sector_cnt len) False = None \<or>
         \<not> malloc_ok s (allocs s) \<or> \<not> malloc_ok s (Suc (allocs s)))
    | Some (True, s') \<Rightarrow> fs_ok s' \<and> malloc_ok s' = malloc_ok s \<and> (\<exists>d. length_of d = len \<and> extent_ok (dev s') d \<and> contents (dev s') d = replicate (nat len) 0 \<and>
        (\<forall>i. used_sector s' i \<longleftrightarrow> used_sector s i \<or> in_extent d i) \<and> (\<forall>i. in_extent d i \<longrightarrow> \<not> used_sector s i) \<and>
        (\<forall>i. used_sector s i \<and> i \<noteq> sec \<and> (free_map_file s = 0 \<or> \<not> in_extent (data (fm_inode s)) i) \<longrightarrow> b_sectors (dev s') i = b_sectors (dev s) i) \<and>
        (case inode_open sec s' of
           None \<Rightarrow> False
         | Some (p, s'') \<Rightarrow> b_sectors (dev s'') = b_sectors (dev s') \<and>
             (case find (\<lambda>p. sector (inodes s p) = sec) (open_inodes s) of
                Some q \<Rightarrow> p = q \<and> data (inodes s'' p) = data (inodes s p)
              | None \<Rightarrow> if malloc_ok s' (allocs s') then p \<noteq> 0 \<and> data (inodes s'' p) = d \<and> open_cnt (inodes s'' p) = 1 else p = 0)))"
  using ok len sec
proof (cases rule: inode_create_any [of s len sec])
  case (full s')
  then show ?thesis by (simp add: used_sector_def fun_eq_iff)
next
  case (no_memory s')
  then show ?thesis by (simp add: used_sector_def fun_eq_iff)
next
  case (created st s')
  let ?d = "new_disk st len"
  have bs: "bit_cnt (free_map s) = b_size (dev s)" using ok by (simp add: fs_ok_def)
  have h: "open_inodes s' = open_inodes s" "inodes s' = inodes s" "b_size (dev s') = b_size (dev s)"
    using created(2) by (simp_all add: same_handles_def)
  have lt: "sec < b_size (dev s')" using sec(1) bs h(3) by (simp add: used_sector_def word_less_nat_alt)
  have bk: "bytes_inode (b_sectors (dev s') sec) = ?d" unfolding created(8) by (rule bytes_inode_bytes) (use len in simp_all)
  have ext: "extent_ok (dev s') ?d" using created(3,4) len h(3) by (simp add: extent_ok_def fs_ok_def)
  have zero: "contents (dev s') ?d = replicate (nat len) 0" using contents_zero [of ?d "dev s'"] created(9) ext len by simp
  have us: "used_sector s' i \<longleftrightarrow> used_sector s i \<or> in_extent ?d i" for i
    using created(4,6,7) bs by (auto simp: used_sector_def nth_fill in_extent_def)
  have fr: "\<not> used_sector s i" if "in_extent ?d i" for i
  proof -
    have "unat i - unat st < sector_cnt len" "unat st + (unat i - unat st) = unat i" using that by (auto simp: in_extent_def)
    then show ?thesis using created(5) unfolding all_eq_def used_sector_def by metis
  qed
  have op: "case inode_open sec s' of
      None \<Rightarrow> False
    | Some (p, s'') \<Rightarrow> b_sectors (dev s'') = b_sectors (dev s') \<and>
        (case find (\<lambda>p. sector (inodes s p) = sec) (open_inodes s) of
           Some q \<Rightarrow> p = q \<and> data (inodes s'' p) = data (inodes s p)
         | None \<Rightarrow> if malloc_ok s' (allocs s') then p \<noteq> 0 \<and> data (inodes s'' p) = ?d \<and> open_cnt (inodes s'' p) = 1 else p = 0)"
    using inode_open_any [OF lt] unfolding h bk .
  have keep: "\<forall>i. used_sector s i \<and> i \<noteq> sec \<and> (free_map_file s = 0 \<or> \<not> in_extent (data (fm_inode s)) i) \<longrightarrow> b_sectors (dev s') i = b_sectors (dev s) i"
    using created(10) fr by blast
  have "length_of ?d = len" by simp
  then have "\<exists>d. length_of d = len \<and> extent_ok (dev s') d \<and> contents (dev s') d = replicate (nat len) 0 \<and>
        (\<forall>i. used_sector s' i \<longleftrightarrow> used_sector s i \<or> in_extent d i) \<and> (\<forall>i. in_extent d i \<longrightarrow> \<not> used_sector s i) \<and>
        (\<forall>i. used_sector s i \<and> i \<noteq> sec \<and> (free_map_file s = 0 \<or> \<not> in_extent (data (fm_inode s)) i) \<longrightarrow> b_sectors (dev s') i = b_sectors (dev s) i) \<and>
        (case inode_open sec s' of
           None \<Rightarrow> False
         | Some (p, s'') \<Rightarrow> b_sectors (dev s'') = b_sectors (dev s') \<and>
             (case find (\<lambda>p. sector (inodes s p) = sec) (open_inodes s) of
                Some q \<Rightarrow> p = q \<and> data (inodes s'' p) = data (inodes s p)
              | None \<Rightarrow> if malloc_ok s' (allocs s') then p \<noteq> 0 \<and> data (inodes s'' p) = d \<and> open_cnt (inodes s'' p) = 1 else p = 0))"
    using ext zero us fr keep op by blast
  moreover have "malloc_ok s' = malloc_ok s" using created(2) by (simp add: same_handles_def)
  ultimately show ?thesis using created(1,3) by simp
qed

text \<open>A mounted file system: the free map is the file in sector 3 of the device.\<close>

definition sample_fm_fs :: fs where
  "sample_fm_fs = sample_fs\<lparr>open_inodes := [2], allocs := 5, free_map := \<lparr>bit_cnt = 64, bits = [0xC2B, 0]\<rparr>, free_map_file := 3,
     inodes := (inodes sample_fs)(2 := \<lparr>sector = 0, open_cnt = 1, removed = False, deny_write_cnt = 0,
       data = \<lparr>start = 3, length_of = 8, magic = INODE_MAGIC, unused = replicate 125 0\<rparr>\<rparr>),
     files := (files sample_fs)(3 := \<lparr>f_inode = 2, f_pos = 0, deny_write = False\<rparr>)\<rparr>"

lemma sample_fm_inode: "data (fm_inode sample_fm_fs) = \<lparr>start = 3, length_of = 8, magic = INODE_MAGIC, unused = replicate 125 0\<rparr>"
  "deny_write_cnt (fm_inode sample_fm_fs) = 0"
  by (simp_all add: fm_inode_def sample_fm_fs_def)

lemma sample_used: "used_sector sample_fm_fs 3" "used_sector sample_fm_fs 5" "\<not> used_sector sample_fm_fs 6"
  by (simp_all add: used_sector_def sample_fm_fs_def nth_bools bm_bit_def)

lemma sample_fm_ok: "fs_ok sample_fm_fs"
proof -
  have e: "in_extent (data (fm_inode sample_fm_fs)) i \<longleftrightarrow> i = 3" for i
    by (auto simp: in_extent_def sample_fm_inode sector_cnt_def word_unat_eq_iff)
  have "unat (byte_cnt 64) = 8" by code_simp
  then show ?thesis
    using sample_used(1) sample_fm_inode e
    by (simp add: fs_ok_def extent_ok_def sector_cnt_def sample_fm_fs_def sample_fs_def sample_dev_def dev_ok_def bm_wf_def)
qed

lemma sample_fit: "n \<le> 3 \<Longrightarrow> first_fit (bools (free_map sample_fm_fs)) 0 n False \<noteq> None"
proof -
  assume n: "n \<le> 3"
  have "\<not> bools (free_map sample_fm_fs) ! (12 + j)" if "j < n" for j
  proof -
    have "j = 0 \<or> j = 1 \<or> j = 2" using that n by auto
    then show ?thesis by (auto simp: sample_fm_fs_def nth_bools bm_bit_def)
  qed
  then have "all_eq (bools (free_map sample_fm_fs)) 12 n False" by (simp add: all_eq_def)
  moreover have "12 + n \<le> length (bools (free_map sample_fm_fs))" using n by (simp add: sample_fm_fs_def)
  ultimately show ?thesis unfolding first_fit_None by (auto intro!: exI [of _ 12])
qed

lemma sample_fm_memory: "malloc_ok sample_fm_fs n"
  by (simp add: sample_fm_fs_def sample_fs_def)

theorem free_map_allocate_fresh_witness:
  "\<exists>sec s'. free_map_allocate 3 sample_fm_fs = Some (Some sec, s') \<and> fs_ok s' \<and> \<not> used_sector sample_fm_fs sec \<and> used_sector s' sec \<and>
     contents (dev s') (data (fm_inode sample_fm_fs)) = bitmap_write_bytes (free_map s')"
proof -
  have f: "free_map_file sample_fm_fs \<noteq> 0" by (simp add: sample_fm_fs_def)
  note t = free_map_allocate_fresh [OF sample_fm_ok, of 3]
  obtain x s' where x: "free_map_allocate 3 sample_fm_fs = Some (x, s')" using t by (cases "free_map_allocate 3 sample_fm_fs") auto
  obtain sec where sec: "x = Some sec" using t sample_fit [of 3] sample_fm_memory x by (cases x) auto
  have "unat sec \<le> unat sec \<and> unat sec < unat sec + unat (3 :: size_t)" by simp
  then show ?thesis using t f unfolding x sec by auto
qed

theorem inode_create_open_witness:
  "\<exists>s' p s''. inode_create 5 1000 sample_fm_fs = Some (True, s') \<and> inode_open 5 s' = Some (p, s'') \<and> p \<noteq> 0 \<and>
     inode_length (inodes s'' p) = 1000 \<and> contents (dev s'') (data (inodes s'' p)) = replicate 1000 0"
proof -
  have n: "sector_cnt 1000 = 2" by (simp add: sector_cnt_def)
  have apart: "free_map_file sample_fm_fs = 0 \<or> \<not> in_extent (data (fm_inode sample_fm_fs)) 5"
    by (simp add: sample_fm_inode in_extent_def sector_cnt_def)
  have no: "find (\<lambda>p. sector (inodes sample_fm_fs p) = 5) (open_inodes sample_fm_fs) = None" by (simp add: sample_fm_fs_def)
  have "(0 :: int) \<le> 1000" "(1000 :: int) \<le> 2 ^ 31 - 512" by simp_all
  note t = inode_create_open [OF sample_fm_ok this sample_used(2) apart, unfolded no n option.case]
  obtain s' d where s': "inode_create 5 1000 sample_fm_fs = Some (True, s')" "malloc_ok s' = malloc_ok sample_fm_fs" "length_of d = 1000"
    "contents (dev s') d = replicate (nat 1000) 0"
    "case inode_open 5 s' of None \<Rightarrow> False | Some (p, s'') \<Rightarrow> b_sectors (dev s'') = b_sectors (dev s') \<and>
      (if malloc_ok s' (allocs s') then p \<noteq> 0 \<and> data (inodes s'' p) = d \<and> open_cnt (inodes s'' p) = 1 else p = 0)"
  proof (cases "inode_create 5 1000 sample_fm_fs")
    case None
    then show thesis using t by simp
  next
    case (Some y)
    then obtain x s' where y: "inode_create 5 1000 sample_fm_fs = Some (x, s')" by (cases y) simp
    have x: "x = True" using t sample_fit [of 2] sample_fm_memory unfolding y by (cases x) simp_all
    show thesis using t that [of s'] y unfolding y x by auto
  qed
  then obtain p s'' where p: "inode_open 5 s' = Some (p, s'')" "b_sectors (dev s'') = b_sectors (dev s')" "p \<noteq> 0" "data (inodes s'' p) = d"
    using sample_fm_memory by (auto split: option.splits)
  have "contents (dev s'') d = contents (dev s') d" using p(2) by (simp add: contents_def data_byte_def)
  then show ?thesis using s' p by (auto simp: inode_length_def)
qed

end
