(* ===== verification/Directory.thy ===== *)
theory Directory
  imports Freemap
begin

text \<open>
  Directories (\<open>filesys/directory.c\<close>): files of 20-byte entries (inode sector, file name, in-use flag).  A name is the list
  of its characters, without the terminator.  The lemmas read a directory as the list of its entries and show what
  \<open>dir_add\<close>, \<open>dir_lookup\<close> and \<open>dir_remove\<close> do to the names in it.
\<close>

definition NAME_MAX :: nat where "NAME_MAX = 14"

subsection \<open>Entries\<close>

text \<open>\<open>struct dir_entry\<close> as its bytes: 4 of the sector, 15 of the name, 1 of the flag.\<close>

type_synonym dir_entry = "u8 list"

definition e_inode_sector :: "dir_entry \<Rightarrow> u32" where
  "e_inode_sector e = hd (bytes_words (take 4 e))"

definition e_name :: "dir_entry \<Rightarrow> u8 list" where
  "e_name e = takeWhile (\<lambda>c. c \<noteq> 0) (drop 4 e)"

definition e_in_use :: "dir_entry \<Rightarrow> bool" where
  "e_in_use e \<longleftrightarrow> e ! 19 \<noteq> 0"

subsection \<open>Operations\<close>

definition dir_create :: "u32 \<Rightarrow> size_t \<Rightarrow> fs \<Rightarrow> (bool \<times> fs) option" where
  "dir_create sec entry_cnt s = inode_create sec (sint (entry_cnt * 20)) s"

definition set_dir :: "nat \<Rightarrow> dir \<Rightarrow> fs \<Rightarrow> fs" where
  "set_dir d v s = s\<lparr>dirs := (dirs s)(d := v)\<rparr>"

definition dir_open :: "nat \<Rightarrow> fs \<Rightarrow> (nat \<times> fs) option" where
  "dir_open p s =
     (let (d, s) = malloc s in
      if p \<noteq> 0 \<and> d \<noteq> 0 then Some (d, set_dir d \<lparr>d_inode = p, d_pos = 0\<rparr> s)
      else do { s \<leftarrow> inode_close p s; Some (0, s) })"

definition dir_open_root :: "fs \<Rightarrow> (nat \<times> fs) option" where
  "dir_open_root s = do { (p, s) \<leftarrow> inode_open ROOT_DIR_SECTOR s; dir_open p s }"

definition dir_reopen :: "nat \<Rightarrow> fs \<Rightarrow> (nat \<times> fs) option" where
  "dir_reopen d s = (let (p, s) = inode_reopen (d_inode (dirs s d)) s in dir_open p s)"

definition dir_close :: "nat \<Rightarrow> fs \<Rightarrow> fs option" where
  "dir_close d s = (if d \<noteq> 0 then inode_close (d_inode (dirs s d)) s else Some s)"

definition dir_get_inode :: "nat \<Rightarrow> fs \<Rightarrow> nat" where
  "dir_get_inode d s = d_inode (dirs s d)"

text \<open>The loop of \<open>lookup\<close>: the entry and its offset.\<close>

partial_function (option) lookup_loop :: "nat \<Rightarrow> u8 list \<Rightarrow> u32 \<Rightarrow> fs \<Rightarrow> ((dir_entry \<times> u32) option \<times> fs) option" where
  "lookup_loop p name ofs s = do {
     (e, s) \<leftarrow> inode_read_at p 20 (sint ofs) s;
     if length e = 20 then
       if e_in_use e \<and> name = e_name e then Some (Some (e, ofs), s)
       else lookup_loop p name (ofs + 20) s
     else Some (None, s)
   }"

definition lookup :: "nat \<Rightarrow> u8 list \<Rightarrow> fs \<Rightarrow> ((dir_entry \<times> u32) option \<times> fs) option" where
  "lookup d name s = do {
     ASSERT (d \<noteq> 0);
     lookup_loop (d_inode (dirs s d)) name 0 s
   }"

definition dir_lookup :: "nat \<Rightarrow> u8 list \<Rightarrow> fs \<Rightarrow> (nat \<times> fs) option" where
  "dir_lookup d name s = do {
     ASSERT (d \<noteq> 0);
     (r, s) \<leftarrow> lookup d name s;
     case r of Some (e, _) \<Rightarrow> inode_open (e_inode_sector e) s | None \<Rightarrow> Some (0, s)
   }"

text \<open>
  The search for a free slot in \<open>dir_add\<close>.  It reads into the variable \<open>e\<close>, which keeps what a short read leaves of its
  previous value.
\<close>

partial_function (option) free_slot_loop :: "nat \<Rightarrow> int \<Rightarrow> dir_entry \<Rightarrow> fs \<Rightarrow> (int \<times> dir_entry \<times> fs) option" where
  "free_slot_loop p ofs e s = do {
     (buf, s) \<leftarrow> inode_read_at p 20 ofs s;
     let e = buf @ drop (length buf) e;
     if length buf = 20 then
       if \<not> e_in_use e then Some (ofs, e, s)
       else free_slot_loop p (wrap32 (ofs + 20)) e s
     else Some (ofs, e, s)
   }"

text \<open>The entry to write: \<open>strlcpy\<close> copies the name with its terminator and leaves the rest of the array.\<close>

definition new_entry :: "dir_entry \<Rightarrow> u8 list \<Rightarrow> u32 \<Rightarrow> dir_entry" where
  "new_entry e name sec = word_bytes sec @ take 15 (name @ 0 # drop (4 + length name + 1) e) @ [1]"

text \<open>\<open>dir_add\<close>; \<open>garbage\<close> is what the variable \<open>e\<close> holds at first.\<close>

definition dir_add :: "dir_entry \<Rightarrow> nat \<Rightarrow> u8 list \<Rightarrow> u32 \<Rightarrow> fs \<Rightarrow> (bool \<times> fs) option" where
  "dir_add garbage d name inode_sector s = do {
     ASSERT (d \<noteq> 0);
     if name = [] \<or> length name > NAME_MAX then Some (False, s)
     else do {
       (r, s) \<leftarrow> lookup d name s;
       if r \<noteq> None then Some (False, s)
       else do {
         (ofs, e, s) \<leftarrow> free_slot_loop (d_inode (dirs s d)) 0 garbage s;
         (n, s) \<leftarrow> inode_write_at (d_inode (dirs s d)) (new_entry e name inode_sector) 20 ofs s;
         Some (n = 20, s)
       }
     }
   }"

definition dir_remove :: "nat \<Rightarrow> u8 list \<Rightarrow> fs \<Rightarrow> (bool \<times> fs) option" where
  "dir_remove d name s = do {
     ASSERT (d \<noteq> 0);
     (r, s) \<leftarrow> lookup d name s;
     case r of
       None \<Rightarrow> do { s \<leftarrow> inode_close 0 s; Some (False, s) }
     | Some (e, ofs) \<Rightarrow> do {
         (p, s) \<leftarrow> inode_open (e_inode_sector e) s;
         (success, s) \<leftarrow>
           (if p = 0 then Some (False, s)
            else do {
              (n, s) \<leftarrow> inode_write_at (d_inode (dirs s d)) (e[19 := 0]) 20 (sint ofs) s;
              if n \<noteq> 20 then Some (False, s)
              else do { s \<leftarrow> inode_remove p s; Some (True, s) }
            });
         s \<leftarrow> inode_close p s;
         Some (success, s)
       }
   }"

text \<open>\<open>dir_readdir\<close>: the next name in use.\<close>

partial_function (option) dir_readdir :: "nat \<Rightarrow> fs \<Rightarrow> (u8 list option \<times> fs) option" where
  "dir_readdir d s = do {
     (e, s) \<leftarrow> inode_read_at (d_inode (dirs s d)) 20 (d_pos (dirs s d)) s;
     if length e = 20 then do {
       let s = set_dir d ((dirs s d)\<lparr>d_pos := wrap32 (d_pos (dirs s d) + 20)\<rparr>) s;
       if e_in_use e then Some (Some (take NAME_MAX (e_name e)), s) else dir_readdir d s
     } else Some (None, s)
   }"

declare lookup_loop.simps [code] free_slot_loop.simps [code] dir_readdir.simps [code]

text \<open>The names that \<open>dir_add\<close> accepts.\<close>

definition valid_name :: "u8 list \<Rightarrow> bool" where
  "valid_name name \<longleftrightarrow> name \<noteq> [] \<and> length name \<le> NAME_MAX"

subsection \<open>A directory as the list of its entries\<close>

definition entry :: "u8 list \<Rightarrow> nat \<Rightarrow> dir_entry" where
  "entry c k = take 20 (drop (20 * k) c)"

definition matches :: "u8 list \<Rightarrow> dir_entry \<Rightarrow> bool" where
  "matches name e \<longleftrightarrow> e_in_use e \<and> name = e_name e"

definition find_entry :: "u8 list \<Rightarrow> u8 list \<Rightarrow> nat option" where
  "find_entry c name = find (\<lambda>k. matches name (entry c k)) [0..<length c div 20]"

text \<open>The inode sector of the file with a name.\<close>

definition dir_map :: "u8 list \<Rightarrow> u8 list \<Rightarrow> u32 option" where
  "dir_map c name = map_option (\<lambda>k. e_inode_sector (entry c k)) (find_entry c name)"

lemma length_entry: "length (entry c k) = 20 \<longleftrightarrow> k < length c div 20"
  by (auto simp: entry_def)

lemma length_contents: "extent_ok dv d \<Longrightarrow> length (contents dv d) < 2 ^ 31"
proof -
  assume "extent_ok dv d"
  then have "0 \<le> length_of d" "length_of d < 2 ^ 31" by (simp_all add: extent_ok_def)
  then have "nat (length_of d) < 2 ^ 31" by (simp add: nat_less_iff)
  then show ?thesis by (simp add: contents_def)
qed

lemma lookup_loop_eq:
  assumes "extent_ok (dev s) (data (inodes s p))" "\<And>n. malloc_ok s n" "c = contents (dev s) (data (inodes s p))" "k \<le> length c div 20"
  shows "\<exists>s'. lookup_loop p name (of_nat (20 * k)) s =
      Some (map_option (\<lambda>j. (entry c j, of_nat (20 * j))) (find (\<lambda>j. matches name (entry c j)) [k..<length c div 20]), s') \<and> reads s s'"
  using assms
proof (induction "length c div 20 - k" arbitrary: k s)
  case 0
  have lc: "length c < 2 ^ 31" using length_contents [OF 0(2)] 0(4) by simp
  have k: "20 * k < 2 ^ 31" "k = length c div 20" using 0 lc by auto
  then have sk: "sint (of_nat (20 * k) :: u32) = int (20 * k)" by (subst sint_small) (simp_all add: unat_of_nat del: of_nat_mult)
  obtain s' where s': "inode_read_at p 20 (int (20 * k)) s = Some (entry c k, s')" "reads s s'"
    using inode_read_at_eq [OF 0(2) k(1) 0(3), of 20] 0(4) by (auto simp: entry_def)
  have "length (entry c k) \<noteq> 20" using k(2) length_entry by simp
  then show ?case using s' sk k(2) by (subst lookup_loop.simps) (simp del: of_nat_mult)
next
  case (Suc n)
  have lc: "length c < 2 ^ 31" using length_contents [OF Suc.prems(1)] Suc.prems(3) by simp
  have kl: "k < length c div 20" using Suc.hyps(2) by simp
  then have k: "20 * k < 2 ^ 31" using lc by auto
  then have sk: "sint (of_nat (20 * k) :: u32) = int (20 * k)" by (subst sint_small) (simp_all add: unat_of_nat del: of_nat_mult)
  obtain s1 where s1: "inode_read_at p 20 (int (20 * k)) s = Some (entry c k, s1)" "reads s s1"
    using inode_read_at_eq [OF Suc.prems(1) k Suc.prems(2), of 20] Suc.prems(3) by (auto simp: entry_def)
  have le: "length (entry c k) = 20" using kl length_entry by simp
  have up: "[k..<length c div 20] = k # [Suc k..<length c div 20]" using kl by (rule upt_conv_Cons)
  show ?case
  proof (cases "matches name (entry c k)")
    case True
    then have "lookup_loop p name (of_nat (20 * k)) s = Some (Some (entry c k, of_nat (20 * k)), s1)"
      using s1 sk le by (subst lookup_loop.simps) (simp add: matches_def del: of_nat_mult)
    then show ?thesis using True s1(2) by (simp add: up del: of_nat_mult)
  next
    case False
    note sel = reads_sel [OF s1(2)]
    have c1: "c = contents (dev s1) (data (inodes s1 p))" using Suc.prems(3) sel by (simp add: contents_def)
    have n1: "n = length c div 20 - Suc k" using Suc.hyps(2) by simp
    have "extent_ok (dev s1) (data (inodes s1 p))" "\<And>n. malloc_ok s1 n" using Suc.prems(1,2) sel by simp_all
    from Suc.hyps(1) [OF n1 this c1] kl obtain s' where
      s': "lookup_loop p name (of_nat (20 * Suc k)) s1 =
        Some (map_option (\<lambda>j. (entry c j, of_nat (20 * j))) (find (\<lambda>j. matches name (entry c j)) [Suc k..<length c div 20]), s')" "reads s1 s'"
      by auto
    have nx: "of_nat (20 * k) + 20 = (of_nat (20 * Suc k) :: u32)" by simp
    have "lookup_loop p name (of_nat (20 * k)) s = lookup_loop p name (of_nat (20 * Suc k)) s1"
      using False s1 sk le unfolding nx [symmetric] by (subst (1) lookup_loop.simps) (auto simp: matches_def simp del: of_nat_mult)
    then show ?thesis using s' False reads_trans [OF s1(2) s'(2)] by (simp add: up del: of_nat_mult)
  qed
qed

text \<open>What a directory's file must satisfy.\<close>

definition dir_ok :: "fs \<Rightarrow> nat \<Rightarrow> bool" where
  "dir_ok s d \<longleftrightarrow> d \<noteq> 0 \<and> extent_ok (dev s) (data (inodes s (d_inode (dirs s d)))) \<and>
     deny_write_cnt (inodes s (d_inode (dirs s d))) = 0"

definition dir_contents :: "fs \<Rightarrow> nat \<Rightarrow> u8 list" where
  "dir_contents s d = contents (dev s) (data (inodes s (d_inode (dirs s d))))"

lemma lookup_eq:
  assumes "dir_ok s d" "\<And>n. malloc_ok s n"
  shows "\<exists>s'. lookup d name s =
    Some (map_option (\<lambda>j. (entry (dir_contents s d) j, of_nat (20 * j))) (find_entry (dir_contents s d) name), s') \<and> reads s s'"
  using lookup_loop_eq [of s "d_inode (dirs s d)" "dir_contents s d" 0 name] assms
  by (simp add: lookup_def dir_ok_def dir_contents_def find_entry_def)

lemma reads_dir:
  assumes "reads s s'"
  shows "dir_ok s' d = dir_ok s d" "dir_contents s' d = dir_contents s d"
  using reads_sel [OF assms] by (simp_all add: dir_ok_def dir_contents_def contents_def)

text \<open>The search for a free slot.\<close>

definition free_slot :: "u8 list \<Rightarrow> nat \<Rightarrow> nat" where
  "free_slot c k = (case find (\<lambda>j. \<not> e_in_use (entry c j)) [k..<length c div 20] of None \<Rightarrow> length c div 20 | Some j \<Rightarrow> j)"

lemma free_slot_loop_eq:
  assumes "extent_ok (dev s) (data (inodes s p))" "\<And>n. malloc_ok s n" "c = contents (dev s) (data (inodes s p))" "k \<le> length c div 20" "length e = 20"
  shows "\<exists>e' s'. free_slot_loop p (int (20 * k)) e s = Some (int (20 * free_slot c k), e', s') \<and> length e' = 20 \<and> reads s s'"
  using assms
proof (induction "length c div 20 - k" arbitrary: k e s)
  case 0
  have lc: "length c < 2 ^ 31" using length_contents [OF 0(2)] 0(4) by simp
  have k: "20 * k < 2 ^ 31" "k = length c div 20" using 0 lc by auto
  obtain s' where s': "inode_read_at p 20 (int (20 * k)) s = Some (entry c k, s')" "reads s s'"
    using inode_read_at_eq [OF 0(2) k(1) 0(3), of 20] 0(4) by (auto simp: entry_def)
  have "length (entry c k) \<noteq> 20" "length (entry c k) \<le> 20" using k(2) length_entry by (simp_all add: entry_def)
  moreover have "free_slot c k = k" using k(2) by (simp add: free_slot_def)
  ultimately show ?case using s' 0(6) by (subst free_slot_loop.simps) (simp del: of_nat_mult)
next
  case (Suc n)
  have lc: "length c < 2 ^ 31" using length_contents [OF Suc.prems(1)] Suc.prems(3) by simp
  have kl: "k < length c div 20" using Suc.hyps(2) by simp
  then have k: "20 * k < 2 ^ 31" "20 * Suc k < 2 ^ 31" using lc by auto
  obtain s1 where s1: "inode_read_at p 20 (int (20 * k)) s = Some (entry c k, s1)" "reads s s1"
    using inode_read_at_eq [OF Suc.prems(1) k(1) Suc.prems(2), of 20] Suc.prems(3) by (auto simp: entry_def)
  have le: "length (entry c k) = 20" using kl length_entry by simp
  have up: "[k..<length c div 20] = k # [Suc k..<length c div 20]" using kl by (rule upt_conv_Cons)
  show ?case
  proof (cases "e_in_use (entry c k)")
    case False
    then have "free_slot c k = k" by (simp add: free_slot_def up)
    moreover have "free_slot_loop p (int (20 * k)) e s = Some (int (20 * k), entry c k, s1)"
      using False s1 le Suc.prems(5) by (subst free_slot_loop.simps) (simp del: of_nat_mult)
    ultimately show ?thesis using s1(2) le by simp
  next
    case True
    then have fs: "free_slot c k = free_slot c (Suc k)" by (simp add: free_slot_def up)
    note sel = reads_sel [OF s1(2)]
    have c1: "c = contents (dev s1) (data (inodes s1 p))" using Suc.prems(3) sel by (simp add: contents_def)
    have n1: "n = length c div 20 - Suc k" using Suc.hyps(2) by simp
    have "extent_ok (dev s1) (data (inodes s1 p))" "\<And>n. malloc_ok s1 n" using Suc.prems(1,2) sel by simp_all
    from Suc.hyps(1) [OF n1 this c1 _ le] kl obtain e' s' where
      s': "free_slot_loop p (int (20 * Suc k)) (entry c k) s1 = Some (int (20 * free_slot c (Suc k)), e', s')" "length e' = 20" "reads s1 s'"
      by auto
    have nx: "wrap32 (int (20 * k) + 20) = int (20 * Suc k)" using k(2) by (subst wrap32_id) simp_all
    have "free_slot_loop p (int (20 * k)) e s = free_slot_loop p (int (20 * Suc k)) (entry c k) s1"
      using True s1 le Suc.prems(5) nx by (subst (1) free_slot_loop.simps) (simp del: of_nat_mult)
    then show ?thesis using s' fs reads_trans [OF s1(2) s'(3)] by auto
  qed
qed

lemma entry_splice_other:
  assumes "length x = w" "20 * j + w \<le> length c" "w \<le> 20" "c' = take (20 * j) c @ x @ drop (20 * j + w) c" "k \<noteq> j"
  shows "entry c' k = entry c k"
proof (cases "k < j")
  case True
  then have le: "20 * k + 20 \<le> 20 * j" by simp
  then have "take 20 (drop (20 * k) c') = take 20 (drop (20 * k) (take (20 * j) c))"
    using assms(2) unfolding assms(4) by simp
  also have "\<dots> = take 20 (drop (20 * k) c)" using le by (simp add: drop_take min_def)
  finally show ?thesis by (simp add: entry_def)
next
  case False
  then have "20 * j + 20 \<le> 20 * k" using assms(5) by simp
  then have "drop (20 * k) c' = drop (20 * k) c" using assms(1,2,3) unfolding assms(4) by (simp add: add.commute)
  then show ?thesis by (simp add: entry_def)
qed

lemma find_cong_list: "(\<And>x. x \<in> set xs \<Longrightarrow> P x = Q x) \<Longrightarrow> find P xs = find Q xs"
  by (induction xs) auto

lemma find_unique:
  assumes "j \<in> set xs" "P j" "\<And>x. x \<in> set xs \<Longrightarrow> P x \<Longrightarrow> x = j"
  shows "find P xs = Some j"
proof (cases "find P xs")
  case None
  then show ?thesis using assms(1,2) by (simp add: find_None_iff)
next
  case (Some y)
  then have "y \<in> set xs" "P y" by (auto simp: find_Some_iff)
  then show ?thesis using Some assms(3) by simp
qed

lemma new_entry_props:
  assumes "length e = 20" "length name \<le> 14" "0 \<notin> set name"
  shows "length (new_entry e name sec) = 20" "e_in_use (new_entry e name sec)" "e_name (new_entry e name sec) = name"
    "e_inode_sector (new_entry e name sec) = sec"
proof -
  define r where "r = take 15 (name @ 0 # drop (4 + length name + 1) e)"
  have n: "new_entry e name sec = word_bytes sec @ r @ [1]" by (simp only: new_entry_def r_def)
  have lr: "length r = 15" using assms by (simp add: r_def)
  have w: "length (word_bytes sec) = 4" by (simp add: word_bytes_def)
  show "length (new_entry e name sec) = 20" using lr w by (simp add: n)
  show "e_in_use (new_entry e name sec)" using lr w by (simp add: n e_in_use_def nth_append)
  have "r = name @ 0 # take (14 - length name) (drop (4 + length name + 1) e)" using assms(2) by (simp add: r_def take_Cons' Suc_diff_le)
  then have "drop 4 (new_entry e name sec) = name @ 0 # take (14 - length name) (drop (4 + length name + 1) e) @ [1]" using w by (simp add: n)
  then show "e_name (new_entry e name sec) = name" using assms(3) by (auto simp: e_name_def takeWhile_append)
  have "take 4 (new_entry e name sec) = word_bytes sec" using w by (simp add: n)
  then show "e_inode_sector (new_entry e name sec) = sec" using bytes_words_Cons [of sec "[]"] by (simp add: e_inode_sector_def)
qed

lemma dir_map_add:
  assumes "c' = take (20 * j) c @ x @ drop (20 * j + 20) c" "length x = 20" "j < length c div 20" "\<not> e_in_use (entry c j)"
    "find_entry c name = None" "e_in_use x" "e_name x = name"
  shows "dir_map c' name' = (if name' = name then Some (e_inode_sector x) else dir_map c name')" "length c' = length c"
proof -
  have l: "20 * j + 20 \<le> length c" using assms(3) by auto
  then show lc: "length c' = length c" using assms(1,2) by simp
  have e: "entry c' k = (if k = j then x else entry c k)" if "k < length c div 20" for k
    using entry_splice_other [OF assms(2) l _ assms(1)] assms(1,2) l by (auto simp: entry_def)
  have no: "\<not> matches name (entry c k)" if "k < length c div 20" for k using assms(5) that by (auto simp: find_entry_def find_None_iff)
  show "dir_map c' name' = (if name' = name then Some (e_inode_sector x) else dir_map c name')"
  proof (cases "name' = name")
    case True
    have "find_entry c' name = Some j" unfolding find_entry_def lc
    proof (rule find_unique)
      show "j \<in> set [0..<length c div 20]" using assms(3) by simp
      show "matches name (entry c' j)" using e [OF assms(3)] assms(6,7) by (simp add: matches_def)
      show "k = j" if "k \<in> set [0..<length c div 20]" "matches name (entry c' k)" for k
        using that e [of k] no [of k] by (cases "k = j") simp_all
    qed
    then show ?thesis using True e assms(3) by (simp add: dir_map_def)
  next
    case False
    have "find_entry c' name' = find_entry c name'" unfolding find_entry_def lc
    proof (rule find_cong_list)
      show "matches name' (entry c' k) = matches name' (entry c k)" if "k \<in> set [0..<length c div 20]" for k
        using that e [of k] False assms(4,7) by (cases "k = j") (simp_all add: matches_def)
    qed
    moreover have "k \<noteq> j" if "find_entry c name' = Some k" for k
      using that assms(4) by (auto simp: find_entry_def find_Some_iff matches_def)
    moreover have "k < length c div 20" if "find_entry c name' = Some k" for k
      using that by (auto simp: find_entry_def find_Some_iff)
    ultimately show ?thesis using False e by (cases "find_entry c name'") (simp_all add: dir_map_def)
  qed
qed

lemma dir_map_same:
  assumes "length c' = length c" "\<And>k. k < length c div 20 \<Longrightarrow> entry c' k = entry c k"
  shows "dir_map c' name = dir_map c name"
proof -
  have "find_entry c' name = find_entry c name" unfolding find_entry_def assms(1) by (rule find_cong_list) (simp add: assms(2))
  moreover have "k < length c div 20" if "find_entry c name = Some k" for k using that by (auto simp: find_entry_def find_Some_iff)
  ultimately show ?thesis using assms(2) by (cases "find_entry c name") (simp_all add: dir_map_def)
qed

lemma reads_wrote:
  assumes "reads s s'"
  shows "wrote s s'"
proof -
  obtain c a where "allocs s \<le> a" "s' = s\<lparr>dev := dev s\<lparr>b_read_cnt := c\<rparr>, allocs := a\<rparr>" using assms by (auto simp: reads_def)
  then show ?thesis unfolding wrote_def by (intro exI [of _ "dev s\<lparr>b_read_cnt := c\<rparr>"] exI [of _ a]) simp
qed

lemma dir_add_cases:
  assumes ok: "dir_ok s d" and mal: "\<And>n. malloc_ok s n" and name: "name \<noteq> []" "length name \<le> 14" "0 \<notin> set name" and g: "length g = 20"
    and c: "c = dir_contents s d"
  obtains (exists) s' where "dir_add g d name sec s = Some (False, s')" "reads s s'" "find_entry c name \<noteq> None"
  | (full) s' where "dir_add g d name sec s = Some (False, s')" "wrote s s'" "find_entry c name = None"
      "\<And>k. k < length c div 20 \<Longrightarrow> e_in_use (entry c k)" "\<And>name'. dir_map (dir_contents s' d) name' = dir_map c name'" "dir_ok s' d"
      "\<And>i. \<not> in_extent (data (inodes s (d_inode (dirs s d)))) i \<Longrightarrow> b_sectors (dev s') i = b_sectors (dev s) i"
  | (added) s' where "dir_add g d name sec s = Some (True, s')" "wrote s s'" "find_entry c name = None"
      "\<And>name'. dir_map (dir_contents s' d) name' = (if name' = name then Some sec else dir_map c name')" "dir_ok s' d"
      "\<And>i. \<not> in_extent (data (inodes s (d_inode (dirs s d)))) i \<Longrightarrow> b_sectors (dev s') i = b_sectors (dev s) i"
proof -
  let ?p = "d_inode (dirs s d)" and ?n = "length c div 20"
  let ?d = "data (inodes s ?p)"
  have d0: "d \<noteq> 0" using ok by (simp add: dir_ok_def)
  obtain s1 where l: "lookup d name s = Some (map_option (\<lambda>j. (entry c j, of_nat (20 * j))) (find_entry c name), s1)" "reads s s1"
    using lookup_eq [OF ok mal, of name] c by blast
  show thesis
  proof (cases "find_entry c name")
    case (Some k)
    then show thesis using l d0 name(1,2) by (intro that(1) [of s1]) (simp_all add: dir_add_def NAME_MAX_def)
  next
    case None
    note r1 = reads_sel [OF l(2)]
    have ext1: "extent_ok (dev s1) (data (inodes s1 ?p))" "\<And>n. malloc_ok s1 n" using ok mal r1 by (simp_all add: dir_ok_def)
    have c1: "c = contents (dev s1) (data (inodes s1 ?p))" using c r1 by (simp add: dir_contents_def contents_def)
    obtain e s2 where f: "free_slot_loop ?p 0 g s1 = Some (int (20 * free_slot c 0), e, s2)" "length e = 20" "reads s1 s2"
      using free_slot_loop_eq [OF ext1 c1 _ g, of 0] by auto
    note r2 = reads_sel [OF f(3)]
    let ?j = "free_slot c 0" and ?x = "new_entry e name sec"
    have jn: "?j \<le> ?n" by (auto simp: free_slot_def find_Some_iff split: option.splits)
    have lc: "length c = nat (length_of ?d)" using c by (simp add: dir_contents_def contents_def)
    have lb: "length c < 2 ^ 31" using length_contents [OF ext1(1)] c1 by simp
    have off: "20 * ?j < 2 ^ 31" using jn lb by auto
    note x = new_entry_props [OF f(2) name(2,3), of sec]
    have d2: "inodes s2 = inodes s" "dirs s2 = dirs s" "dirs s1 = dirs s" using r1 r2 by simp_all
    have ext2: "extent_ok (dev s2) (data (inodes s2 ?p))" "deny_write_cnt (inodes s2 ?p) = 0"
      using ok r1 r2 by (simp_all add: dir_ok_def)
    have m2: "malloc_ok s2 (allocs s2)" using mal r1 r2 by simp
    define w where "w = min 20 (length c - 20 * ?j)"
    obtain s3 where s3: "inode_write_at ?p ?x 20 (int (20 * ?j)) s2 = Some (w, s3)" "wrote s2 s3"
      "written_at (dev s2) (dev s3) ?d (20 * ?j) (take w ?x)"
      using inode_write_at_eq [OF ext2(1) off m2 ext2(2), of 20 ?x] x(1) d2(1) lc by (auto simp: w_def)
    have r: "dir_add g d name sec s = Some (w = 20, s3)"
      using l None d0 name(1,2) f(1) s3(1) d2 by (simp add: dir_add_def NAME_MAX_def Let_def)
    have wr: "wrote s s3" using wrote_trans [OF reads_wrote [OF reads_trans [OF l(2) f(3)]] s3(2)] .
    have d3: "inodes s3 = inodes s" "dirs s3 = dirs s" using wrote_sel [OF wr] by simp_all
    have dok: "dir_ok s3 d" using ok s3(3) d3 by (simp add: dir_ok_def written_at_def)
    have c2: "contents (dev s2) ?d = c" using c1 r1 r2 by (simp add: contents_def)
    have lw: "length (take w ?x) = w" using x(1) by (simp add: w_def)
    have wle: "20 * ?j + w \<le> length c" using jn by (auto simp: w_def)
    have c3: "dir_contents s3 d = take (20 * ?j) c @ take w ?x @ drop (20 * ?j + w) c"
    proof -
      have "20 * ?j + length (take w ?x) \<le> nat (length_of ?d)" using wle lw lc by simp
      from contents_written [OF s3(3) this] show ?thesis unfolding lw using d3 c2 by (simp add: dir_contents_def)
    qed
    have keep: "b_sectors (dev s3) i = b_sectors (dev s) i" if "\<not> in_extent ?d i" for i
      using s3(3) that r1(9) r2(9) by (simp add: written_at_def in_extent_def)
    show thesis
    proof (cases "?j < ?n")
      case True
      then have w20: "w = 20" by (auto simp: w_def)
      have nu: "\<not> e_in_use (entry c ?j)"
      proof (cases "find (\<lambda>j. \<not> e_in_use (entry c j)) [0..<?n]")
        case (Some k)
        then have "\<not> e_in_use (entry c k)" by (auto simp: find_Some_iff)
        then show ?thesis using Some by (simp add: free_slot_def)
      qed (use True in \<open>simp add: free_slot_def\<close>)
      have c3': "dir_contents s3 d = take (20 * ?j) c @ ?x @ drop (20 * ?j + 20) c" using c3 w20 x(1) by simp
      show thesis
        using that(3) [of s3] r w20 wr None dir_map_add(1) [OF c3' x(1) True nu None x(2,3)] x(4) dok keep by simp
    next
      case False
      then have jj: "?j = ?n" using jn by simp
      then have w: "w \<noteq> 20" "w < 20" by (auto simp: w_def)
      have all: "e_in_use (entry c k)" if "k < ?n" for k
      proof (cases "find (\<lambda>j. \<not> e_in_use (entry c j)) [0..<?n]")
        case None
        then show ?thesis using that by (auto simp: find_None_iff)
      next
        case (Some i)
        then have "i < ?n" by (auto simp: find_Some_iff)
        then show ?thesis using jj Some by (simp add: free_slot_def)
      qed
      have lc3: "length (dir_contents s3 d) = length c" using c3 wle lw by simp
      have "entry (dir_contents s3 d) k = entry c k" if "k < ?n" for k
        using entry_splice_other [OF lw wle _ c3, of k] w jj that by simp
      then have "dir_map (dir_contents s3 d) name' = dir_map c name'" for name' using dir_map_same [OF lc3] by simp
      then show thesis using that(2) [of s3] r w wr None all dok keep by simp
    qed
  qed
qed

lemma dir_add_invalid: "d \<noteq> 0 \<Longrightarrow> \<not> valid_name name \<Longrightarrow> dir_add g d name sec s = Some (False, s)"
  by (auto simp: dir_add_def valid_name_def)

subsection \<open>Low memory\<close>

text \<open>A read that fails for want of memory ends the searches early, at any entry.\<close>

lemma lookup_loop_any:
  assumes "extent_ok (dev s) (data (inodes s p))" "20 * k \<le> length (contents (dev s) (data (inodes s p)))"
  shows "\<exists>x s'. lookup_loop p name (of_nat (20 * k)) s = Some (x, s') \<and> reads s s'"
  using assms
proof (induction "length (contents (dev s) (data (inodes s p))) - 20 * k" arbitrary: k s rule: less_induct)
  case less
  let ?c = "contents (dev s) (data (inodes s p))"
  have k: "20 * k < 2 ^ 31" using length_contents [OF less.prems(1)] less.prems(2) by simp
  then have sk: "sint (of_nat (20 * k) :: u32) = int (20 * k)" by (subst sint_small) (simp_all add: unat_of_nat del: of_nat_mult)
  obtain n s1 where s1: "inode_read_at p 20 (int (20 * k)) s = Some (take n (drop (20 * k) ?c), s1)" "reads s s1" "n \<le> min 20 (length ?c - 20 * k)"
    using inode_read_at_any [OF less.prems(1) k, of 20] by auto
  show ?case
  proof (cases "n = 20 \<and> \<not> matches name (take n (drop (20 * k) ?c))")
    case True
    note sel = reads_sel [OF s1(2)]
    have c1: "contents (dev s1) (data (inodes s1 p)) = ?c" using sel by (simp add: contents_def)
    have le: "20 * Suc k \<le> length ?c" using True s1(3) by simp
    then have lt: "length ?c - 20 * Suc k < length ?c - 20 * k" by simp
    have "extent_ok (dev s1) (data (inodes s1 p))" using less.prems(1) sel by simp
    then obtain x s' where s': "lookup_loop p name (of_nat (20 * Suc k)) s1 = Some (x, s')" "reads s1 s'"
      using less.hyps [of s1 "Suc k"] le c1 lt by (auto simp del: of_nat_mult mult_Suc_right)
    have nx: "of_nat (20 * k) + 20 = (of_nat (20 * Suc k) :: u32)" by simp
    have "length (take n (drop (20 * k) ?c)) = 20" using True le by simp
    then have "lookup_loop p name (of_nat (20 * k)) s = lookup_loop p name (of_nat (20 * Suc k)) s1"
      using True s1(1) sk unfolding nx [symmetric] by (subst (1) lookup_loop.simps) (auto simp: matches_def simp del: of_nat_mult)
    then show ?thesis using s' reads_trans [OF s1(2) s'(2)] by auto
  next
    case False
    then show ?thesis using s1 sk by (subst lookup_loop.simps) (auto simp: matches_def simp del: of_nat_mult)
  qed
qed

lemma free_slot_loop_any:
  assumes "extent_ok (dev s) (data (inodes s p))" "20 * k \<le> length (contents (dev s) (data (inodes s p)))" "length e = 20"
  shows "\<exists>ofs e' s'. free_slot_loop p (int (20 * k)) e s = Some (int ofs, e', s') \<and> reads s s' \<and> length e' = 20 \<and>
    ofs \<le> length (contents (dev s) (data (inodes s p)))"
  using assms
proof (induction "length (contents (dev s) (data (inodes s p))) - 20 * k" arbitrary: k e s rule: less_induct)
  case less
  let ?c = "contents (dev s) (data (inodes s p))"
  have lc: "length ?c < 2 ^ 31" by (rule length_contents [OF less.prems(1)])
  have k: "20 * k < 2 ^ 31" using lc less.prems(2) by simp
  obtain n s1 where s1: "inode_read_at p 20 (int (20 * k)) s = Some (take n (drop (20 * k) ?c), s1)" "reads s s1" "n \<le> min 20 (length ?c - 20 * k)"
    using inode_read_at_any [OF less.prems(1) k, of 20] by auto
  let ?e = "take n (drop (20 * k) ?c) @ drop n e"
  have ln: "length (take n (drop (20 * k) ?c)) = n" "length ?e = 20" using s1(3) less.prems(3) by auto
  show ?case
  proof (cases "n = 20 \<and> e_in_use ?e")
    case True
    note sel = reads_sel [OF s1(2)]
    have c1: "contents (dev s1) (data (inodes s1 p)) = ?c" using sel by (simp add: contents_def)
    have le: "20 * Suc k \<le> length ?c" using True s1(3) by simp
    then have lt: "length ?c - 20 * Suc k < length ?c - 20 * k" by simp
    have "extent_ok (dev s1) (data (inodes s1 p))" using less.prems(1) sel by simp
    then obtain ofs e' s' where s': "free_slot_loop p (int (20 * Suc k)) ?e s1 = Some (int ofs, e', s')" "reads s1 s'" "length e' = 20" "ofs \<le> length ?c"
      using less.hyps [of s1 "Suc k" ?e] le c1 ln(2) lt by (auto simp del: of_nat_mult mult_Suc_right)
    have nx: "wrap32 (int (20 * k) + 20) = int (20 * Suc k)" using le lc by (subst wrap32_id) simp_all
    have ee: "take 20 (drop (20 * k) ?c) = ?e" using True less.prems(3) by simp
    have "free_slot_loop p (int (20 * k)) e s = free_slot_loop p (int (20 * Suc k)) (take 20 (drop (20 * k) ?c)) s1"
      using conjunct2 [OF True] s1(1) ln(1) nx less.prems(3) conjunct1 [OF True] unfolding ee [symmetric]
      by (subst (1) free_slot_loop.simps) (simp add: Let_def del: of_nat_mult)
    then show ?thesis using s' reads_trans [OF s1(2) s'(2)] unfolding ee by auto
  next
    case False
    then have "free_slot_loop p (int (20 * k)) e s = Some (int (20 * k), ?e, s1)"
      using s1(1) ln by (subst free_slot_loop.simps) (auto simp: Let_def simp del: of_nat_mult)
    then show ?thesis using s1(2) ln(2) less.prems(2) by blast
  qed
qed

lemma dir_add_any:
  assumes ok: "dir_ok s d" and z: "0 \<notin> set name" and g: "length g = 20"
  shows "\<exists>x s'. dir_add g d name sec s = Some (x, s') \<and> wrote s s' \<and>
    (\<forall>i. \<not> in_extent (data (inodes s (d_inode (dirs s d)))) i \<longrightarrow> b_sectors (dev s') i = b_sectors (dev s) i) \<and>
    (x \<longrightarrow> 20 \<le> length (dir_contents s d))"
proof (cases "valid_name name")
  case False
  have "d \<noteq> 0" using ok by (simp add: dir_ok_def)
  then show ?thesis using dir_add_invalid [OF _ False] wrote_step(3) [of "dev s" s] by auto
next
  case True
  let ?p = "d_inode (dirs s d)"
  have d0: "d \<noteq> 0" and ext: "extent_ok (dev s) (data (inodes s ?p))" using ok by (simp_all add: dir_ok_def)
  have v: "name \<noteq> []" "length name \<le> 14" using True by (simp_all add: valid_name_def NAME_MAX_def)
  obtain x s1 where l: "lookup d name s = Some (x, s1)" "reads s s1"
    using lookup_loop_any [OF ext, of 0 name] d0 by (auto simp: lookup_def)
  note r1 = reads_sel [OF l(2)]
  show ?thesis
  proof (cases x)
    case (Some y)
    then show ?thesis using l d0 v r1(9) reads_wrote [OF l(2)]
      by (intro exI [of _ False] exI [of _ s1]) (simp add: dir_add_def NAME_MAX_def)
  next
    case None
    have ext1: "extent_ok (dev s1) (data (inodes s1 ?p))" using ext r1 by simp
    obtain ofs e s2 where f: "free_slot_loop ?p 0 g s1 = Some (int ofs, e, s2)" "reads s1 s2" "length e = 20"
        "ofs \<le> length (contents (dev s1) (data (inodes s1 ?p)))"
      using free_slot_loop_any [OF ext1 _ g, of 0] by auto
    note r2 = reads_sel [OF f(2)]
    have off: "ofs < 2 ^ 31" using f(4) length_contents [OF ext1] by simp
    have ext2: "extent_ok (dev s2) (data (inodes s2 ?p))" using ext1 r2 by simp
    have lx: "(20 :: nat) \<le> length (new_entry e name sec)" using new_entry_props(1) [OF f(3) v(2) z] by simp
    obtain w s3 where s3: "inode_write_at ?p (new_entry e name sec) 20 (int ofs) s2 = Some (w, s3)" "wrote s2 s3"
      "written_at (dev s2) (dev s3) (data (inodes s2 ?p)) ofs (take w (new_entry e name sec))" "w \<le> nat (length_of (data (inodes s2 ?p))) - ofs"
      using inode_write_at_any [OF ext2 off lx] by auto
    have "dir_add g d name sec s = Some (w = 20, s3)"
      using l None d0 v f(1) s3(1) r1(5) r2(5) by (simp add: dir_add_def NAME_MAX_def Let_def)
    moreover have "wrote s s3" using wrote_trans [OF reads_wrote [OF reads_trans [OF l(2) f(2)]] s3(2)] .
    moreover have "b_sectors (dev s3) i = b_sectors (dev s) i" if "\<not> in_extent (data (inodes s ?p)) i" for i
      using s3(3) that r1(3,9) r2(3,9) by (simp add: written_at_def in_extent_def)
    moreover have "20 \<le> length (dir_contents s d)" if "w = 20" using s3(4) that r1(3) r2(3) by (simp add: dir_contents_def contents_def)
    ultimately show ?thesis by blast
  qed
qed

text \<open>Both searches fail to allocate their buffers: what \<open>dir_add\<close> does next is up to the allocation of the write.\<close>

lemma dir_add_blind:
  assumes ok: "dir_ok s d" and v: "valid_name name" and z: "0 \<notin> set name" and g: "length g = 20"
    and c: "0 < length (dir_contents s d)" and m: "\<not> malloc_ok s (allocs s)" "\<not> malloc_ok s (Suc (allocs s))"
  shows "dir_add g d name sec s = do {
      (n, s') \<leftarrow> inode_write_at (d_inode (dirs s d)) (new_entry g name sec) 20 0 (s\<lparr>allocs := Suc (Suc (allocs s))\<rparr>);
      Some (n = 20, s') }"
proof -
  let ?p = "d_inode (dirs s d)"
  have d0: "d \<noteq> 0" and ext: "extent_ok (dev s) (data (inodes s ?p))" using ok by (simp_all add: dir_ok_def)
  have l: "0 < nat (length_of (data (inodes s ?p)))" using c by (simp add: dir_contents_def contents_def)
  have r: "inode_read_at ?p 20 0 (s\<lparr>allocs := a\<rparr>) = Some ([], s\<lparr>allocs := Suc a\<rparr>)" if "\<not> malloc_ok s a" for a
    using inode_at_no_memory(1) [of "s\<lparr>allocs := a\<rparr>" ?p 0 20] ext l that by simp
  have s0: "s\<lparr>allocs := allocs s\<rparr> = s" by simp
  have "lookup d name s = Some (None, s\<lparr>allocs := Suc (allocs s)\<rparr>)"
    using d0 r [OF m(1)] unfolding s0 by (subst lookup_def, subst lookup_loop.simps) simp
  moreover have "free_slot_loop ?p 0 g (s\<lparr>allocs := Suc (allocs s)\<rparr>) = Some (0, g, s\<lparr>allocs := Suc (Suc (allocs s))\<rparr>)"
    using r [OF m(2)] by (subst free_slot_loop.simps) simp
  ultimately show ?thesis using d0 v by (auto simp: dir_add_def valid_name_def Let_def)
qed

lemma dir_add_no_memory:
  assumes ok: "dir_ok s d" and z: "0 \<notin> set name" and g: "length g = 20" and m: "\<And>n. \<not> malloc_ok s n"
  shows "\<exists>s'. dir_add g d name sec s = Some (False, s') \<and> b_sectors (dev s') = b_sectors (dev s)"
proof -
  let ?p = "d_inode (dirs s d)" and ?s = "s\<lparr>allocs := Suc (Suc (allocs s))\<rparr>"
  have ext: "extent_ok (dev s) (data (inodes s ?p))" "deny_write_cnt (inodes s ?p) = 0" and d0: "d \<noteq> 0" using ok by (simp_all add: dir_ok_def)
  have lc: "length (dir_contents s d) = nat (length_of (data (inodes s ?p)))" by (simp add: dir_contents_def contents_def)
  consider "\<not> valid_name name" | "valid_name name" "0 < length (dir_contents s d)" | "dir_contents s d = []" by blast
  then show ?thesis
  proof cases
    case 1
    then show ?thesis using dir_add_invalid [OF d0] by simp
  next
    case 2
    have "inode_write_at ?p (new_entry g name sec) (int 20) (int 0) ?s = Some (0, ?s\<lparr>allocs := Suc (allocs ?s)\<rparr>)"
      by (rule inode_at_no_memory(2)) (use ext 2(2) m in \<open>simp_all add: lc\<close>)
    then show ?thesis using dir_add_blind [OF ok 2(1) z g 2(2) m m, of sec] by simp
  next
    case 3
    obtain x s' where x: "dir_add g d name sec s = Some (x, s')" "\<And>i. \<not> in_extent (data (inodes s ?p)) i \<Longrightarrow> b_sectors (dev s') i = b_sectors (dev s) i"
      "x \<longrightarrow> 20 \<le> length (dir_contents s d)"
      using dir_add_any [OF ok z g, of sec] by blast
    have "length_of (data (inodes s ?p)) = 0" using 3 lc ext(1) by (simp add: extent_ok_def)
    then have "\<not> in_extent (data (inodes s ?p)) i" for i by (simp add: in_extent_def sector_cnt_def)
    then show ?thesis using x 3 by auto
  qed
qed

lemma dir_add_overwrites:
  assumes ok: "dir_ok s d" and v: "valid_name name" and z: "0 \<notin> set name" and g: "length g = 20" and c: "20 \<le> length (dir_contents s d)"
    and m: "\<not> malloc_ok s (allocs s)" "\<not> malloc_ok s (Suc (allocs s))" "malloc_ok s (Suc (Suc (allocs s)))"
  shows "\<exists>s'. dir_add g d name sec s = Some (True, s') \<and> dir_contents s' d = new_entry g name sec @ drop 20 (dir_contents s d)"
proof -
  let ?p = "d_inode (dirs s d)" and ?s = "s\<lparr>allocs := Suc (Suc (allocs s))\<rparr>" and ?x = "new_entry g name sec"
  have ext: "extent_ok (dev ?s) (data (inodes ?s ?p))" "deny_write_cnt (inodes ?s ?p) = 0" using ok by (simp_all add: dir_ok_def)
  have lx: "length ?x = 20" by (rule new_entry_props(1)) (use v z g in \<open>simp_all add: valid_name_def NAME_MAX_def\<close>)
  have lc: "20 \<le> nat (length_of (data (inodes s ?p)))" using c by (simp add: dir_contents_def contents_def)
  obtain s' where s': "inode_write_at ?p ?x (int 20) (int 0) ?s = Some (20, s')" "wrote ?s s'" "written_at (dev ?s) (dev s') (data (inodes ?s ?p)) 0 ?x"
    using inode_write_at_eq [OF ext(1) _ _ ext(2), of 0 20 ?x] m(3) lx lc by auto
  have "0 < length (dir_contents s d)" using c by auto
  from dir_add_blind [OF ok v z g this m(1,2), of sec] s'(1) have "dir_add g d name sec s = Some (True, s')" by simp
  moreover have "contents (dev s') (data (inodes ?s ?p)) = ?x @ drop 20 (contents (dev ?s) (data (inodes ?s ?p)))"
    using contents_written [OF s'(3)] lx lc by simp
  ultimately show ?thesis using wrote_sel [OF s'(2)] by (simp add: dir_contents_def)
qed

text \<open>
  C8: dir_add on an open, writable directory, for a name without NUL, returns and changes sectors of
  the directory only. It returns false and changes nothing if the name is empty or longer than 14
  characters. When every malloc succeeds, the directory read as a map from names to inode sectors
  changes by exactly the new name and lookup then finds it and every other name as before, or
  dir_add returns false with the map unchanged, only if the name exists or no slot is free. When no
  malloc succeeds it returns false and changes nothing on disk. When the first two allocations fail
  and the third succeeds, both searches stop early and the first entry of the directory is
  overwritten.
\<close>

theorem dir_add_lookup:
  assumes ok: "dir_ok s d" and z: "0 \<notin> set name" and g: "length g = 20"
  defines "c \<equiv> dir_contents s d"
  shows "\<exists>x s'. dir_add g d name sec s = Some (x, s') \<and>
    (\<forall>i. \<not> in_extent (data (inodes s (d_inode (dirs s d)))) i \<longrightarrow> b_sectors (dev s') i = b_sectors (dev s) i) \<and>
    (\<not> valid_name name \<longrightarrow> \<not> x \<and> s' = s) \<and>
    (valid_name name \<and> memory_ok s \<longrightarrow>
       (if x then dir_ok s' d \<and> dir_map c name = None \<and> dir_map (dir_contents s' d) = (dir_map c)(name \<mapsto> sec) \<and>
          (\<forall>name'. \<exists>y s''. lookup d name' s' = Some (y, s'') \<and> map_option (\<lambda>(e, _). e_inode_sector e) y = ((dir_map c)(name \<mapsto> sec)) name')
        else dir_map (dir_contents s' d) = dir_map c \<and> (dir_map c name \<noteq> None \<or> (\<forall>k < length c div 20. e_in_use (entry c k))))) \<and>
    ((\<forall>n. \<not> malloc_ok s n) \<longrightarrow> \<not> x \<and> b_sectors (dev s') = b_sectors (dev s)) \<and>
    (valid_name name \<and> 20 \<le> length c \<and> \<not> malloc_ok s (allocs s) \<and> \<not> malloc_ok s (Suc (allocs s)) \<and> malloc_ok s (Suc (Suc (allocs s))) \<longrightarrow>
       x \<and> dir_contents s' d = new_entry g name sec @ drop 20 c)"
proof -
  have d0: "d \<noteq> 0" using ok by (simp add: dir_ok_def)
  obtain x s' where x: "dir_add g d name sec s = Some (x, s')" "wrote s s'"
    "\<forall>i. \<not> in_extent (data (inodes s (d_inode (dirs s d)))) i \<longrightarrow> b_sectors (dev s') i = b_sectors (dev s) i"
    using dir_add_any [OF ok z g, of sec] by blast
  have invalid: "\<not> x \<and> s' = s" if "\<not> valid_name name" using dir_add_invalid [OF d0 that] x(1) by simp
  have map: "if x then dir_ok s' d \<and> dir_map c name = None \<and> dir_map (dir_contents s' d) = (dir_map c)(name \<mapsto> sec) \<and>
      (\<forall>name'. \<exists>y s''. lookup d name' s' = Some (y, s'') \<and> map_option (\<lambda>(e, _). e_inode_sector e) y = ((dir_map c)(name \<mapsto> sec)) name')
    else dir_map (dir_contents s' d) = dir_map c \<and> (dir_map c name \<noteq> None \<or> (\<forall>k < length c div 20. e_in_use (entry c k)))"
    if v: "valid_name name" and m: "memory_ok s"
  proof -
    have mal: "\<And>n. malloc_ok s n" using m by (simp add: memory_ok_def)
    have n: "name \<noteq> []" "length name \<le> 14" using v by (simp_all add: valid_name_def NAME_MAX_def)
    show ?thesis
    proof (cases rule: dir_add_cases [OF ok mal n z g refl, of sec, case_names exists full added])
      case (exists s1)
      then show ?thesis using x(1) reads_dir [OF exists(2)] by (simp add: dir_map_def c_def)
    next
      case (full s1)
      then show ?thesis using x(1) by (auto simp: c_def)
    next
      case (added s1)
      then have s1: "s1 = s'" "x" using x(1) by simp_all
      have m': "\<And>n. malloc_ok s' n" using mal wrote_sel(9) [OF x(2)] by simp
      have u: "dir_map (dir_contents s' d) = (dir_map c)(name \<mapsto> sec)" using added(4) s1 by (auto simp: c_def)
      have "\<exists>y s''. lookup d name' s' = Some (y, s'') \<and> map_option (\<lambda>(e, _). e_inode_sector e) y = dir_map (dir_contents s' d) name'" for name'
        using lookup_eq [OF added(5) [unfolded s1(1)] m', of name'] by (auto simp: dir_map_def option.map_comp comp_def)
      then show ?thesis using s1 u added(3,5) by (simp add: dir_map_def c_def)
    qed
  qed
  have none: "\<not> x \<and> b_sectors (dev s') = b_sectors (dev s)" if "\<forall>n. \<not> malloc_ok s n"
    using dir_add_no_memory [OF ok z g, of sec] that x(1) by auto
  have over: "x \<and> dir_contents s' d = new_entry g name sec @ drop 20 c"
    if "valid_name name \<and> 20 \<le> length c \<and> \<not> malloc_ok s (allocs s) \<and> \<not> malloc_ok s (Suc (allocs s)) \<and> malloc_ok s (Suc (Suc (allocs s)))"
    using dir_add_overwrites [OF ok _ z g, of sec] that x(1) by (auto simp: c_def)
  show ?thesis using x(1,3) invalid map none over by blast
qed

text \<open>A directory of 50 free entries.\<close>

definition sample_dir_fs :: fs where
  "sample_dir_fs = sample_fs\<lparr>dirs := \<lambda>_. \<lparr>d_inode = 1, d_pos = 0\<rparr>\<rparr>"

lemma sample_dir_contents: "dir_contents sample_dir_fs 2 = replicate 1000 0"
proof -
  have "dir_contents sample_dir_fs 2 = contents (dev sample_fs) (data (inodes sample_fs 1))" by (simp add: dir_contents_def sample_dir_fs_def)
  also have "\<dots> = replicate (nat (length_of (data (inodes sample_fs 1)))) 0"
    by (rule contents_zero [OF _ _ sample_extent]) (simp_all add: sample_fs_def sample_dev_def sample_inode_def)
  finally show ?thesis by (simp add: sample_fs_def sample_inode_def)
qed

lemma entry_zero: "k < 50 \<Longrightarrow> entry (replicate 1000 0) k = replicate 20 0"
  by (simp add: entry_def min_def)

theorem dir_add_lookup_witness:
  "\<exists>s'. dir_add (replicate 20 9) 2 [97] 7 sample_dir_fs = Some (True, s') \<and> dir_map (dir_contents s' 2) [97] = Some 7 \<and>
     (\<exists>r s''. lookup 2 [97] s' = Some (r, s'') \<and> map_option (\<lambda>(e, _). e_inode_sector e) r = Some 7)"
proof -
  have ok: "dir_ok sample_dir_fs 2" using sample_extent by (simp add: dir_ok_def sample_dir_fs_def sample_fs_def sample_inode_def)
  have "find_entry (replicate 1000 0) [97] = None" by (auto simp: find_entry_def find_None_iff matches_def entry_zero e_in_use_def)
  then have none: "dir_map (dir_contents sample_dir_fs 2) [97] = None" by (simp add: dir_map_def sample_dir_contents)
  have free: "\<not> e_in_use (entry (dir_contents sample_dir_fs 2) 0)" by (simp add: sample_dir_contents entry_zero e_in_use_def)
  have len: "0 < length (dir_contents sample_dir_fs 2) div 20" by (simp add: sample_dir_contents)
  have mem: "memory_ok sample_dir_fs" by (simp add: memory_ok_def sample_dir_fs_def sample_fs_def)
  have v: "valid_name [97]" by (simp add: valid_name_def NAME_MAX_def)
  have g: "length (replicate 20 9 :: u8 list) = 20" "0 \<notin> set ([97] :: u8 list)" by simp_all
  obtain x s' where x: "dir_add (replicate 20 9) 2 [97] 7 sample_dir_fs = Some (x, s')"
    "if x then dir_ok s' 2 \<and> dir_map (dir_contents sample_dir_fs 2) [97] = None \<and> dir_map (dir_contents s' 2) = (dir_map (dir_contents sample_dir_fs 2))([97] \<mapsto> 7) \<and>
      (\<forall>name'. \<exists>y s''. lookup 2 name' s' = Some (y, s'') \<and>
         map_option (\<lambda>(e, _). e_inode_sector e) y = ((dir_map (dir_contents sample_dir_fs 2))([97] \<mapsto> 7)) name')
    else dir_map (dir_contents s' 2) = dir_map (dir_contents sample_dir_fs 2) \<and>
      (dir_map (dir_contents sample_dir_fs 2) [97] \<noteq> None \<or>
       (\<forall>k < length (dir_contents sample_dir_fs 2) div 20. e_in_use (entry (dir_contents sample_dir_fs 2) k)))"
    using dir_add_lookup [OF ok g(2,1), of 7] v mem by blast
  have "x" using x(2) none free len by (cases x) auto
  then have t: "dir_add (replicate 20 9) 2 [97] 7 sample_dir_fs = Some (True, s')" "dir_map (dir_contents s' 2) [97] = Some 7"
    and all: "\<forall>name'. \<exists>y s''. lookup 2 name' s' = Some (y, s'') \<and>
      map_option (\<lambda>(e, _). e_inode_sector e) y = ((dir_map (dir_contents sample_dir_fs 2))([97] \<mapsto> 7)) name'"
    using x by simp_all
  from spec [OF all, of "[97]", unfolded fun_upd_same] t show ?thesis by blast
qed

end
