(* ===== verification/Filesys.thy ===== *)
theory Filesys
  imports Directory
begin

text \<open>
  The file system (\<open>filesys/filesys.c\<close>): formatting, mounting, and creating, opening and removing files by name in the root
  directory.
\<close>

definition do_format :: "fs \<Rightarrow> fs option" where
  "do_format s = do {
     s \<leftarrow> free_map_create s;
     (ok, s) \<leftarrow> dir_create ROOT_DIR_SECTOR 16 s;
     ASSERT ok;
     free_map_close s
   }"

text \<open>\<open>filesys_init\<close>, given the device in the role of the file system, if there is one.\<close>

definition filesys_init :: "u32 list \<Rightarrow> block option \<Rightarrow> bool \<Rightarrow> fs \<Rightarrow> fs option" where
  "filesys_init garbage fs_device format s = do {
     d \<leftarrow> fs_device;
     let s = inode_init (s\<lparr>dev := d\<rparr>);
     s \<leftarrow> free_map_init garbage s;
     s \<leftarrow> (if format then do_format s else Some s);
     free_map_open s
   }"

definition filesys_done :: "fs \<Rightarrow> fs option" where
  "filesys_done s = free_map_close s"

text \<open>\<open>filesys_create\<close>; \<open>garbage\<close> is the stack memory that \<open>dir_add\<close> uses.\<close>

definition filesys_create :: "dir_entry \<Rightarrow> u8 list \<Rightarrow> int \<Rightarrow> fs \<Rightarrow> (bool \<times> fs) option" where
  "filesys_create garbage name initial_size s = do {
     (d, s) \<leftarrow> dir_open_root s;
     (success, inode_sector, s) \<leftarrow>
       (if d = 0 then Some (False, 0, s)
        else do {
          (r, s) \<leftarrow> free_map_allocate 1 s;
          case r of
            None \<Rightarrow> Some (False, 0, s)
          | Some sec \<Rightarrow> do {
              (ok, s) \<leftarrow> inode_create sec initial_size s;
              if \<not> ok then Some (False, sec, s)
              else do { (ok, s) \<leftarrow> dir_add garbage d name sec s; Some (ok, sec, s) }
            }
        });
     s \<leftarrow> (if \<not> success \<and> inode_sector \<noteq> 0 then free_map_release inode_sector 1 s else Some s);
     s \<leftarrow> dir_close d s;
     Some (success, s)
   }"

definition filesys_open :: "u8 list \<Rightarrow> fs \<Rightarrow> (nat \<times> fs) option" where
  "filesys_open name s = do {
     (d, s) \<leftarrow> dir_open_root s;
     (p, s) \<leftarrow> (if d \<noteq> 0 then dir_lookup d name s else Some (0, s));
     s \<leftarrow> dir_close d s;
     file_open p s
   }"

definition filesys_remove :: "u8 list \<Rightarrow> fs \<Rightarrow> (bool \<times> fs) option" where
  "filesys_remove name s = do {
     (d, s) \<leftarrow> dir_open_root s;
     (success, s) \<leftarrow> (if d \<noteq> 0 then dir_remove d name s else Some (False, s));
     s \<leftarrow> dir_close d s;
     Some (success, s)
   }"

subsection \<open>A mounted file system\<close>

definition root_disk :: "fs \<Rightarrow> inode_disk" where
  "root_disk s = bytes_inode (b_sectors (dev s) ROOT_DIR_SECTOR)"

text \<open>The files: for a name in the root directory, the sector of its inode.\<close>

definition root_map :: "fs \<Rightarrow> u8 list \<Rightarrow> u32 option" where
  "root_map s name = dir_map (contents (dev s) (root_disk s)) name"

text \<open>
  The invariant of a mounted file system between two operations: the free map is open and covers its own file, the inode of
  the root directory and the directory's data; the heap addresses in use are below the next one; the open inodes are
  in sectors in use, none of them the root's.
\<close>

definition mounted :: "fs \<Rightarrow> bool" where
  "mounted s \<longleftrightarrow> fs_ok s \<and> free_map_file s \<noteq> 0 \<and> f_inode (files s (free_map_file s)) \<le> allocs s \<and>
     (\<forall>p \<in> set (open_inodes s). p \<le> allocs s \<and> sector (inodes s p) \<noteq> ROOT_DIR_SECTOR \<and> used_sector s (sector (inodes s p))) \<and>
     used_sector s FREE_MAP_SECTOR \<and> used_sector s ROOT_DIR_SECTOR \<and> \<not> in_extent (data (fm_inode s)) ROOT_DIR_SECTOR \<and>
     \<not> in_extent (root_disk s) ROOT_DIR_SECTOR \<and> extent_ok (dev s) (root_disk s) \<and>
     (\<forall>i. in_extent (root_disk s) i \<longrightarrow> used_sector s i \<and> \<not> in_extent (data (fm_inode s)) i)"

definition kept :: "fs \<Rightarrow> fs \<Rightarrow> bool" where
  "kept s s' \<longleftrightarrow> fs_ok s' \<and> files s' = files s \<and> free_map_file s' = free_map_file s \<and> open_inodes s' = open_inodes s \<and>
     malloc_ok s' = malloc_ok s \<and> allocs s \<le> allocs s' \<and> (\<forall>p \<le> allocs s. inodes s' p = inodes s p) \<and>
     b_size (dev s') = b_size (dev s) \<and> b_sectors (dev s') ROOT_DIR_SECTOR = b_sectors (dev s) ROOT_DIR_SECTOR \<and>
     (\<forall>i. used_sector s i \<longrightarrow> used_sector s' i)"

lemma kept_mounted:
  assumes "mounted s" "kept s s'"
  shows "mounted s'" "root_disk s' = root_disk s" "fm_inode s' = fm_inode s"
proof -
  show r: "root_disk s' = root_disk s" using assms(2) by (simp add: root_disk_def kept_def)
  show f: "fm_inode s' = fm_inode s" using assms by (simp add: fm_inode_def kept_def mounted_def)
  have "extent_ok (dev s') (root_disk s)" using assms by (simp add: mounted_def kept_def extent_ok_def fs_ok_def)
  then show "mounted s'" using assms unfolding mounted_def r f by (auto simp: kept_def)
qed

lemma contents_cong:
  assumes "extent_ok dv d" "\<And>i. in_extent d i \<Longrightarrow> b_sectors dv' i = b_sectors dv i"
  shows "contents dv' d = contents dv d"
  unfolding contents_def
proof (rule map_cong [OF refl])
  fix k assume "k \<in> set [0..<nat (length_of d)]"
  then have k2: "k < 512 * sector_cnt (length_of d)" by (simp add: sector_cnt_def)
  have "k div 512 < sector_cnt (length_of d)" using k2 by (simp add: less_mult_imp_div_less mult.commute)
  then have "in_extent d (start d + of_nat (k div 512))" using extent_sector(1) [OF assms(1) k2] by (simp add: in_extent_def)
  from assms(2) [OF this] show "data_byte dv' d k = data_byte dv d k" by (simp add: data_byte_def)
qed

lemma used_fill:
  assumes "bools (free_map s') = fill k n v (bools (free_map s))" "bit_cnt (free_map s') = bit_cnt (free_map s)"
    "k + n \<le> unat (bit_cnt (free_map s))"
  shows "used_sector s' i \<longleftrightarrow> (if k \<le> unat i \<and> unat i < k + n then v else used_sector s i)"
  using assms by (auto simp: used_sector_def nth_fill)

lemma fs_ok_wrote:
  assumes "fs_ok s" "wrote s s'" "dev_ok (dev s')"
  shows "fs_ok s'"
  using assms(1,3) wrote_sel [OF assms(2)] by (auto simp: fs_ok_def extent_ok_def fm_inode_def used_sector_def)

lemma unat_one_run: "unat sec \<le> unat i \<and> unat i < unat sec + unat (1 :: size_t) \<longleftrightarrow> i = (sec :: u32)"
  by (auto simp: word_unat_eq_iff)

text \<open>Allocating and releasing one sector.\<close>

lemma allocate_sector:
  assumes ok: "fs_ok s" and mal: "malloc_ok s (allocs s)"
  obtains (full) "free_map_allocate 1 s = Some (None, s)" "first_fit (bools (free_map s)) 0 1 False = None"
  | (got) sec s' where "free_map_allocate 1 s = Some (Some sec, s')" "same_handles s s'" "fs_ok s'" "\<not> used_sector s sec"
      "\<And>i. used_sector s' i \<longleftrightarrow> used_sector s i \<or> i = sec" "first_fit (bools (free_map s)) 0 1 False = Some (unat sec)"
      "bools (free_map s') = fill (unat sec) 1 True (bools (free_map s))"
      "\<And>i. free_map_file s = 0 \<or> \<not> in_extent (data (fm_inode s)) i \<Longrightarrow> b_sectors (dev s') i = b_sectors (dev s) i"
  using ok mal
proof (cases rule: free_map_allocate_cases [of s 1])
  case full
  then show thesis using that(1) by simp
next
  case (got sec s')
  have le: "unat sec + unat (1 :: size_t) \<le> unat (bit_cnt (free_map s))" using got(4) ok by (simp add: fs_ok_def)
  have "\<not> used_sector s sec" using got(5) by (auto simp: used_sector_def all_eq_def)
  moreover have "used_sector s' i \<longleftrightarrow> used_sector s i \<or> i = sec" for i
    using used_fill [OF got(6,7) le, of i] unfolding unat_one_run by auto
  ultimately show thesis using that(2) [of sec s'] got(1,2,3,6,9,10) by simp
qed

lemma release_sector:
  assumes ok: "fs_ok s" and mal: "malloc_ok s (allocs s)" and f: "free_map_file s \<noteq> 0"
    and u: "used_sector s sec" and n: "\<not> in_extent (data (fm_inode s)) sec"
  obtains s' where "free_map_release sec 1 s = Some s'" "same_handles s s'" "fs_ok s'" "\<And>i. used_sector s' i \<longleftrightarrow> used_sector s i \<and> i \<noteq> sec"
    "\<And>i. \<not> in_extent (data (fm_inode s)) i \<Longrightarrow> b_sectors (dev s') i = b_sectors (dev s) i"
proof -
  have le: "unat sec + unat (1 :: size_t) \<le> unat (b_size (dev s))" "unat sec + unat (1 :: size_t) \<le> unat (bit_cnt (free_map s))"
    using u ok by (simp_all add: used_sector_def fs_ok_def)
  have al: "all_eq (bools (free_map s)) (unat sec) (unat (1 :: size_t)) True" using u by (simp add: used_sector_def all_eq_def)
  have apart: "\<not> (unat sec \<le> unat i \<and> unat i < unat sec + unat (1 :: size_t))" if "in_extent (data (fm_inode s)) i" for i
    using that n unfolding unat_one_run by blast
  obtain s' where s': "free_map_release sec 1 s = Some s'" "same_handles s s'" "fs_ok s'"
    "bools (free_map s') = fill (unat sec) (unat (1 :: size_t)) False (bools (free_map s))" "bit_cnt (free_map s') = bit_cnt (free_map s)"
    "\<And>i. \<not> in_extent (data (fm_inode s)) i \<Longrightarrow> b_sectors (dev s') i = b_sectors (dev s) i"
    by (rule free_map_release_ok [OF ok mal f le(1) al apart]) blast+
  have "used_sector s' i \<longleftrightarrow> used_sector s i \<and> i \<noteq> sec" for i
    using used_fill [OF s'(4,5) le(2), of i] unfolding unat_one_run by auto
  then show thesis using that [of s'] s' by simp
qed

text \<open>An inode for the file, in terms of the sectors in use.\<close>

lemma inode_create_used:
  assumes ok: "fs_ok s" and mal: "\<And>n. malloc_ok s n" and len: "0 \<le> len" "len \<le> 2 ^ 31 - 512"
    and sec: "used_sector s sec" "free_map_file s = 0 \<or> \<not> in_extent (data (fm_inode s)) sec"
  obtains (full) s' where "inode_create sec len s = Some (False, s')" "same_handles s s'" "fs_ok s'" "used_sector s' = used_sector s" "dev s' = dev s"
      "first_fit (bools (free_map s)) 0 (sector_cnt len) False = None"
  | (created) st s' where "inode_create sec len s = Some (True, s')" "same_handles s s'" "fs_ok s'"
      "unat st + sector_cnt len \<le> unat (b_size (dev s))" "\<And>i. in_extent (new_disk st len) i \<Longrightarrow> \<not> used_sector s i"
      "\<And>i. used_sector s' i \<longleftrightarrow> used_sector s i \<or> in_extent (new_disk st len) i"
      "b_sectors (dev s') sec = inode_bytes (new_disk st len)"
      "\<And>i. in_extent (new_disk st len) i \<Longrightarrow> b_sectors (dev s') i = replicate 512 0"
      "\<And>i. used_sector s i \<Longrightarrow> i \<noteq> sec \<Longrightarrow> free_map_file s = 0 \<or> \<not> in_extent (data (fm_inode s)) i \<Longrightarrow>
        b_sectors (dev s') i = b_sectors (dev s) i"
  using ok mal len sec
proof (cases rule: inode_create_cases [of s len sec])
  case (full s')
  then show thesis using that(1) [of s'] by (simp add: used_sector_def fun_eq_iff)
next
  case (created st s')
  let ?d = "new_disk st len"
  have le: "unat st + sector_cnt len \<le> unat (bit_cnt (free_map s))" using created(4) ok by (simp add: fs_ok_def)
  have ext: "unat st \<le> unat i \<and> unat i < unat st + sector_cnt len \<longleftrightarrow> in_extent ?d i" for i by (simp add: in_extent_def)
  have fr: "\<not> used_sector s i" if "in_extent ?d i" for i
  proof -
    have "unat i - unat st < sector_cnt len" "unat st + (unat i - unat st) = unat i" using that [folded ext] by auto
    then show ?thesis using created(5) unfolding all_eq_def used_sector_def by metis
  qed
  moreover have "used_sector s' i \<longleftrightarrow> used_sector s i \<or> in_extent ?d i" for i
    using used_fill [OF created(6,7) le, of i] unfolding ext by auto
  moreover have "b_sectors (dev s') i = b_sectors (dev s) i"
    if "used_sector s i" "i \<noteq> sec" "free_map_file s = 0 \<or> \<not> in_extent (data (fm_inode s)) i" for i
    using created(10) [OF that(2) _ that(3)] fr that(1) by blast
  ultimately show thesis using that(2) [OF created(1-4)] created(8,9) by blast
qed

subsection \<open>Opening and closing the root directory\<close>

definition opened :: "fs \<Rightarrow> nat \<Rightarrow> fs \<Rightarrow> bool" where
  "opened s d s1 \<longleftrightarrow> d \<noteq> 0 \<and> dirs s1 d = \<lparr>d_inode = Suc (allocs s), d_pos = 0\<rparr> \<and>
     inodes s1 = (inodes s)(Suc (allocs s) :=
       \<lparr>sector = ROOT_DIR_SECTOR, open_cnt = 1, removed = False, deny_write_cnt = 0, data = root_disk s\<rparr>) \<and>
     open_inodes s1 = Suc (allocs s) # open_inodes s \<and> files s1 = files s \<and> free_map s1 = free_map s \<and>
     free_map_file s1 = free_map_file s \<and> malloc_ok s1 = malloc_ok s \<and> allocs s1 = Suc (Suc (allocs s)) \<and>
     b_size (dev s1) = b_size (dev s) \<and> b_sectors (dev s1) = b_sectors (dev s) \<and>
     b_type (dev s1) = b_type (dev s)"

lemma dir_open_root_ok:
  assumes m: "mounted s" and mem: "memory_ok s"
  obtains d s1 where "dir_open_root s = Some (d, s1)" "opened s d s1"
proof -
  have l: "ROOT_DIR_SECTOR < b_size (dev s)" using m by (auto simp: mounted_def used_sector_def fs_ok_def word_less_nat_alt)
  have mal: "\<And>n. malloc_ok s n" using mem by (simp add: memory_ok_def)
  have no: "\<And>p. p \<in> set (open_inodes s) \<Longrightarrow> sector (inodes s p) \<noteq> ROOT_DIR_SECTOR" using m by (simp add: mounted_def)
  note o = inode_open_new [OF mal l no]
  have "\<exists>s1. dir_open_root s = Some (Suc (Suc (allocs s)), s1) \<and> opened s (Suc (Suc (allocs s))) s1"
    using mal by (simp add: o dir_open_root_def dir_open_def malloc_def set_dir_def opened_def root_disk_def Let_def)
  then show thesis using that by blast
qed

lemma opened_facts:
  assumes m: "mounted s" and o: "opened s d s1"
  shows "fs_ok s1" "fm_inode s1 = fm_inode s" "dir_ok s1 d" "dir_contents s1 d = contents (dev s) (root_disk s)"
    "used_sector s1 = used_sector s" "data (inodes s1 (d_inode (dirs s1 d))) = root_disk s"
proof -
  show f: "fm_inode s1 = fm_inode s" using m o by (auto simp: fm_inode_def opened_def mounted_def)
  have dv: "dev_ok (dev s1) = dev_ok (dev s)" using o by (simp add: dev_ok_def opened_def)
  show u: "used_sector s1 = used_sector s" using o by (simp add: used_sector_def opened_def fun_eq_iff)
  show d: "data (inodes s1 (d_inode (dirs s1 d))) = root_disk s" using o by (simp add: opened_def)
  have e: "extent_ok (dev s1) = extent_ok (dev s)" using dv o by (simp add: extent_ok_def opened_def fun_eq_iff)
  show "fs_ok s1" using m o f dv e u by (simp add: mounted_def fs_ok_def opened_def)
  show "dir_ok s1 d" using m o e by (simp add: dir_ok_def mounted_def opened_def)
  show "dir_contents s1 d = contents (dev s) (root_disk s)" using o d by (simp add: dir_contents_def contents_def data_byte_def opened_def)
qed

lemma dir_close_root:
  assumes m: "mounted s" and o: "opened s d s1" and h: "same_handles s1 s2" and ok: "fs_ok s2"
    and keep: "b_sectors (dev s2) ROOT_DIR_SECTOR = b_sectors (dev s) ROOT_DIR_SECTOR" "\<And>i. used_sector s i \<Longrightarrow> used_sector s2 i"
  obtains s' where "dir_close d s2 = Some s'" "kept s s'" "dev s' = dev s2" "used_sector s' = used_sector s2"
proof -
  let ?p = "Suc (allocs s)"
  let ?s = "s2\<lparr>inodes := (inodes s2)(?p := (inodes s2 ?p)\<lparr>open_cnt := 0\<rparr>), open_inodes := open_inodes s\<rparr>"
  have r: "dir_close d s2 = Some ?s"
    using o h by (simp add: dir_close_def inode_close_def opened_def same_handles_def set_inode_def Let_def wrap32_id)
  have u: "used_sector ?s = used_sector s2" by (simp add: used_sector_def fun_eq_iff)
  have p: "f_inode (files s2 (free_map_file s2)) \<noteq> ?p" using m o h by (auto simp: mounted_def opened_def same_handles_def)
  have "fm_inode ?s = fm_inode s2" using p by (simp add: fm_inode_def)
  then have "fs_ok ?s" using ok u by (simp add: fs_ok_def)
  then have "kept s ?s" using o h keep u by (auto simp: kept_def opened_def same_handles_def)
  then show thesis using that [OF r] u by simp
qed

subsection \<open>Creating a file\<close>

text \<open>The end of \<open>filesys_create\<close>: the entry is added, or the sector of the inode is given back.\<close>

lemma dir_add_or_release:
  assumes ok: "fs_ok s" and mal: "\<And>n. malloc_ok s n" and f: "free_map_file s \<noteq> 0" and dok: "dir_ok s d"
    and sec: "used_sector s sec" "\<not> in_extent fm sec" and fm: "data (fm_inode s) = fm" and rd: "data (inodes s (d_inode (dirs s d))) = rd"
    and apart: "\<forall>i. in_extent rd i \<longrightarrow> \<not> in_extent fm i" and c: "dir_contents s d = c"
    and name: "0 \<notin> set name" and g: "length g = 20"
  obtains (refused) s4 s5 where "dir_add g d name sec s = Some (False, s4)" "free_map_release sec 1 s4 = Some s5" "same_handles s s5" "fs_ok s5"
      "\<not> valid_name name \<or> dir_map c name \<noteq> None \<or> (\<forall>k < length c div 20. e_in_use (entry c k))" "\<And>i. used_sector s5 i \<longleftrightarrow> used_sector s i \<and> i \<noteq> sec"
      "\<And>i. \<not> in_extent fm i \<Longrightarrow> \<not> in_extent rd i \<Longrightarrow> b_sectors (dev s5) i = b_sectors (dev s) i"
      "\<And>name'. dir_map (contents (dev s5) rd) name' = dir_map c name'"
  | (added) s4 where "dir_add g d name sec s = Some (True, s4)" "same_handles s s4" "fs_ok s4" "valid_name name" "dir_map c name = None"
      "used_sector s4 = used_sector s" "\<And>i. \<not> in_extent rd i \<Longrightarrow> b_sectors (dev s4) i = b_sectors (dev s) i"
      "\<And>name'. dir_map (contents (dev s4) rd) name' = (if name' = name then Some sec else dir_map c name')"
proof -
  note refused = that(1) and added_case = that(2)
  have step: "same_handles s s'" "used_sector s' = used_sector s" "fs_ok s'" "data (fm_inode s') = fm" "free_map_file s' \<noteq> 0"
      "malloc_ok s' n" "dir_contents s' d = contents (dev s') rd" "extent_ok (dev s') rd"
    if "wrote s s'" "dir_ok s' d" for s' n
  proof -
    note w = wrote_sel [OF that(1)]
    show "same_handles s s'" by (rule same_handles_wrote [OF that(1)])
    show "used_sector s' = used_sector s" using w by (simp add: used_sector_def fun_eq_iff)
    show "fs_ok s'" by (rule fs_ok_wrote [OF ok that(1)]) (use that(2) in \<open>simp add: dir_ok_def extent_ok_def\<close>)
    show "dir_contents s' d = contents (dev s') rd" "extent_ok (dev s') rd" "data (fm_inode s') = fm" "free_map_file s' \<noteq> 0" "malloc_ok s' n"
      using w rd fm f mal that(2) by (simp_all add: dir_contents_def dir_ok_def fm_inode_def)
  qed
  have undo: thesis
    if w: "wrote s s4" "dir_ok s4 d" and a: "dir_add g d name sec s = Some (False, s4)"
      and why: "\<not> valid_name name \<or> dir_map c name \<noteq> None \<or> (\<forall>k < length c div 20. e_in_use (entry c k))"
      and map: "\<And>name'. dir_map (dir_contents s4 d) name' = dir_map c name'"
      and keep: "\<And>i. \<not> in_extent rd i \<Longrightarrow> b_sectors (dev s4) i = b_sectors (dev s) i" for s4
  proof -
    note st = step [OF w]
    have "used_sector s4 sec" "\<not> in_extent (data (fm_inode s4)) sec" using st(2,4) sec by simp_all
    from release_sector [OF st(3,6,5) this] obtain s5 where
      s5: "free_map_release sec 1 s4 = Some s5" "same_handles s4 s5" "fs_ok s5" "\<And>i. used_sector s5 i \<longleftrightarrow> used_sector s4 i \<and> i \<noteq> sec"
        "\<And>i. \<not> in_extent fm i \<Longrightarrow> b_sectors (dev s5) i = b_sectors (dev s4) i" using st(4) by metis
    have "contents (dev s5) rd = dir_contents s4 d" using contents_cong [OF st(8), of "dev s5"] s5(5) apart st(7) by simp
    then show thesis using refused [OF a s5(1) same_handles_trans [OF st(1) s5(2)] s5(3) why] s5(4,5) st(2) keep map by simp
  qed
  show thesis
  proof (cases "valid_name name")
    case False
    have "dir_add g d name sec s = Some (False, s)" by (rule dir_add_invalid [OF _ False]) (use dok in \<open>simp add: dir_ok_def\<close>)
    then show thesis using undo [of s] wrote_step(3) [of "dev s" s] dok False c by simp
  next
    case valid: True
    then have n: "name \<noteq> []" "length name \<le> 14" by (simp_all add: valid_name_def NAME_MAX_def)
    show thesis
      using dok mal n name g c [symmetric]
    proof (cases rule: dir_add_cases [of s d name g c sec])
      case (exists s4)
      then show thesis
        using undo [OF reads_wrote [OF exists(2)]] reads_dir [OF exists(2)] dok c reads_sel(9) [OF exists(2)] by (simp add: dir_map_def)
    next
      case (full s4)
      then show thesis using undo [OF full(2,6,1)] rd by simp
    next
      case (added s4)
      note st = step [OF added(2,5)]
      show thesis
        by (rule added_case [OF added(1) st(1,3) valid _ st(2)]) (use added(3,4,6) st(7) rd in \<open>simp_all add: dir_map_def\<close>)
    qed
  qed
qed

text \<open>The outcomes of the part of \<open>filesys_create\<close> between opening and closing the root directory.\<close>

lemma filesys_create_body:
  assumes m: "mounted s" and mem: "memory_ok s" and o: "dir_open_root s = Some (d, s1)" "opened s d s1"
    and name: "0 \<notin> set name" and g: "length g = 20" and len: "0 \<le> len" "len \<le> 2 ^ 31 - 512"
  defines "b \<equiv> bools (free_map s)" and "fm \<equiv> data (fm_inode s)" and "c \<equiv> contents (dev s) (root_disk s)"
  obtains (no_room) s4 where "filesys_create g name len s = do { s' \<leftarrow> dir_close d s4; Some (False, s') }" "same_handles s1 s4" "fs_ok s4"
      "used_sector s4 = used_sector s" "\<And>i. \<not> in_extent fm i \<Longrightarrow> b_sectors (dev s4) i = b_sectors (dev s) i"
      "first_fit b 0 1 False = None \<or> (\<exists>k. first_fit b 0 1 False = Some k \<and> first_fit (fill k 1 True b) 0 (sector_cnt len) False = None)"
  | (refused) st s4 where "filesys_create g name len s = do { s' \<leftarrow> dir_close d s4; Some (False, s') }" "same_handles s1 s4" "fs_ok s4"
      "\<not> valid_name name \<or> dir_map c name \<noteq> None \<or> (\<forall>k < length c div 20. e_in_use (entry c k))"
      "\<And>i. in_extent (new_disk st len) i \<Longrightarrow> \<not> used_sector s i" "unat st + sector_cnt len \<le> unat (b_size (dev s))"
      "\<And>i. used_sector s4 i \<longleftrightarrow> used_sector s i \<or> in_extent (new_disk st len) i"
      "\<And>i. used_sector s i \<Longrightarrow> \<not> in_extent fm i \<Longrightarrow> \<not> in_extent (root_disk s) i \<Longrightarrow> b_sectors (dev s4) i = b_sectors (dev s) i"
      "\<And>name'. dir_map (contents (dev s4) (root_disk s)) name' = dir_map c name'"
  | (created) sec st s4 where "filesys_create g name len s = do { s' \<leftarrow> dir_close d s4; Some (True, s') }" "same_handles s1 s4" "fs_ok s4"
      "valid_name name \<and> dir_map c name = None" "\<not> used_sector s sec" "\<And>i. in_extent (new_disk st len) i \<Longrightarrow> \<not> used_sector s i \<and> i \<noteq> sec"
      "\<And>i. used_sector s4 i \<longleftrightarrow> used_sector s i \<or> i = sec \<or> in_extent (new_disk st len) i"
      "\<And>i. used_sector s i \<Longrightarrow> \<not> in_extent fm i \<Longrightarrow> \<not> in_extent (root_disk s) i \<Longrightarrow> b_sectors (dev s4) i = b_sectors (dev s) i"
      "\<And>name'. dir_map (contents (dev s4) (root_disk s)) name' = (if name' = name then Some sec else dir_map c name')"
      "b_sectors (dev s4) sec = inode_bytes (new_disk st len)" "\<And>i. in_extent (new_disk st len) i \<Longrightarrow> b_sectors (dev s4) i = replicate 512 0"
      "unat st + sector_cnt len \<le> unat (b_size (dev s))"
proof -
  note f1 = opened_facts [OF m o(2)]
  have mal: "\<And>n. malloc_ok s1 n" and fmf: "free_map_file s1 \<noteq> 0" using m mem o(2) by (auto simp: mounted_def opened_def memory_ok_def)
  have d0: "d \<noteq> 0" and b1: "bools (free_map s1) = b" and bs1: "b_sectors (dev s1) = b_sectors (dev s)"
    and sz1: "b_size (dev s1) = b_size (dev s)" using o(2) by (simp_all add: opened_def b_def)
  have fmu: "used_sector s i" if "in_extent fm i" for i using m that by (simp add: mounted_def fs_ok_def fm_def)
  have rdu: "used_sector s i" "\<not> in_extent fm i" if "in_extent (root_disk s) i" for i using m that by (simp_all add: mounted_def fm_def)
  have mal1: "malloc_ok s1 (allocs s1)" using mal by simp
  have fmi: "data (fm_inode s') = fm" "free_map_file s' \<noteq> 0" "malloc_ok s' n" "b_size (dev s') = b_size (dev s)"
    if "same_handles s1 s'" for s' n
    using that f1(2) fmf mal sz1 by (simp_all add: fm_def fm_inode_def same_handles_def)
  show thesis
    using f1(1) mal1
  proof (cases rule: allocate_sector [of s1])
    case full
    then have "filesys_create g name len s = do { s' \<leftarrow> dir_close d s1; Some (False, s') }"
      using o(1) d0 by (simp add: filesys_create_def)
    then show thesis using that(1) [of s1] f1 full(2) b1 bs1 by (simp add: same_handles_def)
  next
    case (got sec s2)
    note fm2 = fmi [OF got(2)]
    have usec: "\<not> used_sector s sec" using got(4) f1(5) by simp
    then have sec0: "sec \<noteq> 0" and secf: "\<not> in_extent fm sec" and secd: "\<not> in_extent (root_disk s) sec"
      using m fmu rdu by (auto simp: mounted_def FREE_MAP_SECTOR_def)
    have in2: "used_sector s2 sec" "free_map_file s2 = 0 \<or> \<not> in_extent (data (fm_inode s2)) sec" using got(5) secf fm2(1) by simp_all
    have bs2: "b_sectors (dev s2) i = b_sectors (dev s) i" if "\<not> in_extent fm i" for i
      using got(8) [of i] that bs1 f1(2) by (simp add: fm_def)
    show thesis
      using got(3) fm2(3) len in2
    proof (cases rule: inode_create_used [of s2 len sec])
      case (full s3)
      have h3: "same_handles s1 s3" by (rule same_handles_trans [OF got(2) full(2)])
      note fm3 = fmi [OF h3]
      have "used_sector s3 sec" "\<not> in_extent (data (fm_inode s3)) sec" using full(4) in2(1) secf fm3(1) by simp_all
      from release_sector [OF full(3) fm3(3,2) this] obtain s4 where
        s4: "free_map_release sec 1 s3 = Some s4" "same_handles s3 s4" "fs_ok s4" "\<And>i. used_sector s4 i \<longleftrightarrow> used_sector s3 i \<and> i \<noteq> sec"
          "\<And>i. \<not> in_extent (data (fm_inode s3)) i \<Longrightarrow> b_sectors (dev s4) i = b_sectors (dev s3) i" by blast
      have r: "filesys_create g name len s = do { s' \<leftarrow> dir_close d s4; Some (False, s') }"
        using o(1) d0 got(1) full(1) s4(1) sec0 by (simp add: filesys_create_def)
      have u4: "used_sector s4 = used_sector s" using s4(4) full(4) got(5) f1(5) usec by (auto simp: fun_eq_iff)
      have bs4: "b_sectors (dev s4) i = b_sectors (dev s) i" if "\<not> in_extent fm i" for i
        using s4(5) [of i] that fm3(1) full(5) bs2 [OF that] by simp
      have "first_fit b 0 1 False = Some (unat sec)" "first_fit (fill (unat sec) 1 True b) 0 (sector_cnt len) False = None"
        using got(6,7) full(6) b1 by simp_all
      then show thesis using that(1) [OF r same_handles_trans [OF h3 s4(2)] s4(3) u4 bs4] by blast
    next
      case (created st s3)
      let ?ext = "in_extent (new_disk st len)"
      have h3: "same_handles s1 s3" by (rule same_handles_trans [OF got(2) created(2)])
      note fm3 = fmi [OF h3]
      have rd: "data (inodes s' (d_inode (dirs s' d))) = root_disk s" if "same_handles s1 s'" for s'
        using that f1(6) by (simp add: same_handles_def)
      have u3: "used_sector s3 i \<longleftrightarrow> used_sector s i \<or> i = sec \<or> ?ext i" for i using created(6) got(5) f1(5) by auto
      have rda: "\<forall>i. in_extent (root_disk s) i \<longrightarrow> \<not> in_extent fm i" using rdu(2) by blast
      have usec3: "used_sector s3 sec" using u3 by simp
      have fresh: "\<not> used_sector s i \<and> i \<noteq> sec" if "?ext i" for i using created(5) [OF that] got(5) f1(5) by auto
      have bs3: "b_sectors (dev s3) i = b_sectors (dev s) i" if "used_sector s i" "\<not> in_extent fm i" for i
        using created(9) [of i] that got(5) usec f1(5) fm2(1) bs2 by auto
      have ext3: "extent_ok (dev s3) (root_disk s)" using m created(3) fm3(4) by (simp add: mounted_def extent_ok_def fs_ok_def)
      then have ok3: "dir_ok s3 d" using f1(3) rd [OF h3] h3 by (simp add: dir_ok_def same_handles_def)
      have c3: "dir_contents s3 d = c"
      proof -
        have "extent_ok (dev s) (root_disk s)" using m by (simp add: mounted_def)
        from contents_cong [OF this, of "dev s3"] show ?thesis using bs3 rdu rd [OF h3] by (simp add: dir_contents_def c_def)
      qed
      show thesis
      proof (cases rule: dir_add_or_release [OF created(3) fm3(3,2) ok3 usec3 secf fm3(1) rd [OF h3] rda c3 name g, case_names refused added])
        case (refused s4 s5)
        show thesis
        proof (rule that(2) [of s5 st])
          show "filesys_create g name len s = do { s' \<leftarrow> dir_close d s5; Some (False, s') }"
            using o(1) d0 got(1) created(1) refused(1,2) sec0 by (simp add: filesys_create_def)
          show "same_handles s1 s5" by (rule same_handles_trans [OF h3 refused(3)])
          show "used_sector s5 i \<longleftrightarrow> used_sector s i \<or> ?ext i" for i using refused(6) u3 usec fresh by auto
          show "b_sectors (dev s5) i = b_sectors (dev s) i" if "used_sector s i" "\<not> in_extent fm i" "\<not> in_extent (root_disk s) i" for i
            using refused(7) [of i] bs3 [of i] that by simp
        qed (use refused(4,5,8) fresh created(4) fm2(4) in auto)
      next
        case (added s4)
        show thesis
        proof (rule that(3) [of s4 sec st])
          show "filesys_create g name len s = do { s' \<leftarrow> dir_close d s4; Some (True, s') }"
            using o(1) d0 got(1) created(1) added(1) by (simp add: filesys_create_def)
          show "same_handles s1 s4" by (rule same_handles_trans [OF h3 added(2)])
          show "b_sectors (dev s4) i = b_sectors (dev s) i" if "used_sector s i" "\<not> in_extent fm i" "\<not> in_extent (root_disk s) i" for i
            using added(7) [of i] bs3 [of i] that by simp
          show "b_sectors (dev s4) sec = inode_bytes (new_disk st len)" using added(7) [OF secd] created(7) by simp
          show "b_sectors (dev s4) i = replicate 512 0" if "?ext i" for i
            using added(7) [of i] created(8) [OF that] rdu(1) [of i] fresh [OF that] by auto
        qed (use added u3 usec fresh created(4) fm2(4) in auto)
      qed
    qed
  qed
qed

definition root_full :: "fs \<Rightarrow> bool" where
  "root_full s \<longleftrightarrow> (let c = contents (dev s) (root_disk s) in \<forall>k < length c div 20. e_in_use (entry c k))"

text \<open>Whether the map has \<open>n\<close> free sectors in a row.\<close>

definition has_free_run :: "fs \<Rightarrow> nat \<Rightarrow> bool" where
  "has_free_run s n \<longleftrightarrow> first_fit (bools (free_map s)) 0 n False \<noteq> None"

lemma filesys_create_outcome:
  assumes m: "mounted s" and mem: "memory_ok s" and name: "0 \<notin> set name" and g: "length g = 20" and len: "0 \<le> len" "len \<le> 2 ^ 31 - 512"
  defines "same \<equiv> \<lambda>s'. \<forall>i. used_sector s i \<and> \<not> in_extent (data (fm_inode s)) i \<and> \<not> in_extent (root_disk s) i \<longrightarrow> b_sectors (dev s') i = b_sectors (dev s) i"
  obtains (no_room) s' where "filesys_create g name len s = Some (False, s')" "kept s s'" "same s'" "root_map s' = root_map s"
      "used_sector s' = used_sector s"
      "first_fit (bools (free_map s)) 0 1 False = None \<or>
       (\<exists>k. first_fit (bools (free_map s)) 0 1 False = Some k \<and> first_fit (fill k 1 True (bools (free_map s))) 0 (sector_cnt len) False = None)"
  | (refused) st s' where "filesys_create g name len s = Some (False, s')" "kept s s'" "same s'" "root_map s' = root_map s"
      "\<And>i. in_extent (new_disk st len) i \<Longrightarrow> \<not> used_sector s i" "unat st + sector_cnt len \<le> unat (b_size (dev s))"
      "\<And>i. used_sector s' i \<longleftrightarrow> used_sector s i \<or> in_extent (new_disk st len) i"
      "\<not> valid_name name \<or> root_map s name \<noteq> None \<or> root_full s"
  | (created) sec st s' where "filesys_create g name len s = Some (True, s')" "kept s s'" "same s'" "valid_name name \<and> root_map s name = None"
      "root_map s' = (root_map s)(name \<mapsto> sec)" "\<not> used_sector s sec" "\<And>i. in_extent (new_disk st len) i \<Longrightarrow> \<not> used_sector s i \<and> i \<noteq> sec"
      "\<And>i. used_sector s' i \<longleftrightarrow> used_sector s i \<or> i = sec \<or> in_extent (new_disk st len) i"
      "b_sectors (dev s') sec = inode_bytes (new_disk st len)" "\<And>i. in_extent (new_disk st len) i \<Longrightarrow> b_sectors (dev s') i = replicate 512 0"
      "extent_ok (dev s') (new_disk st len)"
proof -
  obtain d s1 where o: "dir_open_root s = Some (d, s1)" "opened s d s1" by (rule dir_open_root_ok [OF m mem])
  have root: "used_sector s ROOT_DIR_SECTOR" "\<not> in_extent (data (fm_inode s)) ROOT_DIR_SECTOR" "\<not> in_extent (root_disk s) ROOT_DIR_SECTOR"
    using m by (simp_all add: mounted_def)
  have rm: "root_map s' = (\<lambda>n. dir_map (contents (dev s') (root_disk s)) n)" if "kept s s'" for s'
    using kept_mounted(2) [OF m that] by (simp add: root_map_def fun_eq_iff)
  show thesis
  proof (cases rule: filesys_create_body [OF m mem o name g len, case_names no_room refused created])
    case (no_room s4)
    obtain s' where s': "dir_close d s4 = Some s'" "kept s s'" "dev s' = dev s4" "used_sector s' = used_sector s4"
      by (rule dir_close_root [OF m o(2) no_room(2,3)]) (use no_room(4,5) root in auto)
    have "extent_ok (dev s) (root_disk s)" "\<And>i. in_extent (root_disk s) i \<Longrightarrow> \<not> in_extent (data (fm_inode s)) i" using m by (simp_all add: mounted_def)
    then have "contents (dev s') (root_disk s) = contents (dev s) (root_disk s)" using no_room(5) s'(3) by (intro contents_cong) auto
    then have "root_map s' = root_map s" using rm [OF s'(2)] by (simp add: root_map_def fun_eq_iff)
    then show thesis using that(1) [of s'] no_room s' by (simp add: same_def)
  next
    case (refused st s4)
    obtain s' where s': "dir_close d s4 = Some s'" "kept s s'" "dev s' = dev s4" "used_sector s' = used_sector s4"
      by (rule dir_close_root [OF m o(2) refused(2,3)]) (use refused(7,8) root in auto)
    have "root_map s' = root_map s" using rm [OF s'(2)] refused(9) s'(3) by (simp add: root_map_def fun_eq_iff)
    then show thesis using that(2) [of s' st] refused s' by (simp add: same_def root_full_def root_map_def Let_def)
  next
    case (created sec st s4)
    obtain s' where s': "dir_close d s4 = Some s'" "kept s s'" "dev s' = dev s4" "used_sector s' = used_sector s4"
      by (rule dir_close_root [OF m o(2) created(2,3)]) (use created(7,8) root in auto)
    have "root_map s' = (root_map s)(name \<mapsto> sec)" using rm [OF s'(2)] created(9) s'(3) by (auto simp: root_map_def fun_eq_iff)
    moreover have "extent_ok (dev s') (new_disk st len)" using s'(2) created(12) len by (simp add: extent_ok_def kept_def fs_ok_def)
    ultimately show thesis using that(3) [of s' sec st] created s' by (simp add: same_def root_map_def)
  qed
qed

text \<open>Opening a file that nobody has open.\<close>

lemma filesys_open_new:
  assumes m: "mounted s" and mem: "memory_ok s" and f: "root_map s name = Some sec" and sec: "used_sector s sec" "sec \<noteq> ROOT_DIR_SECTOR"
    and no: "\<And>p. p \<in> set (open_inodes s) \<Longrightarrow> sector (inodes s p) \<noteq> sec"
  shows "\<exists>f s'. filesys_open name s = Some (f, s') \<and> f \<noteq> 0 \<and> f_pos (files s' f) = 0 \<and> b_size (dev s') = b_size (dev s) \<and>
    b_sectors (dev s') = b_sectors (dev s) \<and> inodes s' (f_inode (files s' f)) =
      \<lparr>sector = sec, open_cnt = 1, removed = False, deny_write_cnt = 0, data = bytes_inode (b_sectors (dev s) sec)\<rparr>"
proof -
  obtain d s1 where o: "dir_open_root s = Some (d, s1)" "opened s d s1" by (rule dir_open_root_ok [OF m mem])
  note f1 = opened_facts [OF m o(2)]
  have mal: "\<And>n. malloc_ok s1 n" and d0: "d \<noteq> 0" using mem o(2) by (simp_all add: memory_ok_def opened_def)
  obtain j where j: "find_entry (dir_contents s1 d) name = Some j" "e_inode_sector (entry (dir_contents s1 d) j) = sec"
    using f f1(4) by (auto simp: root_map_def dir_map_def)
  obtain s2 where s2: "lookup d name s1 = Some (Some (entry (dir_contents s1 d) j, of_nat (20 * j)), s2)" "reads s1 s2"
    using lookup_eq [OF f1(3) mal, of name] j(1) by auto
  note r = reads_sel [OF s2(2)]
  have al: "allocs s < allocs s2" using s2(2) o(2) by (auto simp: reads_def opened_def)
  have mal2: "\<And>n. malloc_ok s2 n" using mal r by simp
  have lt: "sec < b_size (dev s2)" using sec(1) m r o(2) by (auto simp: used_sector_def mounted_def fs_ok_def opened_def word_less_nat_alt)
  have no2: "\<And>p. p \<in> set (open_inodes s2) \<Longrightarrow> sector (inodes s2 p) \<noteq> sec" using r o(2) no sec(2) m by (auto simp: opened_def mounted_def)
  note i = inode_open_new [OF mal2 lt no2]
  have old: "inodes s2 (Suc (allocs s)) =
      \<lparr>sector = ROOT_DIR_SECTOR, open_cnt = 1, removed = False, deny_write_cnt = 0, data = root_disk s\<rparr>" "d_inode (dirs s2 d) = Suc (allocs s)"
    using r o(2) by (simp_all add: opened_def)
  show ?thesis using o(1) d0 s2(1) j(2) i old al mal2 r o(2)
    by (simp add: filesys_open_def dir_lookup_def dir_close_def inode_close_def set_inode_def file_open_def malloc_def set_file_def Let_def wrap32_id opened_def)
qed

lemma leftmost_room:
  assumes r: "has_free_run s (Suc n)" and b: "b = bools (free_map s)"
  shows "\<exists>k'. first_fit b 0 1 False = Some k' \<and> first_fit (fill k' 1 True b) 0 n False \<noteq> None"
proof -
  obtain k where assms: "all_eq b k (Suc n) False" "k + Suc n \<le> length b" using r b by (auto simp: has_free_run_def first_fit_Some)
  have "all_eq b k 1 False" using assms(1) unfolding all_eq_def by (metis less_one zero_less_Suc)
  then obtain k' where k': "first_fit b 0 1 False = Some k'" using assms(2) by (cases "first_fit b 0 1 False") (auto simp: first_fit_None)
  then have l: "k' \<le> k" using \<open>all_eq b k 1 False\<close> by (auto simp: first_fit_Some not_less [symmetric])
  have "\<not> b ! (Suc k + j)" if "j < n" for j
  proof -
    have "Suc j < Suc n" using that by simp
    then show ?thesis using assms(1) unfolding all_eq_def by (metis add_Suc_shift)
  qed
  then have "all_eq (fill k' 1 True b) (Suc k) n False" using l assms(2) by (simp add: all_eq_def nth_fill)
  then have "first_fit (fill k' 1 True b) 0 n False \<noteq> None"
    unfolding first_fit_None using assms(2) by (intro notI) (auto dest: spec [of _ "Suc k"])
  then show ?thesis using k' by blast
qed

text \<open>With no memory at all the root directory cannot be opened.\<close>

lemma filesys_create_no_memory:
  assumes m: "mounted s" and no: "\<And>n. \<not> malloc_ok s n"
  shows "\<exists>s'. filesys_create g name len s = Some (False, s') \<and> mounted s' \<and> dev s' = dev s \<and> free_map s' = free_map s"
proof -
  let ?s = "s\<lparr>allocs := Suc (Suc (allocs s))\<rparr>"
  have "find (\<lambda>p. sector (inodes s p) = ROOT_DIR_SECTOR) (open_inodes s) = None" using m by (auto simp: find_None_iff mounted_def)
  then have "dir_open_root s = Some (0, ?s)"
    using no by (simp add: dir_open_root_def inode_open_def dir_open_def malloc_def inode_close_def)
  then have "filesys_create g name len s = Some (False, ?s)" by (simp add: filesys_create_def dir_close_def)
  moreover have "kept s ?s" using m by (simp add: kept_def mounted_def fs_ok_alloc used_sector_def)
  ultimately show ?thesis using kept_mounted(1) [OF m, of ?s] by simp
qed

subsection \<open>Properties\<close>

text \<open>
  C3: On a mounted file system (free map open and consistent, root directory consistent and not
  open), for a name without NUL and a size from 0 to 2^31 - 512, and when every malloc succeeds,
  filesys_create returns, keeps the file system mounted and every sector in use unchanged apart from
  those of the free map and of the root directory; when it succeeds the name had 1 to 14 characters
  and did not exist, and the root directory has exactly this name more, for an inode of the
  requested length with zeroed data in fresh sectors; when it fails the root directory is unchanged
  and the name was empty or too long, existed, the directory was full, or the disk had no room. When
  no malloc succeeds it fails and changes neither the disk nor the free map. Nothing is stated for
  runs in which some allocations succeed and some fail.
\<close>

theorem filesys_create_correct:
  assumes m: "mounted s" and name: "0 \<notin> set name" and g: "length g = 20" and len: "0 \<le> len" "len \<le> 2 ^ 31 - 512"
  shows "(memory_ok s \<longrightarrow> (case filesys_create g name len s of
      None \<Rightarrow> False
    | Some (ok, s') \<Rightarrow> mounted s' \<and> memory_ok s' \<and>
        (\<forall>i. used_sector s i \<longrightarrow> used_sector s' i) \<and>
        (\<forall>i. used_sector s i \<and> \<not> in_extent (data (fm_inode s)) i \<and> \<not> in_extent (root_disk s) i \<longrightarrow> b_sectors (dev s') i = b_sectors (dev s) i) \<and>
        (if ok then valid_name name \<and> root_map s name = None \<and>
           (\<exists>sec d. root_map s' = (root_map s)(name \<mapsto> sec) \<and> \<not> used_sector s sec \<and> used_sector s' sec \<and>
              bytes_inode (b_sectors (dev s') sec) = d \<and> length_of d = len \<and> extent_ok (dev s') d \<and>
              contents (dev s') d = replicate (nat len) 0 \<and> (\<forall>i. in_extent d i \<longrightarrow> \<not> used_sector s i \<and> used_sector s' i \<and> i \<noteq> sec))
         else root_map s' = root_map s \<and>
           (\<not> valid_name name \<or> root_map s name \<noteq> None \<or> root_full s \<or> \<not> has_free_run s (Suc (sector_cnt len)))))) \<and>
    ((\<forall>n. \<not> malloc_ok s n) \<longrightarrow> (\<exists>s'. filesys_create g name len s = Some (False, s') \<and> mounted s' \<and> dev s' = dev s \<and> free_map s' = free_map s))"
proof (intro conjI impI)
  show "\<exists>s'. filesys_create g name len s = Some (False, s') \<and> mounted s' \<and> dev s' = dev s \<and> free_map s' = free_map s"
    if "\<forall>n. \<not> malloc_ok s n" using filesys_create_no_memory [OF m] that by blast
next
  assume mem: "memory_ok s"
  have mm: "mounted s'" "memory_ok s'" if "kept s s'" for s' using kept_mounted(1) [OF m that] mem that by (simp_all add: kept_def memory_ok_def)
  show "case filesys_create g name len s of
      None \<Rightarrow> False
    | Some (ok, s') \<Rightarrow> mounted s' \<and> memory_ok s' \<and>
        (\<forall>i. used_sector s i \<longrightarrow> used_sector s' i) \<and>
        (\<forall>i. used_sector s i \<and> \<not> in_extent (data (fm_inode s)) i \<and> \<not> in_extent (root_disk s) i \<longrightarrow> b_sectors (dev s') i = b_sectors (dev s) i) \<and>
        (if ok then valid_name name \<and> root_map s name = None \<and>
           (\<exists>sec d. root_map s' = (root_map s)(name \<mapsto> sec) \<and> \<not> used_sector s sec \<and> used_sector s' sec \<and>
              bytes_inode (b_sectors (dev s') sec) = d \<and> length_of d = len \<and> extent_ok (dev s') d \<and>
              contents (dev s') d = replicate (nat len) 0 \<and> (\<forall>i. in_extent d i \<longrightarrow> \<not> used_sector s i \<and> used_sector s' i \<and> i \<noteq> sec))
         else root_map s' = root_map s \<and>
           (\<not> valid_name name \<or> root_map s name \<noteq> None \<or> root_full s \<or> \<not> has_free_run s (Suc (sector_cnt len))))"
  proof (cases rule: filesys_create_outcome [OF m mem name g len, case_names no_room refused created])
    case (no_room s')
    then have "\<not> has_free_run s (Suc (sector_cnt len))" using leftmost_room [of s "sector_cnt len", OF _ refl] by auto
    then show ?thesis using no_room mm [OF no_room(2)] by simp
  next
    case (refused st s')
    then show ?thesis using mm [OF refused(2)] by auto
  next
    case (created sec st s')
    let ?d = "new_disk st len"
    have b: "bytes_inode (b_sectors (dev s') sec) = ?d" using created(9) len by (simp add: bytes_inode_bytes)
    have "contents (dev s') ?d = replicate (nat (length_of ?d)) 0" by (rule contents_zero) (use len created(10,11) in simp_all)
    then have "\<exists>sec d. root_map s' = (root_map s)(name \<mapsto> sec) \<and> \<not> used_sector s sec \<and> used_sector s' sec \<and>
        bytes_inode (b_sectors (dev s') sec) = d \<and> length_of d = len \<and> extent_ok (dev s') d \<and>
        contents (dev s') d = replicate (nat len) 0 \<and> (\<forall>i. in_extent d i \<longrightarrow> \<not> used_sector s i \<and> used_sector s' i \<and> i \<noteq> sec)"
      using b created(5-8,11) by (intro exI [of _ sec] exI [of _ ?d]) simp
    then show ?thesis using created(1-4,8) mm [OF created(2)] by simp
  qed
qed

text \<open>
  C13: When every malloc succeeds, a file that filesys_create created on a mounted file system,
  under a name without NUL and with a size of at most 2^31 - 512, is opened by filesys_open under
  its name, at position 0, with the requested length and zeroed contents.
\<close>

theorem filesys_create_open:
  assumes m: "mounted s" and mem: "memory_ok s" and name: "0 \<notin> set name" and g: "length g = 20" and len: "0 \<le> len" "len \<le> 2 ^ 31 - 512"
    and c: "filesys_create g name len s = Some (True, s')"
  shows "\<exists>f s''. filesys_open name s' = Some (f, s'') \<and> f \<noteq> 0 \<and> f_pos (files s'' f) = 0 \<and>
    inode_length (inodes s'' (f_inode (files s'' f))) = len \<and>
    contents (dev s'') (data (inodes s'' (f_inode (files s'' f)))) = replicate (nat len) 0"
proof (cases rule: filesys_create_outcome [OF m mem name g len, case_names no_room refused created])
  case (created sec st s1)
  then have s1: "s1 = s'" using c by simp
  note cr = created [unfolded s1]
  let ?d = "new_disk st len"
  have m': "mounted s'" by (rule kept_mounted(1) [OF m cr(2)])
  have mem': "memory_ok s'" using mem cr(2) by (simp add: memory_ok_def kept_def)
  have sec: "root_map s' name = Some sec" "used_sector s' sec" "sec \<noteq> ROOT_DIR_SECTOR" using cr(5,6,8) m by (auto simp: mounted_def)
  have no: "sector (inodes s' p) \<noteq> sec" if "p \<in> set (open_inodes s')" for p
    using that cr(2,6) m by (auto simp: kept_def mounted_def)
  have b: "bytes_inode (b_sectors (dev s') sec) = ?d" using cr(9) len by (simp add: bytes_inode_bytes)
  have z: "contents (dev s') ?d = replicate (nat (length_of ?d)) 0" by (rule contents_zero) (use len cr(10,11) in simp_all)
  obtain f s'' where o: "filesys_open name s' = Some (f, s'')" "f \<noteq> 0" "f_pos (files s'' f) = 0" "b_sectors (dev s'') = b_sectors (dev s')"
    "inodes s'' (f_inode (files s'' f)) = \<lparr>sector = sec, open_cnt = 1, removed = False, deny_write_cnt = 0, data = ?d\<rparr>"
    using filesys_open_new [OF m' mem' sec no] unfolding b by blast
  have "contents (dev s'') ?d = contents (dev s') ?d" using o(4) by (simp add: contents_def data_byte_def)
  then show ?thesis using o z by (simp add: inode_length_def)
qed (use c in simp_all)

text \<open>
  C34: On a mounted file system with room for the file, and when every malloc succeeds,
  filesys_create of a name that exists or is invalid returns false but leaves the data sectors it
  allocated for the inode marked as used: it only releases the sector of the inode itself.
\<close>

theorem filesys_create_leaks:
  assumes m: "mounted s" and mem: "memory_ok s" and name: "0 \<notin> set name" and g: "length g = 20" and len: "0 \<le> len" "len \<le> 2 ^ 31 - 512"
    and why: "\<not> valid_name name \<or> root_map s name \<noteq> None"
    and room: "has_free_run s (Suc (sector_cnt len))"
  shows "\<exists>s' (st :: u32). filesys_create g name len s = Some (False, s') \<and> root_map s' = root_map s \<and>
    unat st + sector_cnt len \<le> unat (b_size (dev s)) \<and>
    (\<forall>i. unat st \<le> unat i \<and> unat i < unat st + sector_cnt len \<longrightarrow> \<not> used_sector s i) \<and>
    (\<forall>i. used_sector s' i \<longleftrightarrow> used_sector s i \<or> unat st \<le> unat i \<and> unat i < unat st + sector_cnt len)"
proof (cases rule: filesys_create_outcome [OF m mem name g len, case_names no_room refused created])
  case (no_room s')
  then show ?thesis using leftmost_room [OF room refl] by auto
next
  case (refused st s')
  have "in_extent (new_disk st len) i \<longleftrightarrow> unat st \<le> unat i \<and> unat i < unat st + sector_cnt len" for i by (simp add: in_extent_def)
  then show ?thesis using refused by (intro exI [of _ s'] exI [of _ st]) simp
next
  case (created sec st s')
  then show ?thesis using why by simp
qed

text \<open>A disk with a root directory of 50 entries that names the file \<open>a\<close>.\<close>

definition sample_mounted_fs :: fs where
  "sample_mounted_fs = sample_fm_fs\<lparr>dev := sample_dev\<lparr>b_sectors := (b_sectors sample_dev)(
     1 := inode_bytes (new_disk 10 1000), 10 := new_entry (replicate 20 0) [97] 5 @ replicate 492 0)\<rparr>\<rparr>"

lemma sample_root: "root_disk sample_mounted_fs = new_disk 10 1000"
  by (simp add: root_disk_def sample_mounted_fs_def ROOT_DIR_SECTOR_def bytes_inode_bytes)

lemma sample_mounted: "mounted sample_mounted_fs"
proof -
  have l: "length (new_entry (replicate 20 0) [97] 5) = 20" by (rule new_entry_props) simp_all
  have dv: "dev_ok (dev sample_mounted_fs)"
    using l by (simp add: sample_mounted_fs_def sample_dev_def dev_ok_def length_inode_bytes)
  have "fs_ok (sample_fm_fs\<lparr>dev := dev sample_mounted_fs\<rparr>)"
    by (rule fs_ok_dev [OF sample_fm_ok dv]) (simp add: sample_mounted_fs_def sample_fm_fs_def sample_fs_def)
  then have ok: "fs_ok sample_mounted_fs" by (simp add: sample_mounted_fs_def)
  have fm: "data (fm_inode sample_mounted_fs) = new_disk 3 8" using sample_fm_inode by (simp add: fm_inode_def sample_mounted_fs_def)
  have ext: "in_extent (new_disk 10 1000) i \<longleftrightarrow> i = 10 \<or> i = 11" for i
    by (auto simp: in_extent_def sector_cnt_def word_unat_eq_iff)
  have ext3: "in_extent (new_disk 3 8) i \<longleftrightarrow> i = 3" for i by (auto simp: in_extent_def sector_cnt_def word_unat_eq_iff)
  have u: "used_sector sample_mounted_fs i = used_sector sample_fm_fs i" for i by (simp add: used_sector_def sample_mounted_fs_def)
  have us: "used_sector sample_fm_fs 0" "used_sector sample_fm_fs 1" "used_sector sample_fm_fs 10" "used_sector sample_fm_fs 11"
    by (simp_all add: used_sector_def sample_fm_fs_def nth_bools bm_bit_def)
  have e: "extent_ok (dev sample_mounted_fs) (new_disk 10 1000)"
    using dv by (simp add: extent_ok_def sector_cnt_def sample_mounted_fs_def sample_dev_def)
  show ?thesis
    unfolding mounted_def sample_root fm u
    using ok e us by (auto simp: ext ext3 sample_mounted_fs_def sample_fm_fs_def sample_fs_def ROOT_DIR_SECTOR_def FREE_MAP_SECTOR_def)
qed

lemma sample_root_contents:
  "contents (dev sample_mounted_fs) (root_disk sample_mounted_fs) = new_entry (replicate 20 0) [97] 5 @ replicate 980 0" (is "_ = ?e @ _")
proof (rule nth_equalityI)
  have l: "length ?e = 20" by (rule new_entry_props) simp_all
  then show "length (contents (dev sample_mounted_fs) (root_disk sample_mounted_fs)) = length (?e @ replicate 980 0)"
    by (simp add: contents_def sample_root)
  fix k assume "k < length (contents (dev sample_mounted_fs) (root_disk sample_mounted_fs))"
  then have k: "k < 1000" by (simp add: contents_def sample_root)
  then have b: "contents (dev sample_mounted_fs) (root_disk sample_mounted_fs) ! k = data_byte (dev sample_mounted_fs) (new_disk 10 1000) k"
    by (simp add: contents_def sample_root)
  have "data_byte (dev sample_mounted_fs) (new_disk 10 1000) k = (?e @ replicate 980 0) ! k"
  proof (cases "k < 512")
    case True
    then show ?thesis using l by (simp add: data_byte_def sample_mounted_fs_def nth_append)
  next
    case False
    then have d: "k div 512 = 1" using k by auto
    have "(10 :: u32) + of_nat (k div 512) = 11" unfolding d by simp
    then show ?thesis
      using k l False by (simp add: data_byte_def sample_mounted_fs_def sample_dev_def nth_append)
  qed
  then show "contents (dev sample_mounted_fs) (root_disk sample_mounted_fs) ! k = (?e @ replicate 980 0) ! k" using b by simp
qed

lemma sample_root_map: "root_map sample_mounted_fs [97] = Some 5" "root_map sample_mounted_fs [98] = None" "\<not> root_full sample_mounted_fs"
    "has_free_run sample_mounted_fs 3"
proof -
  define e :: "u8 list" where "e = new_entry (replicate 20 0) [97] 5"
  define c where "c = e @ replicate 980 0"
  have p: "length e = 20" "e_in_use e" "e_name e = [97]" "e_inode_sector e = 5" unfolding e_def by (rule new_entry_props; simp)+
  have e0: "entry c 0 = e" using p(1) by (simp add: entry_def c_def)
  have lc: "length c = 1000" using p(1) by (simp add: c_def)
  have ek: "entry c k = replicate 20 0" if "0 < k" "k < 50" for k
    using that p(1) by (simp add: entry_def c_def min_def)
  have m: "matches n (entry c k) \<longleftrightarrow> k = 0 \<and> n = [97]" if "k < 50" for k n
    using ek [of k] that p(2,3) by (cases "k = 0") (auto simp: matches_def e0 e_in_use_def)
  have c: "contents (dev sample_mounted_fs) (root_disk sample_mounted_fs) = c" by (simp add: sample_root_contents c_def e_def)
  have "find_entry c [97] = Some 0" unfolding find_entry_def by (rule find_unique) (auto simp: m lc)
  then show "root_map sample_mounted_fs [97] = Some 5" by (simp add: root_map_def c dir_map_def e0 p(4))
  have "find_entry c [98] = None" by (auto simp: find_entry_def find_None_iff m lc)
  then show "root_map sample_mounted_fs [98] = None" by (simp add: root_map_def c dir_map_def)
  have "\<not> e_in_use (entry c 1)" "1 < length c div 20" using ek [of 1] by (simp_all add: e_in_use_def lc)
  then show "\<not> root_full sample_mounted_fs" unfolding root_full_def c Let_def by blast
  have "\<not> bools (free_map sample_fm_fs) ! (12 + j)" if "j < 3" for j
  proof -
    have "j = 0 \<or> j = 1 \<or> j = 2" using that by auto
    then show ?thesis by (auto simp: sample_fm_fs_def nth_bools bm_bit_def)
  qed
  then have "all_eq (bools (free_map sample_fm_fs)) 12 3 False" by (simp add: all_eq_def)
  moreover have "12 + 3 \<le> length (bools (free_map sample_fm_fs))" by (simp add: sample_fm_fs_def)
  ultimately show "has_free_run sample_mounted_fs 3"
    unfolding has_free_run_def first_fit_None by (auto simp: sample_mounted_fs_def intro!: exI [of _ 12])
qed

lemma sample_memory: "memory_ok sample_mounted_fs"
  by (simp add: memory_ok_def sample_mounted_fs_def sample_fm_memory)

theorem filesys_create_correct_witness:
  "\<exists>s' sec. filesys_create (replicate 20 0) [98] 600 sample_mounted_fs = Some (True, s') \<and> mounted s' \<and> root_map s' [97] = Some 5 \<and>
     root_map s' [98] = Some sec \<and> \<not> used_sector sample_mounted_fs sec \<and>
     contents (dev s') (bytes_inode (b_sectors (dev s') sec)) = replicate 600 0"
proof -
  have "sector_cnt 600 = 2" by (simp add: sector_cnt_def)
  then show ?thesis
    using filesys_create_correct [OF sample_mounted, of "[98]" "replicate 20 0" 600] sample_root_map sample_memory
    by (auto simp: valid_name_def NAME_MAX_def split: option.splits prod.splits if_splits)
qed

theorem filesys_create_open_witness:
  "\<exists>s' f s''. filesys_create (replicate 20 0) [98] 600 sample_mounted_fs = Some (True, s') \<and> filesys_open [98] s' = Some (f, s'') \<and> f \<noteq> 0 \<and>
     contents (dev s'') (data (inodes s'' (f_inode (files s'' f)))) = replicate 600 0"
proof -
  have n: "sector_cnt 600 = 2" "0 \<notin> set ([98] :: u8 list)"
    "length (replicate 20 0 :: u8 list) = 20" "(0 :: int) \<le> 600" "(600 :: int) \<le> 2 ^ 31 - 512" by (simp_all add: sector_cnt_def)
  show ?thesis
  proof (cases rule: filesys_create_outcome [OF sample_mounted sample_memory n(2-5), case_names no_room refused created])
    case (no_room s')
    then show ?thesis using leftmost_room [of sample_mounted_fs 2, OF _ refl] sample_root_map(4) n(1) by auto
  next
    case (refused st s')
    then show ?thesis using sample_root_map by (simp add: valid_name_def NAME_MAX_def)
  next
    case (created sec st s')
    from filesys_create_open [OF sample_mounted sample_memory n(2-5) created(1)] show ?thesis using created(1) by auto
  qed
qed

theorem filesys_create_leaks_witness:
  "\<exists>s' (st :: u32). filesys_create (replicate 20 0) [97] 600 sample_mounted_fs = Some (False, s') \<and> root_map s' = root_map sample_mounted_fs \<and>
     \<not> used_sector sample_mounted_fs st \<and> used_sector s' st"
proof -
  have n: "sector_cnt 600 = 2" by (simp add: sector_cnt_def)
  have "has_free_run sample_mounted_fs (Suc (sector_cnt 600))" using sample_root_map(4) n by simp
  then show ?thesis
    using filesys_create_leaks [OF sample_mounted sample_memory, of "[97]" "replicate 20 0" 600] sample_root_map(1) n by fastforce
qed

end
