(* ===== verification/Palloc.thy ===== *)
theory Palloc
  imports Bitmap Kstring Vaddr
begin

text \<open>
  The page allocator (\<open>threads/palloc.c\<close>).  The state \<open>vm\<close> holds physical memory (as the kernel sees it, byte by byte
  at kernel virtual addresses), the kernel and the user pool, the page directory register and the globals that the
  loader and \<open>paging_init\<close> set.  Each operation runs as one step: the lock of a pool serialises the accesses to its
  bitmap and leaves no trace in \<open>vm\<close>.

  The lemmas show that allocation returns fresh, aligned pages and marks exactly them, that freeing them restores the
  allocator and a second free fails an assertion, and that initialisation gives two disjoint empty pools.  They rest on
  the contract \<open>bit_allocator\<close> of the bitmap, not on its representation.
\<close>

subsection \<open>Pools and memory\<close>

record pool =
  used_map :: bitmap
  base :: ptr

record vm =
  vm_mem :: mem
  kernel_pool :: pool
  user_pool :: pool
  vm_cr3 :: u32
  init_ram_pages :: u32
  vm_init_page_dir :: ptr

definition PAL_ASSERT :: u32 where "PAL_ASSERT = 1"
definition PAL_ZERO :: u32 where "PAL_ZERO = 2"
definition PAL_USER :: u32 where "PAL_USER = 4"

definition page_from_pool :: "pool \<Rightarrow> ptr \<Rightarrow> bool" where
  "page_from_pool pool page =
     (let page_no = pg_no page; start_page = pg_no (base pool); end_page = start_page + bitmap_size (used_map pool)
      in page_no \<ge> start_page \<and> page_no < end_page)"

text \<open>The elements of the bitmap at the beginning of a pool are what memory holds there (\<open>garbage\<close>, by the number of bits).\<close>

definition init_pool :: "(size_t \<Rightarrow> u32 list) \<Rightarrow> ptr \<Rightarrow> size_t \<Rightarrow> pool option" where
  "init_pool garbage start page_cnt = do {
     let bm_pages = (bitmap_buf_size page_cnt + PGSIZE - 1) div PGSIZE;
     ASSERT (bm_pages \<le> page_cnt);
     let page_cnt = page_cnt - bm_pages;
     m \<leftarrow> bitmap_create_in_buf page_cnt (garbage page_cnt) (bm_pages * PGSIZE);
     Some \<lparr>used_map = m, base = start + bm_pages * PGSIZE\<rparr>
   }"

definition palloc_init :: "(ptr \<Rightarrow> size_t \<Rightarrow> u32 list) \<Rightarrow> size_t \<Rightarrow> vm \<Rightarrow> vm option" where
  "palloc_init garbage user_page_limit s = do {
     free_start \<leftarrow> ptov (1024 * 1024);
     free_end \<leftarrow> ptov (init_ram_pages s * PGSIZE);
     let free_pages = (free_end - free_start) div PGSIZE;
     let user_pages = (if free_pages div 2 > user_page_limit then user_page_limit else free_pages div 2);
     let kernel_pages = free_pages - user_pages;
     k \<leftarrow> init_pool (garbage free_start) free_start kernel_pages;
     u \<leftarrow> init_pool (garbage (free_start + kernel_pages * PGSIZE)) (free_start + kernel_pages * PGSIZE) user_pages;
     Some (s\<lparr>kernel_pool := k, user_pool := u\<rparr>)
   }"

definition is_kaddr_valid :: "ptr \<Rightarrow> vm \<Rightarrow> bool option" where
  "is_kaddr_valid kaddr s = do {
     ASSERT (is_kernel_vaddr kaddr);
     bitmap_test (used_map (kernel_pool s)) ((pg_round_down kaddr - base (kernel_pool s)) div PGSIZE)
   }"

subsection \<open>Allocation\<close>

definition pool_of :: "u32 \<Rightarrow> vm \<Rightarrow> pool" where
  "pool_of flags s = (if flags AND PAL_USER \<noteq> 0 then user_pool s else kernel_pool s)"

definition set_pool :: "u32 \<Rightarrow> pool \<Rightarrow> vm \<Rightarrow> vm" where
  "set_pool flags p s = (if flags AND PAL_USER \<noteq> 0 then s\<lparr>user_pool := p\<rparr> else s\<lparr>kernel_pool := p\<rparr>)"

definition palloc_get_multiple :: "u32 \<Rightarrow> size_t \<Rightarrow> vm \<Rightarrow> (ptr \<times> vm) option" where
  "palloc_get_multiple flags page_cnt s =
     (if page_cnt = 0 then Some (NULL, s)
      else do {
        let pool = pool_of flags s;
        (page_idx, m) \<leftarrow> bitmap_scan_and_flip (used_map pool) 0 page_cnt False;
        let s1 = set_pool flags (pool\<lparr>used_map := m\<rparr>) s;
        let pages = (if page_idx \<noteq> BITMAP_ERROR then base pool + PGSIZE * page_idx else NULL);
        if pages \<noteq> NULL then
          if flags AND PAL_ZERO \<noteq> 0 then do {
            (_, m') \<leftarrow> memset (vm_mem s1) pages 0 (PGSIZE * page_cnt);
            Some (pages, s1\<lparr>vm_mem := m'\<rparr>)
          } else Some (pages, s1)
        else if flags AND PAL_ASSERT \<noteq> 0 then None
        else Some (pages, s1)
      })"

definition palloc_get_page :: "u32 \<Rightarrow> vm \<Rightarrow> (ptr \<times> vm) option" where
  "palloc_get_page flags s = palloc_get_multiple flags 1 s"

definition palloc_free_multiple :: "ptr \<Rightarrow> size_t \<Rightarrow> vm \<Rightarrow> vm option" where
  "palloc_free_multiple pages page_cnt s = do {
     ASSERT (pg_ofs pages = 0);
     if pages = NULL \<or> page_cnt = 0 then Some s
     else do {
       flags \<leftarrow> (if page_from_pool (kernel_pool s) pages then Some 0
                 else if page_from_pool (user_pool s) pages then Some PAL_USER else None);
       let pool = pool_of flags s;
       let page_idx = pg_no pages - pg_no (base pool);
       (_, m) \<leftarrow> memset (vm_mem s) pages 0xcc (PGSIZE * page_cnt);
       used \<leftarrow> bitmap_all (used_map pool) page_idx page_cnt;
       ASSERT used;
       b \<leftarrow> bitmap_set_multiple (used_map pool) page_idx page_cnt False;
       Some ((set_pool flags (pool\<lparr>used_map := b\<rparr>) s)\<lparr>vm_mem := m\<rparr>)
     }
   }"

definition palloc_free_page :: "ptr \<Rightarrow> vm \<Rightarrow> vm option" where
  "palloc_free_page page s = palloc_free_multiple page 1 s"

subsection \<open>The pages in use\<close>

definition pool_ok :: "pool \<Rightarrow> bool" where
  "pool_ok p \<longleftrightarrow> bm_wf (used_map p) \<and> pg_ofs (base p) = 0 \<and> is_kernel_vaddr (base p) \<and>
     unat (base p) + 4096 * unat (bit_cnt (used_map p)) < 2 ^ 32"

definition page_addr :: "pool \<Rightarrow> nat \<Rightarrow> ptr" where
  "page_addr p k = base p + PGSIZE * of_nat k"

definition used_of :: "pool \<Rightarrow> ptr set" where
  "used_of p = page_addr p ` {k. k < unat (bit_cnt (used_map p)) \<and> bools (used_map p) ! k}"

lemma unat_pages: "4096 * unat n < 2 ^ 32 \<Longrightarrow> unat (n * PGSIZE) = 4096 * unat (n :: size_t)"
  by (simp add: PGSIZE_def unat_word_ariths)

lemma unat_page_addr:
  assumes "pool_ok p" "k < unat (bit_cnt (used_map p))"
  shows "unat (page_addr p k) = unat (base p) + 4096 * k"
proof -
  have le: "unat (base p) + 4096 * k < 2 ^ 32" using assms by (simp add: pool_ok_def)
  then have "k < 2 ^ 32" by simp
  with le have "unat (PGSIZE * of_nat k) = 4096 * k" by (simp add: PGSIZE_def unat_word_ariths unat_of_nat)
  with le show ?thesis by (simp add: page_addr_def unat_plus_no_wrap)
qed

lemma page_addr_inj:
  assumes "pool_ok p" "j < unat (bit_cnt (used_map p))" "k < unat (bit_cnt (used_map p))" "page_addr p j = page_addr p k"
  shows "j = k"
proof -
  have "unat (base p) + 4096 * j = unat (base p) + 4096 * k"
    unfolding unat_page_addr [OF assms(1,2), symmetric] unat_page_addr [OF assms(1,3), symmetric] assms(4) ..
  then show ?thesis by simp
qed

lemma page_addr_kernel:
  assumes "pool_ok p" "k < unat (bit_cnt (used_map p))"
  shows "is_kernel_vaddr (page_addr p k)" "pg_ofs (page_addr p k) = 0" "page_addr p k \<noteq> NULL"
    "pg_no (page_addr p k) = pg_no (base p) + of_nat k"
proof -
  note u = unat_page_addr [OF assms]
  have b: "unat PHYS_BASE \<le> unat (base p)" using assms by (simp add: pool_ok_def is_kernel_vaddr_def word_le_nat_alt)
  then show "is_kernel_vaddr (page_addr p k)" using u by (simp add: is_kernel_vaddr_def word_le_nat_alt)
  have "0 < unat (page_addr p k)" using u b by (simp add: PHYS_BASE_def)
  then show "page_addr p k \<noteq> NULL" by auto
  have o: "unat (base p) mod 4096 = 0" using assms unat_pg_ofs [of "base p"] by (simp add: pool_ok_def)
  then have "unat (pg_ofs (page_addr p k)) = 0" by (simp add: unat_pg_ofs u mod_add_left_eq [symmetric])
  then show "pg_ofs (page_addr p k) = 0" by (simp add: unat_eq_0)
  have k: "k < 2 ^ 32" using u unat_lt_32 [of "page_addr p k"] by simp
  have "unat (pg_no (base p)) + k < 2 ^ 32"
    using u unat_lt_32 [of "page_addr p k"] by (simp add: unat_pg_no)
  then have "unat (pg_no (base p) + of_nat k) = unat (pg_no (base p)) + k" using k by (simp add: unat_plus_no_wrap unat_of_nat)
  moreover have "unat (pg_no (page_addr p k)) = unat (pg_no (base p)) + k" using o by (simp add: unat_pg_no u div_add1_eq)
  ultimately show "pg_no (page_addr p k) = pg_no (base p) + of_nat k" by (simp add: word_unat_eq_iff)
qed

text \<open>Taking pages out of a pool.\<close>

lemma pool_take:
  assumes ok: "pool_ok p" and t: "bitmap_scan_and_flip (used_map p) 0 n False = Some (i, m)" "i \<noteq> BITMAP_ERROR"
  shows "pool_ok (p\<lparr>used_map := m\<rparr>)" "unat i + unat n \<le> unat (bit_cnt (used_map p))" "bit_cnt m = bit_cnt (used_map p)"
    "used_of (p\<lparr>used_map := m\<rparr>) = used_of p \<union> page_addr p ` {unat i..<unat i + unat n}"
    "used_of p \<inter> page_addr p ` {unat i..<unat i + unat n} = {}"
proof -
  have wf: "bm_wf (used_map p)" using ok by (simp add: pool_ok_def)
  note r = bm.alloc_run [OF wf t]
  have c: "bit_cnt m = bit_cnt (used_map p)" using r(4) by (metis length_bools length_fill word_unat_eq_iff)
  then show "pool_ok (p\<lparr>used_map := m\<rparr>)" "bit_cnt m = bit_cnt (used_map p)" using ok r(1) by (simp_all add: pool_ok_def)
  show le: "unat i + unat n \<le> unat (bit_cnt (used_map p))" using r(2) by simp
  have b: "{k. k < unat (bit_cnt m) \<and> bools m ! k} =
      {k. k < unat (bit_cnt (used_map p)) \<and> bools (used_map p) ! k} \<union> {unat i..<unat i + unat n}"
    using r(4) le c by (auto simp: nth_fill)
  have "page_addr (p\<lparr>used_map := m\<rparr>) = page_addr p" by (simp add: fun_eq_iff page_addr_def)
  then show "used_of (p\<lparr>used_map := m\<rparr>) = used_of p \<union> page_addr p ` {unat i..<unat i + unat n}"
    using b by (simp add: used_of_def image_Un)
  have free: "\<not> bools (used_map p) ! k" if "unat i \<le> k" "k < unat i + unat n" for k
    using bm.alloc_avoids_used [OF wf t that] by simp
  show "used_of p \<inter> page_addr p ` {unat i..<unat i + unat n} = {}"
  proof (rule equals0I)
    fix a assume "a \<in> used_of p \<inter> page_addr p ` {unat i..<unat i + unat n}"
    then obtain j k where jk: "a = page_addr p j" "j < unat (bit_cnt (used_map p))" "bools (used_map p) ! j"
      "a = page_addr p k" "unat i \<le> k" "k < unat i + unat n" unfolding used_of_def by (elim IntE imageE) (simp, blast)
    have "page_addr p j = page_addr p k" using jk(1,4) by simp
    from page_addr_inj [OF ok jk(2) _ this] jk(6) le have "j = k" by simp
    with free jk(3,5,6) show False by blast
  qed
qed

text \<open>Giving pages back.\<close>

lemma pool_give:
  assumes ok: "pool_ok p" and le: "i + unat n \<le> unat (bit_cnt (used_map p))"
    and u: "page_addr p ` {i..<i + unat n} \<subseteq> used_of p"
  obtains m where "bitmap_all (used_map p) (of_nat i) n = Some True" "bitmap_set_multiple (used_map p) (of_nat i) n False = Some m"
    "pool_ok (p\<lparr>used_map := m\<rparr>)" "bit_cnt m = bit_cnt (used_map p)"
    "used_of (p\<lparr>used_map := m\<rparr>) = used_of p - page_addr p ` {i..<i + unat n}"
proof -
  have wf: "bm_wf (used_map p)" using ok by (simp add: pool_ok_def)
  have i: "unat (of_nat i :: size_t) = i" using le unat_lt_32 [of "bit_cnt (used_map p)"] by (simp add: unat_of_nat)
  have used: "bools (used_map p) ! k" if k: "i \<le> k" "k < i + unat n" for k
  proof -
    obtain j where j: "j < unat (bit_cnt (used_map p))" "bools (used_map p) ! j" "page_addr p j = page_addr p k"
      using u k by (fastforce simp: used_of_def)
    from page_addr_inj [OF ok j(1) _ j(3)] k le j(2) show ?thesis by simp
  qed
  have le': "unat (of_nat i :: size_t) + unat n \<le> length (bools (used_map p))" using i le by simp
  have a: "bitmap_all (used_map p) (of_nat i) n = Some True"
    unfolding bm.all_used [OF wf le'] using used i by (simp add: all_eq_def)
  obtain m where m: "bitmap_set_multiple (used_map p) (of_nat i) n False = Some m" "bm_wf m"
    "bools m = fill i (unat n) False (bools (used_map p))"
    using bm.set_range [OF wf le', of False] i by auto
  have c: "bit_cnt m = bit_cnt (used_map p)" using m(3) by (metis length_bools length_fill word_unat_eq_iff)
  have b: "{k. k < unat (bit_cnt m) \<and> bools m ! k} =
      {k. k < unat (bit_cnt (used_map p)) \<and> bools (used_map p) ! k} - {i..<i + unat n}"
    using m(3) le c by (auto simp: nth_fill split: if_splits)
  have pa: "page_addr (p\<lparr>used_map := m\<rparr>) = page_addr p" by (simp add: fun_eq_iff page_addr_def)
  have inj: "inj_on (page_addr p) {k. k < unat (bit_cnt (used_map p))}" using page_addr_inj [OF ok] by (auto simp: inj_on_def)
  have "used_of (p\<lparr>used_map := m\<rparr>) = used_of p - page_addr p ` {i..<i + unat n}"
    using b pa inj_on_image_set_diff [OF inj, of "{k. k < unat (bit_cnt (used_map p)) \<and> bools (used_map p) ! k}" "{i..<i + unat n}"] le
    by (simp add: used_of_def subset_eq)
  with a m c ok show thesis by (intro that [of m]) (simp_all add: pool_ok_def)
qed

subsection \<open>The allocator's invariant\<close>

definition vm_ok :: "vm \<Rightarrow> bool" where
  "vm_ok s \<longleftrightarrow> pool_ok (kernel_pool s) \<and> pool_ok (user_pool s) \<and>
     unat (base (kernel_pool s)) + 4096 * unat (bit_cnt (used_map (kernel_pool s))) \<le> unat (base (user_pool s))"

definition used_pages :: "vm \<Rightarrow> ptr set" where
  "used_pages s = used_of (kernel_pool s) \<union> used_of (user_pool s)"

lemma memset_loop_at:
  "n < 2 ^ 32 \<Longrightarrow> memset_loop m dst v n a = (if unat (a - dst) < n then v else m a)"
proof (induction n arbitrary: m dst)
  case (Suc n)
  have ih: "memset_loop (m(dst := v)) (dst + 1) v n a = (if unat (a - (dst + 1)) < n then v else (m(dst := v)) a)"
    using Suc by simp
  show ?case
  proof (cases "a = dst")
    case True
    with ih show ?thesis by simp
  next
    case False
    with ih unat_minus_succ [OF False] show ?thesis by simp
  qed
qed simp

text \<open>The bytes of \<open>n\<close> pages.\<close>

definition in_pages :: "ptr \<Rightarrow> nat \<Rightarrow> ptr \<Rightarrow> bool" where
  "in_pages pg n a \<longleftrightarrow> unat (a - pg) < 4096 * n"

lemma pools_disjoint:
  assumes "vm_ok s" "a \<in> page_addr (kernel_pool s) ` {..<unat (bit_cnt (used_map (kernel_pool s)))}"
    "b \<in> page_addr (user_pool s) ` {..<unat (bit_cnt (used_map (user_pool s)))}"
  shows "a \<noteq> b"
proof -
  obtain j k where j: "a = page_addr (kernel_pool s) j" "j < unat (bit_cnt (used_map (kernel_pool s)))"
    and k: "b = page_addr (user_pool s) k" "k < unat (bit_cnt (used_map (user_pool s)))" using assms by auto
  have "unat a < unat b"
    using unat_page_addr [of "kernel_pool s" j] unat_page_addr [of "user_pool s" k] j k assms(1) by (simp add: vm_ok_def)
  then show ?thesis by auto
qed

definition pages_at :: "ptr \<Rightarrow> nat \<Rightarrow> ptr set" where
  "pages_at pg n = (\<lambda>i. pg + PGSIZE * of_nat i) ` {..<n}"

lemma pages_page_addr: "page_addr p ` {i..<i + n} = pages_at (page_addr p i) n"
proof -
  have e: "page_addr p (i + j) = page_addr p i + PGSIZE * of_nat j" for j
    unfolding page_addr_def of_nat_add distrib_left by (rule add.assoc [symmetric])
  have "{i..<i + n} = (\<lambda>j. i + j) ` {..<n}"
    using image_add_atLeastLessThan [of i 0 n] by (simp only: lessThan_atLeast0 add_0 add.commute [of n i])
  then have "page_addr p ` {i..<i + n} = (\<lambda>j. page_addr p (i + j)) ` {..<n}" by (simp only: image_image)
  then show ?thesis by (simp only: pages_at_def e)
qed

lemma used_of_sub: "used_of p \<subseteq> page_addr p ` {..<unat (bit_cnt (used_map p))}"
  by (auto simp: used_of_def)

lemma set_pool_sel [simp]:
  "vm_mem (set_pool flags p s) = vm_mem s" "vm_cr3 (set_pool flags p s) = vm_cr3 s"
  "init_ram_pages (set_pool flags p s) = init_ram_pages s" "vm_init_page_dir (set_pool flags p s) = vm_init_page_dir s"
  "pool_of flags (set_pool flags p s) = p" "set_pool flags (pool_of flags s) s = s"
  by (cases "flags AND PAL_USER \<noteq> 0"; simp only: set_pool_def pool_of_def if_True if_False vm.simps; simp)+

lemma set_pool_ok:
  assumes ok: "vm_ok s" and p: "pool_ok (pool_of flags s\<lparr>used_map := m\<rparr>)" "bit_cnt m = bit_cnt (used_map (pool_of flags s))"
    and u: "used_of (pool_of flags s\<lparr>used_map := m\<rparr>) = used_of (pool_of flags s) \<union> N"
    and N: "N \<subseteq> page_addr (pool_of flags s) ` {..<unat (bit_cnt (used_map (pool_of flags s)))}" "used_of (pool_of flags s) \<inter> N = {}"
  shows "vm_ok (set_pool flags (pool_of flags s\<lparr>used_map := m\<rparr>) s)"
    "used_pages (set_pool flags (pool_of flags s\<lparr>used_map := m\<rparr>) s) = used_pages s \<union> N" "used_pages s \<inter> N = {}"
proof -
  show "vm_ok (set_pool flags (pool_of flags s\<lparr>used_map := m\<rparr>) s)"
    using ok p by (simp add: vm_ok_def set_pool_def pool_of_def split: if_splits)
  show "used_pages (set_pool flags (pool_of flags s\<lparr>used_map := m\<rparr>) s) = used_pages s \<union> N"
    using u by (auto simp: used_pages_def set_pool_def pool_of_def split: if_splits)
  have d: "used_of (kernel_pool s) \<inter> X = {}" if "X \<subseteq> page_addr (user_pool s) ` {..<unat (bit_cnt (used_map (user_pool s)))}" for X
    using that used_of_sub [of "kernel_pool s"] pools_disjoint [OF ok] by blast
  have d': "used_of (user_pool s) \<inter> X = {}" if "X \<subseteq> page_addr (kernel_pool s) ` {..<unat (bit_cnt (used_map (kernel_pool s)))}" for X
    using that used_of_sub [of "user_pool s"] pools_disjoint [OF ok] by blast
  show "used_pages s \<inter> N = {}"
  proof (cases "flags AND PAL_USER \<noteq> 0")
    case True
    then have "pool_of flags s = user_pool s" by (simp add: pool_of_def)
    with N d [of N] show ?thesis by (simp add: used_pages_def Int_Un_distrib2)
  next
    case False
    then have "pool_of flags s = kernel_pool s" by (simp add: pool_of_def)
    with N d' [of N] show ?thesis by (simp add: used_pages_def Int_Un_distrib2)
  qed
qed

lemma palloc_get_cases:
  assumes ok: "vm_ok s" and n: "n \<noteq> 0"
  obtains (full) "palloc_get_multiple flags n s = (if flags AND PAL_ASSERT \<noteq> 0 then None else Some (NULL, s))"
      "first_fit (bools (used_map (pool_of flags s))) 0 (unat n) False = None"
  | (got) pg s' where "palloc_get_multiple flags n s = Some (pg, s')" "pg \<noteq> NULL" "pg_ofs pg = 0" "is_kernel_vaddr pg"
      "unat pg + 4096 * unat n \<le> 2 ^ 32" "vm_ok s'" "used_pages s' = used_pages s \<union> pages_at pg (unat n)"
      "used_pages s \<inter> pages_at pg (unat n) = {}" "vm_cr3 s' = vm_cr3 s"
      "\<And>a. vm_mem s' a = (if flags AND PAL_ZERO \<noteq> 0 \<and> in_pages pg (unat n) a then 0 else vm_mem s a)"
      "pool_of flags s' = pool_of flags s\<lparr>used_map := used_map (pool_of flags s')\<rparr>"
      "\<exists>k. pg = page_addr (pool_of flags s) k \<and> k + unat n \<le> unat (bit_cnt (used_map (pool_of flags s)))"
      "page_addr (pool_of flags s') = page_addr (pool_of flags s)"
      "bit_cnt (used_map (pool_of flags s')) = bit_cnt (used_map (pool_of flags s))"
      "used_of (pool_of flags s') = used_of (pool_of flags s) \<union> pages_at pg (unat n)"
      "init_ram_pages s' = init_ram_pages s" "vm_init_page_dir s' = vm_init_page_dir s"
proof -
  let ?p = "pool_of flags s"
  have pok: "pool_ok ?p" using ok by (simp add: vm_ok_def pool_of_def)
  have wf: "bm_wf (used_map ?p)" using pok by (simp add: pool_ok_def)
  obtain i m where sc: "bitmap_scan_and_flip (used_map ?p) 0 n False = Some (i, m)" using bm.alloc_inv [OF wf, of n] by blast
  show thesis
  proof (cases "i = BITMAP_ERROR")
    case True
    have "m = used_map ?p" "first_fit (bools (used_map ?p)) 0 (unat n) False = None"
      using sc True by (cases rule: bm.alloc_cases [OF wf, of n]; simp)+
    with True sc n show thesis by (intro full) (simp add: palloc_get_multiple_def Let_def)
  next
    case False
    note t = pool_take [OF pok sc False]
    let ?k = "unat i" let ?pg = "page_addr ?p ?k" let ?s = "set_pool flags (?p\<lparr>used_map := m\<rparr>) s"
    have n0: "0 < unat n" using n by (simp add: unat_gt_0)
    have k: "?k < unat (bit_cnt (used_map ?p))" using t(2) n0 by simp
    have pg: "base ?p + PGSIZE * i = ?pg" by (simp add: page_addr_def)
    note a = page_addr_kernel [OF pok k]
    have le: "unat ?pg + 4096 * unat n \<le> 2 ^ 32" using unat_page_addr [OF pok k] t(2) pok by (simp add: pool_ok_def)
    have "unat PHYS_BASE \<le> unat ?pg" using a(1) by (simp add: is_kernel_vaddr_def word_le_nat_alt)
    then have "4096 * unat n < 2 ^ 32" using le by (simp add: PHYS_BASE_def)
    then have sz: "unat (PGSIZE * n) = 4096 * unat n" "4096 * unat n < 2 ^ 32" by (simp_all add: PGSIZE_def unat_word_ariths)
    have N: "page_addr ?p ` {?k..<?k + unat n} \<subseteq> page_addr ?p ` {..<unat (bit_cnt (used_map ?p))}"
      using t(2) by (intro image_mono) auto
    note sp = set_pool_ok [OF ok t(1,3,4) N t(5)]
    let ?m = "if flags AND PAL_ZERO \<noteq> 0 then memset_loop (vm_mem s) ?pg 0 (4096 * unat n) else vm_mem s"
    have g: "palloc_get_multiple flags n s = Some (?pg, ?s\<lparr>vm_mem := ?m\<rparr>)"
      using n sc False a(3) sz by (simp add: palloc_get_multiple_def Let_def pg memset_def)
    have v: "vm_ok (?s\<lparr>vm_mem := ?m\<rparr>)" "used_pages (?s\<lparr>vm_mem := ?m\<rparr>) = used_pages s \<union> pages_at ?pg (unat n)"
      using sp(1,2) by (simp_all add: vm_ok_def used_pages_def pages_page_addr)
    have po: "pool_of flags (?s\<lparr>vm_mem := ?m\<rparr>) = ?p\<lparr>used_map := m\<rparr>" by (simp add: pool_of_def set_pool_def)
    show thesis
    proof (rule got [OF g a(3,2,1) le v])
      show "used_pages s \<inter> pages_at ?pg (unat n) = {}" using sp(3) by (simp add: pages_page_addr)
      show "vm_mem (?s\<lparr>vm_mem := ?m\<rparr>) a = (if flags AND PAL_ZERO \<noteq> 0 \<and> in_pages ?pg (unat n) a then 0 else vm_mem s a)" for a
        using memset_loop_at [OF sz(2), of "vm_mem s" ?pg 0 a] by (simp add: in_pages_def)
      show "\<exists>k. ?pg = page_addr ?p k \<and> k + unat n \<le> unat (bit_cnt (used_map ?p))" using t(2) by blast
      show "page_addr (pool_of flags (?s\<lparr>vm_mem := ?m\<rparr>)) = page_addr ?p" unfolding po by (simp add: page_addr_def fun_eq_iff)
      show "bit_cnt (used_map (pool_of flags (?s\<lparr>vm_mem := ?m\<rparr>))) = bit_cnt (used_map ?p)" unfolding po using t(3) by simp
      show "used_of (pool_of flags (?s\<lparr>vm_mem := ?m\<rparr>)) = used_of ?p \<union> pages_at ?pg (unat n)"
        unfolding po t(4) by (simp add: pages_page_addr)
    qed (simp_all add: po)
  qed
qed

text \<open>A run of \<open>n\<close> free pages in a pool.\<close>

definition has_run :: "pool \<Rightarrow> nat \<Rightarrow> bool" where
  "has_run p n \<longleftrightarrow> (\<exists>k. k + n \<le> unat (bit_cnt (used_map p)) \<and> used_of p \<inter> pages_at (page_addr p k) n = {})"

lemma first_fit_has_run:
  assumes ok: "pool_ok p" and "first_fit (bools (used_map p)) 0 n False = None"
  shows "\<not> has_run p n"
proof
  assume "has_run p n"
  then obtain k where k: "k + n \<le> unat (bit_cnt (used_map p))" "used_of p \<inter> pages_at (page_addr p k) n = {}"
    by (auto simp: has_run_def)
  then have "\<not> all_eq (bools (used_map p)) k n False" using assms(2) by (simp add: first_fit_None)
  then obtain j where j: "j < n" "bools (used_map p) ! (k + j)" by (auto simp: all_eq_def)
  have "page_addr p (k + j) \<in> used_of p" using j k by (simp add: used_of_def)
  moreover have "page_addr p (k + j) \<in> pages_at (page_addr p k) n" using j by (simp add: pages_page_addr [symmetric])
  ultimately show False using k(2) by blast
qed

text \<open>An allocation returns fresh pages, or there is no run of free ones.\<close>

text \<open>
  C9: palloc_get_multiple for at least one page returns page-aligned kernel addresses of pages that
  were all free, marks exactly them as used and touches no other byte, and zeroes them with
  PAL_ZERO; it returns NULL (or panics with PAL_ASSERT) only if the pool has no run of that many
  free pages.
\<close>

theorem palloc_get_fresh:
  assumes "vm_ok s" and "n \<noteq> 0"
  shows "case palloc_get_multiple flags n s of
      None \<Rightarrow> flags AND PAL_ASSERT \<noteq> 0 \<and> \<not> has_run (pool_of flags s) (unat n)
    | Some (pg, s') \<Rightarrow>
        if pg = NULL then flags AND PAL_ASSERT = 0 \<and> \<not> has_run (pool_of flags s) (unat n) \<and> s' = s
        else pg_ofs pg = 0 \<and> is_kernel_vaddr pg \<and> vm_ok s' \<and>
          used_pages s \<inter> pages_at pg (unat n) = {} \<and> used_pages s' = used_pages s \<union> pages_at pg (unat n) \<and>
          (\<forall>a. vm_mem s' a = (if flags AND PAL_ZERO \<noteq> 0 \<and> in_pages pg (unat n) a then 0 else vm_mem s a))"
  using assms
proof (cases rule: palloc_get_cases [of s n flags])
  case full
  have "pool_ok (pool_of flags s)" using assms(1) by (simp add: vm_ok_def pool_of_def)
  then have "\<not> has_run (pool_of flags s) (unat n)" using full(2) by (rule first_fit_has_run)
  with full(1) show ?thesis by simp
next
  case (got pg s')
  then show ?thesis by simp
qed

subsection \<open>Freeing\<close>

lemma page_from_pool_iff:
  assumes "pool_ok p"
  shows "page_from_pool p pg \<longleftrightarrow> unat (base p) div 4096 \<le> unat pg div 4096 \<and>
    unat pg div 4096 < unat (base p) div 4096 + unat (bit_cnt (used_map p))"
proof -
  have "unat (base p) + 4096 * unat (bit_cnt (used_map p)) \<le> 2 ^ 32" using assms by (simp add: pool_ok_def)
  then have "unat (base p) div 4096 + unat (bit_cnt (used_map p)) < 2 ^ 32" by simp
  then have "unat (pg_no (base p) + bit_cnt (used_map p)) = unat (base p) div 4096 + unat (bit_cnt (used_map p))"
    by (simp add: unat_plus_no_wrap unat_pg_no)
  then show ?thesis by (simp add: page_from_pool_def Let_def bitmap_size_def word_le_nat_alt word_less_nat_alt unat_pg_no)
qed

lemma page_from_pool_addr:
  assumes "pool_ok p" "k < unat (bit_cnt (used_map p))"
  shows "page_from_pool p (page_addr p k)"
  using assms by (simp add: page_from_pool_iff unat_page_addr)

lemma page_from_kernel_pool:
  assumes ok: "vm_ok s" and "k < unat (bit_cnt (used_map (user_pool s)))"
  shows "\<not> page_from_pool (kernel_pool s) (page_addr (user_pool s) k)"
proof -
  have p: "pool_ok (kernel_pool s)" "pool_ok (user_pool s)" using ok by (simp_all add: vm_ok_def)
  have "(unat (base (kernel_pool s)) + 4096 * unat (bit_cnt (used_map (kernel_pool s)))) div 4096 \<le> unat (page_addr (user_pool s) k) div 4096"
    using unat_page_addr [OF p(2) assms(2)] ok by (intro div_le_mono) (simp add: vm_ok_def)
  then show ?thesis by (simp add: page_from_pool_iff [OF p(1)] div_add1_eq)
qed

lemma set_pool_less:
  assumes ok: "vm_ok s" and p: "pool_ok (pool_of flags s\<lparr>used_map := m\<rparr>)" "bit_cnt m = bit_cnt (used_map (pool_of flags s))"
    and u: "used_of (pool_of flags s\<lparr>used_map := m\<rparr>) = used_of (pool_of flags s) - N"
    and N: "N \<subseteq> page_addr (pool_of flags s) ` {..<unat (bit_cnt (used_map (pool_of flags s)))}"
  shows "vm_ok (set_pool flags (pool_of flags s\<lparr>used_map := m\<rparr>) s)"
    "used_pages (set_pool flags (pool_of flags s\<lparr>used_map := m\<rparr>) s) = used_pages s - N"
proof -
  show "vm_ok (set_pool flags (pool_of flags s\<lparr>used_map := m\<rparr>) s)"
    using ok p by (simp add: vm_ok_def set_pool_def pool_of_def split: if_splits)
  have d: "used_of (kernel_pool s) \<inter> X = {}" if "X \<subseteq> page_addr (user_pool s) ` {..<unat (bit_cnt (used_map (user_pool s)))}" for X
    using that used_of_sub [of "kernel_pool s"] pools_disjoint [OF ok] by blast
  have d': "used_of (user_pool s) \<inter> X = {}" if "X \<subseteq> page_addr (kernel_pool s) ` {..<unat (bit_cnt (used_map (kernel_pool s)))}" for X
    using that used_of_sub [of "user_pool s"] pools_disjoint [OF ok] by blast
  show "used_pages (set_pool flags (pool_of flags s\<lparr>used_map := m\<rparr>) s) = used_pages s - N"
  proof (cases "flags AND PAL_USER \<noteq> 0")
    case True
    then have e: "pool_of flags s = user_pool s" by (simp add: pool_of_def)
    have "used_of (kernel_pool s) - N = used_of (kernel_pool s)" using d [of N] N unfolding e by blast
    with True u show ?thesis by (simp add: e used_pages_def set_pool_def Un_Diff)
  next
    case False
    then have e: "pool_of flags s = kernel_pool s" by (simp add: pool_of_def)
    have "used_of (user_pool s) - N = used_of (user_pool s)" using d' [of N] N unfolding e by blast
    with False u show ?thesis by (simp add: e used_pages_def set_pool_def Un_Diff)
  qed
qed

lemma pool_of_flag:
  assumes "vm_ok s" "k < unat (bit_cnt (used_map (pool_of flags s)))"
  obtains f where "(if page_from_pool (kernel_pool s) (page_addr (pool_of flags s) k) then Some 0
                    else if page_from_pool (user_pool s) (page_addr (pool_of flags s) k) then Some PAL_USER else None) = Some f"
    "pool_of f s = pool_of flags s"
proof (cases "flags AND PAL_USER \<noteq> 0")
  case True
  then have e: "pool_of flags s = user_pool s" by (simp add: pool_of_def)
  have "\<not> page_from_pool (kernel_pool s) (page_addr (user_pool s) k)" "page_from_pool (user_pool s) (page_addr (user_pool s) k)"
    using page_from_kernel_pool [OF assms(1)] page_from_pool_addr [of "user_pool s" k] assms by (simp_all add: e vm_ok_def)
  then show thesis using that [of PAL_USER] by (simp add: e) (simp add: pool_of_def PAL_USER_def)
next
  case False
  then have e: "pool_of flags s = kernel_pool s" by (simp add: pool_of_def)
  have "page_from_pool (kernel_pool s) (page_addr (kernel_pool s) k)"
    using page_from_pool_addr [of "kernel_pool s" k] assms by (simp add: e vm_ok_def)
  then show thesis using that [of 0] by (simp add: e) (simp add: pool_of_def)
qed

text \<open>The pages of a run in use can be freed; they are filled with \<open>0xcc\<close>.\<close>

lemma palloc_free_run:
  assumes ok: "vm_ok s" and n: "n \<noteq> 0" and pg: "pg = page_addr (pool_of flags s) k"
    and le: "k + unat n \<le> unat (bit_cnt (used_map (pool_of flags s)))"
    and used: "pages_at pg (unat n) \<subseteq> used_of (pool_of flags s)"
  obtains s' where "palloc_free_multiple pg n s = Some s'" "vm_ok s'" "used_pages s' = used_pages s - pages_at pg (unat n)"
    "\<And>a. vm_mem s' a = (if in_pages pg (unat n) a then 0xcc else vm_mem s a)" "vm_cr3 s' = vm_cr3 s"
    "page_addr (pool_of flags s') = page_addr (pool_of flags s)"
    "bit_cnt (used_map (pool_of flags s')) = bit_cnt (used_map (pool_of flags s))"
proof -
  have n0: "0 < unat n" using n by (simp add: unat_gt_0)
  have k: "k < unat (bit_cnt (used_map (pool_of flags s)))" using le n0 by simp
  obtain f where f: "(if page_from_pool (kernel_pool s) pg then Some 0
                    else if page_from_pool (user_pool s) pg then Some PAL_USER else None) = Some f"
    "pool_of f s = pool_of flags s" using pool_of_flag [OF ok k] unfolding pg by blast
  let ?p = "pool_of f s"
  have pok: "pool_ok ?p" using ok by (simp add: vm_ok_def pool_of_def)
  note a = page_addr_kernel [OF pok k [folded f(2)], folded f(2), unfolded f(2), folded pg]
  have le2: "unat pg + 4096 * unat n \<le> 2 ^ 32"
    using unat_page_addr [OF pok k [folded f(2)]] le pok f(2) pg by (simp add: pool_ok_def)
  have "unat PHYS_BASE \<le> unat pg" using a(1) by (simp add: is_kernel_vaddr_def word_le_nat_alt)
  then have "4096 * unat n < 2 ^ 32" using le2 by (simp add: PHYS_BASE_def)
  then have sz: "unat (PGSIZE * n) = 4096 * unat n" "4096 * unat n < 2 ^ 32" by (simp_all add: PGSIZE_def unat_word_ariths)
  have im: "pages_at pg (unat n) = page_addr ?p ` {k..<k + unat n}" by (simp add: pages_page_addr pg f(2))
  obtain m where m: "bitmap_all (used_map ?p) (of_nat k) n = Some True" "bitmap_set_multiple (used_map ?p) (of_nat k) n False = Some m"
    "pool_ok (?p\<lparr>used_map := m\<rparr>)" "bit_cnt m = bit_cnt (used_map ?p)"
    "used_of (?p\<lparr>used_map := m\<rparr>) = used_of ?p - page_addr ?p ` {k..<k + unat n}"
    using pool_give [OF pok, of k n] le used im f(2) by auto
  have N: "page_addr ?p ` {k..<k + unat n} \<subseteq> page_addr ?p ` {..<unat (bit_cnt (used_map ?p))}"
    using le f(2) by (intro image_mono) auto
  note sp = set_pool_less [OF ok m(3,4,5) N]
  have ix: "pg_no pg - pg_no (base ?p) = of_nat k" using a(4) f(2) by simp
  let ?s = "(set_pool f (?p\<lparr>used_map := m\<rparr>) s)\<lparr>vm_mem := memset_loop (vm_mem s) pg 0xcc (4096 * unat n)\<rparr>"
  have "palloc_free_multiple pg n s = Some ?s"
    using n a(2,3) f(1) m(1,2) sz ix by (simp add: palloc_free_multiple_def Let_def memset_def)
  moreover have "vm_ok ?s" "used_pages ?s = used_pages s - pages_at pg (unat n)"
    using sp by (simp_all add: vm_ok_def used_pages_def im)
  moreover have "vm_mem ?s a = (if in_pages pg (unat n) a then 0xcc else vm_mem s a)" for a
    using memset_loop_at [OF sz(2), of "vm_mem s" pg "0xcc" a] by (simp add: in_pages_def)
  moreover have "pool_of flags ?s = ?p\<lparr>used_map := m\<rparr> \<or> pool_of flags ?s = ?p" using f(2) by (auto simp: pool_of_def set_pool_def)
  then have "page_addr (pool_of flags ?s) = page_addr (pool_of flags s) \<and>
    bit_cnt (used_map (pool_of flags ?s)) = bit_cnt (used_map (pool_of flags s))"
    using m(4) f(2) by (auto simp: page_addr_def fun_eq_iff)
  ultimately show thesis by (intro that [of ?s]) simp_all
qed

text \<open>Freeing a run of which a page is not in use fails an assertion.\<close>

lemma palloc_free_unused:
  assumes ok: "vm_ok s" and n: "n \<noteq> 0" and pg: "pg = page_addr (pool_of flags s) k"
    and le: "k + unat n \<le> unat (bit_cnt (used_map (pool_of flags s)))"
    and unused: "\<not> pages_at pg (unat n) \<subseteq> used_of (pool_of flags s)"
  shows "palloc_free_multiple pg n s = None"
proof -
  have n0: "0 < unat n" using n by (simp add: unat_gt_0)
  have k: "k < unat (bit_cnt (used_map (pool_of flags s)))" using le n0 by simp
  obtain f where f: "(if page_from_pool (kernel_pool s) pg then Some 0
                    else if page_from_pool (user_pool s) pg then Some PAL_USER else None) = Some f"
    "pool_of f s = pool_of flags s" using pool_of_flag [OF ok k] unfolding pg by blast
  let ?p = "pool_of flags s"
  have pok: "pool_ok ?p" using ok by (simp add: vm_ok_def pool_of_def)
  then have wf: "bm_wf (used_map ?p)" by (simp add: pool_ok_def)
  have i: "unat (of_nat k :: size_t) = k" using k unat_lt_32 [of "bit_cnt (used_map ?p)"] by (simp add: unat_of_nat)
  obtain j where j: "k \<le> j" "j < k + unat n" "page_addr ?p j \<notin> used_of ?p"
    using unused unfolding pg pages_page_addr [symmetric] by (meson atLeastLessThan_iff image_subsetI)
  then have "\<not> bools (used_map ?p) ! (k + (j - k))" using le by (auto simp: used_of_def)
  moreover have "j - k < unat n" using j by simp
  ultimately have "\<not> all_eq (bools (used_map ?p)) k (unat n) True" unfolding all_eq_def by blast
  then have "bitmap_all (used_map ?p) (of_nat k) n = Some False" using bm.all_used [OF wf, of "of_nat k" n] le i by simp
  moreover have "pg_no pg - pg_no (base ?p) = of_nat k" using page_addr_kernel(4) [OF pok k] pg by simp
  moreover have "pg_ofs pg = 0" "pg \<noteq> NULL" using page_addr_kernel(2,3) [OF pok k] pg by simp_all
  ultimately show ?thesis using n f by (simp add: palloc_free_multiple_def Let_def memset_def)
qed

text \<open>Freeing what was allocated.\<close>

text \<open>
  C22: Freeing what palloc_get_multiple returned succeeds and restores the set of used pages;
  freeing it a second time fails an assertion.
\<close>

theorem palloc_roundtrip:
  assumes ok: "vm_ok s" and g: "palloc_get_multiple flags n s = Some (pg, s')" and pg: "pg \<noteq> NULL"
  shows "\<exists>s''. palloc_free_multiple pg n s' = Some s'' \<and> vm_ok s'' \<and> used_pages s'' = used_pages s \<and>
    (\<forall>a. \<not> in_pages pg (unat n) a \<longrightarrow> vm_mem s'' a = vm_mem s a) \<and> palloc_free_multiple pg n s'' = None"
proof -
  have n: "n \<noteq> 0" using g pg by (auto simp: palloc_get_multiple_def)
  show ?thesis
    using ok n
  proof (cases rule: palloc_get_cases [of s n flags])
    case full
    with g pg show ?thesis by (simp split: if_splits)
  next
    case (got pg' s1)
    then have e [simp]: "pg' = pg" "s1 = s'" using g by simp_all
    from got(12) obtain k where k: "pg = page_addr (pool_of flags s') k" "k + unat n \<le> unat (bit_cnt (used_map (pool_of flags s')))"
      using got(13,14) by auto
    have sub: "pages_at pg (unat n) \<subseteq> used_of (pool_of flags s')" using got(15) by simp
    obtain s'' where f: "palloc_free_multiple pg n s' = Some s''" "vm_ok s''" "used_pages s'' = used_pages s' - pages_at pg (unat n)"
      "\<And>a. vm_mem s'' a = (if in_pages pg (unat n) a then 0xcc else vm_mem s' a)"
      "page_addr (pool_of flags s'') = page_addr (pool_of flags s')"
      "bit_cnt (used_map (pool_of flags s'')) = bit_cnt (used_map (pool_of flags s'))"
      by (rule palloc_free_run [OF got(6) [unfolded e] n k(1,2) sub]) blast
    have "pg \<in> pages_at pg (unat n)" using n unfolding pages_at_def by (intro image_eqI [of _ _ 0]) (simp_all add: unat_gt_0)
    moreover have "used_of (pool_of flags s'') \<subseteq> used_pages s''" by (auto simp: used_pages_def pool_of_def)
    ultimately have "\<not> pages_at pg (unat n) \<subseteq> used_of (pool_of flags s'')" using f(3) by auto
    then have "palloc_free_multiple pg n s'' = None"
      using palloc_free_unused [OF f(2) n, of pg flags k] k f(5,6) by simp
    moreover have "used_pages s'' = used_pages s" using f(3) got(7,8) by auto
    ultimately show ?thesis using f got(10) by auto
  qed
qed

subsection \<open>Initialisation\<close>

lemma unat_buf_size:
  fixes c :: size_t
  assumes "unat c \<le> 2 ^ 20"
  shows "unat (elem_cnt c) = (unat c + 31) div 32" "unat (bitmap_buf_size c) = 8 + 4 * ((unat c + 31) div 32)"
proof -
  have "c + ELEM_BITS - 1 = c + 31" by (simp add: ELEM_BITS_def)
  then have "unat (c + ELEM_BITS - 1) = unat c + 31" by (simp only:) (use assms in \<open>simp add: unat_plus_no_wrap\<close>)
  then show e: "unat (elem_cnt c) = (unat c + 31) div 32" by (simp add: elem_cnt_def unat_div ELEM_BITS_def)
  have "(unat c + 31) div 32 \<le> 2 ^ 16" using assms by auto
  then show "unat (bitmap_buf_size c) = 8 + 4 * ((unat c + 31) div 32)"
    using e by (simp add: bitmap_buf_size_def byte_cnt_def unat_word_ariths)
qed

lemma bm_pages_bounds:
  fixes c :: size_t
  assumes "0 < unat c" "unat c \<le> 2 ^ 20"
  defines "b \<equiv> (bitmap_buf_size c + PGSIZE - 1) div PGSIZE"
  shows "unat b = (8 + 4 * ((unat c + 31) div 32) + 4095) div 4096" "0 < unat b" "unat b \<le> unat c"
proof -
  have l: "(unat c + 31) div 32 \<le> unat c" "(unat c + 31) div 32 \<le> 2 ^ 16" using assms(1,2) by auto
  note s = unat_buf_size(2) [OF assms(2)]
  have "bitmap_buf_size c + PGSIZE - 1 = bitmap_buf_size c + 4095" by (simp add: PGSIZE_def)
  then have "unat (bitmap_buf_size c + PGSIZE - 1) = 8 + 4 * ((unat c + 31) div 32) + 4095"
    by (simp only:) (use s l(2) in \<open>simp add: unat_plus_no_wrap\<close>)
  then show u: "unat b = (8 + 4 * ((unat c + 31) div 32) + 4095) div 4096" by (simp add: b_def unat_div PGSIZE_def)
  then show "0 < unat b" by simp
  show "unat b \<le> unat c"
  proof (cases "unat c = 1")
    case False
    then have "8 + 4 * ((unat c + 31) div 32) + 4095 < 4096 * Suc (unat c)" using l(1) assms(1) by simp
    then show ?thesis unfolding u by (metis less_Suc_eq_le less_mult_imp_div_less mult.commute)
  qed (simp add: u)
qed

text \<open>A pool over \<open>c\<close> pages starts empty and keeps its bitmap out of its pages.\<close>

lemma init_pool_ok:
  assumes g: "\<And>n. length (garbage n) = unat (elem_cnt n)"
    and st: "pg_ofs st = 0" "is_kernel_vaddr st" and c: "0 < unat c" "unat st + 4096 * unat c < 2 ^ 32"
  obtains p where "init_pool garbage st c = Some p" "pool_ok p" "used_of p = {}" "unat st < unat (base p)"
    "unat (base p) + 4096 * unat (bit_cnt (used_map p)) = unat st + 4096 * unat c"
proof -
  define b where "b = (bitmap_buf_size c + PGSIZE - 1) div PGSIZE"
  have c20: "unat c \<le> 2 ^ 20" using c(2) by simp
  note bb = bm_pages_bounds [OF c(1) c20, folded b_def]
  have uc: "unat (c - b) = unat c - unat b" using bb(3) by (simp add: unat_sub word_le_nat_alt)
  have ub: "unat (b * PGSIZE) = 4096 * unat b" using bb(3) c(2) by (simp add: PGSIZE_def unat_word_ariths)
  have base: "unat (st + b * PGSIZE) = unat st + 4096 * unat b"
    using c(2) bb(3) ub by (simp add: unat_plus_no_wrap)
  have bs: "bitmap_buf_size (c - b) \<le> b * PGSIZE"
  proof -
    have "unat (bitmap_buf_size (c - b)) = 8 + 4 * ((unat (c - b) + 31) div 32)" by (rule unat_buf_size) (use uc c20 in simp)
    also have "\<dots> \<le> 8 + 4 * ((unat c + 31) div 32)" using uc by (simp add: div_le_mono)
    also have "\<dots> \<le> 4096 * ((8 + 4 * ((unat c + 31) div 32) + 4095) div 4096)" by simp
    finally show ?thesis using bb(1) ub by (simp add: word_le_nat_alt)
  qed
  have wf: "bm_wf \<lparr>bit_cnt = c - b, bits = garbage (c - b)\<rparr>"
    using unat_buf_size(1) [of "c - b"] uc c20 g by (simp add: bm_wf_def)
  obtain m where m: "bitmap_set_all \<lparr>bit_cnt = c - b, bits = garbage (c - b)\<rparr> False = Some m" "bm_wf m" "bit_cnt m = c - b"
    "bools m = replicate (unat (c - b)) False" using bitmap_set_all_eq [OF wf, of False] by auto
  let ?p = "\<lparr>used_map = m, base = st + b * PGSIZE\<rparr>"
  have "init_pool garbage st c = Some ?p"
    using bb(3) bs m(1) by (simp add: init_pool_def Let_def b_def [symmetric] bitmap_create_in_buf_def word_le_nat_alt)
  moreover have "pg_ofs (st + b * PGSIZE) = 0"
  proof -
    have "unat st mod 4096 = 0" using st(1) unat_pg_ofs [of st] by simp
    then have "unat (pg_ofs (st + b * PGSIZE)) = 0" by (simp add: unat_pg_ofs base mod_add_left_eq [symmetric])
    then show ?thesis by (simp add: unat_eq_0)
  qed
  moreover have "is_kernel_vaddr (st + b * PGSIZE)" using st(2) base by (simp add: is_kernel_vaddr_def word_le_nat_alt)
  moreover have "used_of ?p = {}" using m(3,4) by (simp add: used_of_def)
  ultimately show thesis using m(2,3) base uc bb(2,3) c(2) by (intro that [of ?p]) (simp_all add: pool_ok_def)
qed

text \<open>
  C23: palloc_init on 258 to 0x3ffff pages of memory and a non-zero user page limit returns two
  disjoint, page-aligned pools of kernel addresses with no page in use.
\<close>

theorem palloc_init_ok:
  assumes g: "\<And>st n. length (garbage st n) = unat (elem_cnt n)"
    and ram: "258 \<le> unat (init_ram_pages s)" "unat (init_ram_pages s) < 0x40000" and limit: "user_page_limit \<noteq> 0"
  shows "\<exists>s'. palloc_init garbage user_page_limit s = Some s' \<and> vm_ok s' \<and> used_pages s' = {}"
proof -
  let ?st = "0xC0100000 :: ptr" and ?ram = "init_ram_pages s"
  define fp where "fp = (PHYS_BASE + ?ram * PGSIZE - ?st) div PGSIZE"
  have rp: "unat (?ram * PGSIZE) = 4096 * unat ?ram" using ram(2) by (simp add: PGSIZE_def unat_word_ariths)
  have "unat (PHYS_BASE + ?ram * PGSIZE) = 0xC0000000 + 4096 * unat ?ram"
    using rp ram(2) by (simp add: PHYS_BASE_def unat_plus_no_wrap)
  then have "unat (PHYS_BASE + ?ram * PGSIZE - ?st) = 4096 * (unat ?ram - 256)"
    using ram by (subst unat_sub) (simp_all add: word_le_nat_alt)
  then have fp: "unat fp = unat ?ram - 256" by (simp add: fp_def unat_div PGSIZE_def)
  define up where "up = (if fp div 2 > user_page_limit then user_page_limit else fp div 2)"
  have ul: "unat up \<le> unat fp div 2" "0 < unat up"
  proof -
    show "unat up \<le> unat fp div 2" by (auto simp: up_def word_less_nat_alt unat_div)
    have "0 < unat (fp div 2)" using fp ram(1) by (simp add: unat_div)
    then show "0 < unat up" using limit by (simp add: up_def unat_gt_0)
  qed
  have kp: "unat (fp - up) = unat fp - unat up" using ul by (simp add: unat_sub word_le_nat_alt)
  have kl: "0 < unat (fp - up)" "unat (fp - up) + unat up = unat ?ram - 256" using kp ul fp ram(1) by simp_all
  have kr: "unat (fp - up) < 261888" using kl ram by linarith
  have st: "pg_ofs ?st = 0" "is_kernel_vaddr ?st" "unat ?st + 4096 * unat (fp - up) < 2 ^ 32"
    using kr by (simp_all add: pg_ofs_def PGMASK_def PGBITS_def is_kernel_vaddr_def PHYS_BASE_def)
  obtain k where k: "init_pool (garbage ?st) ?st (fp - up) = Some k" "pool_ok k" "used_of k = {}"
    "unat (base k) + 4096 * unat (bit_cnt (used_map k)) = unat ?st + 4096 * unat (fp - up)"
    by (rule init_pool_ok [OF g st(1,2) kl(1) st(3)])
  let ?us = "?st + (fp - up) * PGSIZE"
  have us: "unat ?us = 0xC0100000 + 4096 * unat (fp - up)"
  proof -
    have "unat ((fp - up) * PGSIZE) = 4096 * unat (fp - up)" by (rule unat_pages) (use kr in simp)
    then show ?thesis by (subst unat_plus_no_wrap) (use kr in simp_all)
  qed
  have "unat (pg_ofs ?us) = 0" by (simp add: unat_pg_ofs us mod_add_left_eq [symmetric])
  then have uk: "pg_ofs ?us = 0" "is_kernel_vaddr ?us" "unat ?us + 4096 * unat up < 2 ^ 32"
    using kl ram us by (simp_all add: unat_eq_0 is_kernel_vaddr_def word_le_nat_alt PHYS_BASE_def)
  obtain u where u: "init_pool (garbage ?us) ?us up = Some u" "pool_ok u" "used_of u = {}" "unat ?us < unat (base u)"
    by (rule init_pool_ok [OF g uk(1,2) ul(2) uk(3)])
  have lt: "?ram * PGSIZE < PHYS_BASE" using rp ram(2) by (simp add: word_less_nat_alt PHYS_BASE_def)
  have pv: "ptov (1024 * 1024) = Some ?st" "ptov (?ram * PGSIZE) = Some (PHYS_BASE + ?ram * PGSIZE)"
    using lt by (simp_all add: ptov_def add.commute) (simp add: PHYS_BASE_def)
  have "palloc_init garbage user_page_limit s = Some (s\<lparr>kernel_pool := k, user_pool := u\<rparr>)"
    by (simp only: palloc_init_def pv Let_def Option.bind.simps fp_def [symmetric] up_def [symmetric] k(1) u(1))
  moreover have "vm_ok (s\<lparr>kernel_pool := k, user_pool := u\<rparr>)" using k u us by (simp add: vm_ok_def)
  moreover have "used_pages (s\<lparr>kernel_pool := k, user_pool := u\<rparr>) = {}" using k u by (simp add: used_pages_def)
  ultimately show ?thesis by blast
qed

definition sample_vm :: vm where
  "sample_vm = \<lparr>vm_mem = \<lambda>a. ucast a, kernel_pool = \<lparr>used_map = \<lparr>bit_cnt = 6, bits = [5]\<rparr>, base = 0xC0101000\<rparr>,
     user_pool = \<lparr>used_map = \<lparr>bit_cnt = 3, bits = [0]\<rparr>, base = 0xC0200000\<rparr>, vm_cr3 = 0x101000,
     init_ram_pages = 1024, vm_init_page_dir = 0xC0101000\<rparr>"

lemma sample_vm_ok: "vm_ok sample_vm"
  by (simp add: vm_ok_def sample_vm_def pool_ok_def bm_wf_def pg_ofs_def PGMASK_def PGBITS_def is_kernel_vaddr_def PHYS_BASE_def)

lemma sample_vm_get: "fst (the (palloc_get_multiple 0 2 sample_vm)) = 0xC0104000" "palloc_get_multiple 0 2 sample_vm \<noteq> None"
  by code_simp+

theorem palloc_get_fresh_witness:
  "case palloc_get_multiple PAL_ASSERT 9 sample_vm of
      None \<Rightarrow> PAL_ASSERT AND PAL_ASSERT \<noteq> 0 \<and> \<not> has_run (pool_of PAL_ASSERT sample_vm) (unat (9 :: size_t))
    | Some (pg, s') \<Rightarrow>
        if pg = NULL then PAL_ASSERT AND PAL_ASSERT = 0 \<and> \<not> has_run (pool_of PAL_ASSERT sample_vm) (unat (9 :: size_t)) \<and> s' = sample_vm
        else pg_ofs pg = 0 \<and> is_kernel_vaddr pg \<and> vm_ok s' \<and>
          used_pages sample_vm \<inter> pages_at pg (unat (9 :: size_t)) = {} \<and> used_pages s' = used_pages sample_vm \<union> pages_at pg (unat (9 :: size_t)) \<and>
          (\<forall>a. vm_mem s' a = (if PAL_ASSERT AND PAL_ZERO \<noteq> 0 \<and> in_pages pg (unat (9 :: size_t)) a then 0 else vm_mem sample_vm a))"
  by (rule palloc_get_fresh [OF sample_vm_ok]) simp

theorem palloc_roundtrip_witness:
  "\<exists>s' s''. palloc_get_multiple 0 2 sample_vm = Some (0xC0104000, s') \<and> palloc_free_multiple 0xC0104000 2 s' = Some s'' \<and>
    used_pages s'' = used_pages sample_vm \<and> palloc_free_multiple 0xC0104000 2 s'' = None"
proof -
  obtain s' where "palloc_get_multiple 0 2 sample_vm = Some (0xC0104000, s')" using sample_vm_get by fastforce
  with palloc_roundtrip [OF sample_vm_ok this] show ?thesis by auto
qed

theorem palloc_init_ok_witness:
  "\<exists>s'. palloc_init (\<lambda>_ n. replicate (unat (elem_cnt n)) 7) (- 1) sample_vm = Some s' \<and> vm_ok s' \<and> used_pages s' = {}"
  by (rule palloc_init_ok) (simp_all add: sample_vm_def)

end
