(* ===== verification/Pagedir.thy ===== *)
theory Pagedir
  imports Palloc
begin

text \<open>
  Page directories (\<open>userprog/pagedir.c\<close>, \<open>paging_init\<close> of \<open>threads/init.c\<close>).  A page directory and its page tables are
  pages of 1024 little-endian words in the byte memory of the page allocator, read and written through the addresses the
  code computes.  \<open>pd_ok\<close> is what the code keeps of a process's directory: its user entries are zero or lead to distinct
  page tables in used pages of the kernel pool.  Under it the operations act on the map from user pages to page table
  entries (\<open>pte_of\<close>) alone.
\<close>

subsection \<open>Words in memory\<close>

definition load32 :: "mem \<Rightarrow> ptr \<Rightarrow> u32" where
  "load32 m p = ucast (m p) OR push_bit 8 (ucast (m (p + 1))) OR push_bit 16 (ucast (m (p + 2))) OR push_bit 24 (ucast (m (p + 3)))"

definition store32 :: "mem \<Rightarrow> ptr \<Rightarrow> u32 \<Rightarrow> mem" where
  "store32 m p w = m(p := ucast w, p + 1 := ucast (drop_bit 8 w), p + 2 := ucast (drop_bit 16 w), p + 3 := ucast (drop_bit 24 w))"

subsection \<open>The operations\<close>

definition pagedir_activate :: "ptr \<Rightarrow> vm \<Rightarrow> vm option" where
  "pagedir_activate pd s = do {
     let pd = (if pd = NULL then vm_init_page_dir s else pd);
     p \<leftarrow> vtop pd;
     Some (s\<lparr>vm_cr3 := p\<rparr>)
   }"

definition active_pd :: "vm \<Rightarrow> ptr option" where
  "active_pd s = ptov (vm_cr3 s)"

definition invalidate_pagedir :: "ptr \<Rightarrow> vm \<Rightarrow> vm option" where
  "invalidate_pagedir pd s = do {
     a \<leftarrow> active_pd s;
     if a = pd then pagedir_activate pd s else Some s
   }"

definition pagedir_create :: "vm \<Rightarrow> (ptr \<times> vm) option" where
  "pagedir_create s = do {
     (pd, s) \<leftarrow> palloc_get_page 0 s;
     if pd \<noteq> NULL then do {
       (_, m) \<leftarrow> memcpy (vm_mem s) pd (vm_init_page_dir s) PGSIZE;
       Some (pd, s\<lparr>vm_mem := m\<rparr>)
     } else Some (pd, s)
   }"

text \<open>The two loops of \<open>pagedir_destroy\<close>, from the entry \<open>pte\<close> (or \<open>pde\<close>) up to the end of the table.\<close>

partial_function (option) destroy_ptes :: "ptr \<Rightarrow> ptr \<Rightarrow> vm \<Rightarrow> vm option" where
  "destroy_ptes pte end_ptr s =
     (if pte < end_ptr then do {
        let e = load32 (vm_mem s) pte;
        s \<leftarrow> (if e AND PTE_P \<noteq> 0 then do { pg \<leftarrow> pte_get_page e; palloc_free_page pg s } else Some s);
        destroy_ptes (pte + 4) end_ptr s
      } else Some s)"

partial_function (option) destroy_pdes :: "ptr \<Rightarrow> ptr \<Rightarrow> vm \<Rightarrow> vm option" where
  "destroy_pdes pde end_ptr s =
     (if pde < end_ptr then do {
        let e = load32 (vm_mem s) pde;
        s \<leftarrow> (if e AND PTE_P \<noteq> 0 then do {
               pt \<leftarrow> pde_get_pt e;
               s \<leftarrow> destroy_ptes pt (pt + PGSIZE) s;
               palloc_free_page pt s
             } else Some s);
        destroy_pdes (pde + 4) end_ptr s
      } else Some s)"

definition pagedir_destroy :: "ptr \<Rightarrow> vm \<Rightarrow> vm option" where
  "pagedir_destroy pd s =
     (if pd = NULL then Some s
      else do {
        ASSERT (pd \<noteq> vm_init_page_dir s);
        s \<leftarrow> destroy_pdes pd (pd + 4 * pd_no PHYS_BASE) s;
        palloc_free_page pd s
      })"

text \<open>\<open>lookup_page\<close>: the address of the page table entry, or the null pointer.\<close>

definition lookup_page :: "ptr \<Rightarrow> ptr \<Rightarrow> bool \<Rightarrow> vm \<Rightarrow> (ptr \<times> vm) option" where
  "lookup_page pd vaddr create s = do {
     ASSERT (pd \<noteq> NULL);
     ASSERT (\<not> create \<or> is_user_vaddr vaddr);
     let pde = pd + 4 * pd_no vaddr;
     if load32 (vm_mem s) pde = 0 then
       if create then do {
         (pt, s) \<leftarrow> palloc_get_page PAL_ZERO s;
         if pt = NULL then Some (NULL, s)
         else do {
           e \<leftarrow> pde_create pt;
           let s = s\<lparr>vm_mem := store32 (vm_mem s) pde e\<rparr>;
           pt \<leftarrow> pde_get_pt (load32 (vm_mem s) pde);
           Some (pt + 4 * pt_no vaddr, s)
         }
       } else Some (NULL, s)
     else do {
       pt \<leftarrow> pde_get_pt (load32 (vm_mem s) pde);
       Some (pt + 4 * pt_no vaddr, s)
     }
   }"

definition pagedir_set_page :: "ptr \<Rightarrow> ptr \<Rightarrow> ptr \<Rightarrow> bool \<Rightarrow> vm \<Rightarrow> (bool \<times> vm) option" where
  "pagedir_set_page pd upage kpage writable s = do {
     ASSERT (pg_ofs upage = 0);
     ASSERT (pg_ofs kpage = 0);
     ASSERT (is_user_vaddr upage);
     p \<leftarrow> vtop kpage;
     ASSERT (drop_bit 12 p < init_ram_pages s);
     ASSERT (pd \<noteq> vm_init_page_dir s);
     (pte, s) \<leftarrow> lookup_page pd upage True s;
     if pte \<noteq> NULL then do {
       ASSERT (load32 (vm_mem s) pte AND PTE_P = 0);
       e \<leftarrow> pte_create_user kpage writable;
       Some (True, s\<lparr>vm_mem := store32 (vm_mem s) pte e\<rparr>)
     } else Some (False, s)
   }"

definition pagedir_get_page :: "ptr \<Rightarrow> ptr \<Rightarrow> vm \<Rightarrow> ptr option" where
  "pagedir_get_page pd uaddr s = do {
     ASSERT (is_user_vaddr uaddr);
     (pte, s) \<leftarrow> lookup_page pd uaddr False s;
     if pte \<noteq> NULL \<and> load32 (vm_mem s) pte AND PTE_P \<noteq> 0 then do {
       pg \<leftarrow> pte_get_page (load32 (vm_mem s) pte);
       Some (pg + pg_ofs uaddr)
     } else Some NULL
   }"

definition utok :: "ptr \<Rightarrow> ptr \<Rightarrow> vm \<Rightarrow> ptr option" where
  "utok pd uaddr s = do {
     ASSERT (pd \<noteq> NULL);
     ASSERT (is_user_vaddr uaddr);
     pagedir_get_page pd uaddr s
   }"

definition ktou :: "ptr \<Rightarrow> ptr \<Rightarrow> ptr option" where
  "ktou kaddr uaddr = do {
     ASSERT (is_kernel_vaddr kaddr);
     Some (pg_round_down uaddr + pg_ofs kaddr)
   }"

definition is_user_page_present :: "ptr \<Rightarrow> ptr \<Rightarrow> bool \<Rightarrow> vm \<Rightarrow> bool option" where
  "is_user_page_present pd uaddr check_writable s = do {
     ASSERT (pd \<noteq> NULL);
     ASSERT (is_user_vaddr uaddr);
     (pte, s) \<leftarrow> lookup_page pd uaddr False s;
     if pte \<noteq> NULL \<and> load32 (vm_mem s) pte AND PTE_P \<noteq> 0 then
       if check_writable then
         if load32 (vm_mem s) pte AND PTE_W \<noteq> 0 then Some True else Some False
       else Some True
     else Some False
   }"

definition pagedir_clear_page :: "ptr \<Rightarrow> ptr \<Rightarrow> vm \<Rightarrow> vm option" where
  "pagedir_clear_page pd upage s = do {
     ASSERT (pg_ofs upage = 0);
     ASSERT (is_user_vaddr upage);
     (pte, s) \<leftarrow> lookup_page pd upage False s;
     if pte \<noteq> NULL \<and> load32 (vm_mem s) pte AND PTE_P \<noteq> 0 then
       invalidate_pagedir pd (s\<lparr>vm_mem := store32 (vm_mem s) pte (load32 (vm_mem s) pte AND NOT PTE_P)\<rparr>)
     else Some s
   }"

definition pagedir_is_dirty :: "ptr \<Rightarrow> ptr \<Rightarrow> vm \<Rightarrow> bool option" where
  "pagedir_is_dirty pd vpage s = do {
     (pte, s) \<leftarrow> lookup_page pd vpage False s;
     Some (pte \<noteq> NULL \<and> load32 (vm_mem s) pte AND PTE_D \<noteq> 0)
   }"

definition pagedir_set_dirty :: "ptr \<Rightarrow> ptr \<Rightarrow> bool \<Rightarrow> vm \<Rightarrow> vm option" where
  "pagedir_set_dirty pd vpage dirty s = do {
     (pte, s) \<leftarrow> lookup_page pd vpage False s;
     if pte \<noteq> NULL then
       if dirty then Some (s\<lparr>vm_mem := store32 (vm_mem s) pte (load32 (vm_mem s) pte OR PTE_D)\<rparr>)
       else invalidate_pagedir pd (s\<lparr>vm_mem := store32 (vm_mem s) pte (load32 (vm_mem s) pte AND NOT PTE_D)\<rparr>)
     else Some s
   }"

definition pagedir_is_accessed :: "ptr \<Rightarrow> ptr \<Rightarrow> vm \<Rightarrow> bool option" where
  "pagedir_is_accessed pd vpage s = do {
     (pte, s) \<leftarrow> lookup_page pd vpage False s;
     Some (pte \<noteq> NULL \<and> load32 (vm_mem s) pte AND PTE_A \<noteq> 0)
   }"

definition pagedir_set_accessed :: "ptr \<Rightarrow> ptr \<Rightarrow> bool \<Rightarrow> vm \<Rightarrow> vm option" where
  "pagedir_set_accessed pd vpage accessed s = do {
     (pte, s) \<leftarrow> lookup_page pd vpage False s;
     if pte \<noteq> NULL then
       if accessed then Some (s\<lparr>vm_mem := store32 (vm_mem s) pte (load32 (vm_mem s) pte OR PTE_A)\<rparr>)
       else invalidate_pagedir pd (s\<lparr>vm_mem := store32 (vm_mem s) pte (load32 (vm_mem s) pte AND NOT PTE_A)\<rparr>)
     else Some s
   }"

subsection \<open>The kernel's page directory\<close>

text \<open>
  The loop of \<open>paging_init\<close> over the pages of memory, from \<open>page\<close> on.  The kernel's code lies between the addresses
  \<open>start\<close> and \<open>end_kernel_text\<close> that the linker sets.
\<close>

partial_function (option) paging_init_loop :: "ptr \<Rightarrow> ptr \<Rightarrow> ptr \<Rightarrow> u32 \<Rightarrow> ptr \<Rightarrow> vm \<Rightarrow> vm option" where
  "paging_init_loop start end_kernel_text pd page pt s =
     (if page < init_ram_pages s then do {
        let paddr = page * PGSIZE;
        vaddr \<leftarrow> ptov paddr;
        let pde = pd + 4 * pd_no vaddr;
        let in_kernel_text = (start \<le> vaddr \<and> vaddr < end_kernel_text);
        (pt, s) \<leftarrow> (if load32 (vm_mem s) pde = 0 then do {
                      (pt, s) \<leftarrow> palloc_get_page (PAL_ASSERT OR PAL_ZERO) s;
                      e \<leftarrow> pde_create pt;
                      Some (pt, s\<lparr>vm_mem := store32 (vm_mem s) pde e\<rparr>)
                    } else Some (pt, s));
        e \<leftarrow> pte_create_kernel vaddr (\<not> in_kernel_text);
        paging_init_loop start end_kernel_text pd (page + 1) pt (s\<lparr>vm_mem := store32 (vm_mem s) (pt + 4 * pt_no vaddr) e\<rparr>)
      } else Some s)"

definition paging_init :: "ptr \<Rightarrow> ptr \<Rightarrow> vm \<Rightarrow> vm option" where
  "paging_init start end_kernel_text s = do {
     (pd, s) \<leftarrow> palloc_get_page (PAL_ASSERT OR PAL_ZERO) s;
     let s = s\<lparr>vm_init_page_dir := pd\<rparr>;
     s \<leftarrow> paging_init_loop start end_kernel_text pd 0 NULL s;
     p \<leftarrow> vtop (vm_init_page_dir s);
     Some (s\<lparr>vm_cr3 := p\<rparr>)
   }"

declare destroy_ptes.simps [code] destroy_pdes.simps [code] paging_init_loop.simps [code]

subsection \<open>Slots of a page\<close>

text \<open>The \<open>i\<close>-th word of a page.\<close>

abbreviation slot :: "ptr \<Rightarrow> u32 \<Rightarrow> ptr" where
  "slot pg i \<equiv> pg + 4 * i"

lemma unat_slot:
  assumes "pg_ofs pg = 0" "unat i < 1024" "b < 4"
  shows "unat (slot pg i + of_nat b) = unat pg + 4 * unat i + b"
proof -
  have m: "unat pg mod 4096 = 0" using assms(1) unat_pg_ofs [of pg] by simp
  then have "unat pg + 4096 \<le> 2 ^ 32"
  proof -
    have "unat pg = 4096 * (unat pg div 4096)" by (metis m add_0_right mult_div_mod_eq)
    moreover have "unat pg div 4096 < 1048576" using unat_lt_32 [of pg] by simp
    ultimately show ?thesis by simp
  qed
  then have lt: "unat pg + 4 * unat i + b < 2 ^ 32" using assms(2,3) by simp
  have i: "unat (4 * i) = 4 * unat i" using assms(2) by (simp add: unat_word_ariths)
  have "unat (slot pg i) = unat pg + 4 * unat i" using i lt by (simp add: unat_plus_no_wrap)
  moreover have "unat (of_nat b :: ptr) = b" using assms(3) by (simp add: unat_of_nat)
  ultimately show ?thesis using lt by (simp add: unat_plus_no_wrap)
qed

lemma slot_bytes_neq:
  assumes "pg_ofs pg = 0" "unat i < 1024" "pg_ofs pg' = 0" "unat j < 1024" "(pg, i) \<noteq> (pg', j)" "b < 4" "c < 4"
  shows "slot pg i + of_nat b \<noteq> slot pg' j + of_nat c"
proof
  assume "slot pg i + of_nat b = slot pg' j + of_nat c"
  then have e: "unat pg + 4 * unat i + b = unat pg' + 4 * unat j + c"
    using unat_slot [OF assms(1,2,6)] unat_slot [OF assms(3,4,7)] by simp
  obtain k k' where k: "unat pg = 4096 * k" "unat pg' = 4096 * k'"
    using assms(1,3) unat_pg_ofs [of pg] unat_pg_ofs [of pg'] by (metis mult_div_mod_eq add_0_right unsigned_0)
  have "k = k'" using e assms(2,4,6,7) unfolding k by linarith
  moreover from this have "unat i = unat j" using e assms(6,7) unfolding k by linarith
  ultimately show False using assms(5) k by (simp add: word_unat_eq_iff)
qed

lemma load32_store32_same: "load32 (store32 m p w) p = w"
  using bytes_words_Cons [of w "[]"] by (simp add: load32_def store32_def word_bytes_def)

lemma load32_cong: "m p = m' p \<Longrightarrow> m (p + 1) = m' (p + 1) \<Longrightarrow> m (p + 2) = m' (p + 2) \<Longrightarrow> m (p + 3) = m' (p + 3) \<Longrightarrow> load32 m p = load32 m' p"
  by (simp add: load32_def)

lemma load32_store32:
  assumes "pg_ofs pg = 0" "unat i < 1024" "pg_ofs pg' = 0" "unat j < 1024"
  shows "load32 (store32 m (slot pg i) w) (slot pg' j) = (if pg = pg' \<and> i = j then w else load32 m (slot pg' j))"
proof (cases "pg = pg' \<and> i = j")
  case True
  then show ?thesis using load32_store32_same by simp
next
  case False
  then have ne: "(pg, i) \<noteq> (pg', j)" by simp
  have "store32 m (slot pg i) w (slot pg' j + of_nat c) = m (slot pg' j + of_nat c)" if c: "c < 4" for c
    using slot_bytes_neq [OF assms ne _ c, of 0] slot_bytes_neq [OF assms ne _ c, of 1]
      slot_bytes_neq [OF assms ne _ c, of 2] slot_bytes_neq [OF assms ne _ c, of 3]
    by (simp add: store32_def)
  from this [of 0] this [of 1] this [of 2] this [of 3]
  have "load32 (store32 m (slot pg i) w) (slot pg' j) = load32 m (slot pg' j)" by (intro load32_cong) simp_all
  then show ?thesis by (simp only: False if_False)
qed

lemma load32_page:
  assumes pg: "pg_ofs pg = 0" "unat i < 1024" and eq: "\<And>a. in_pages pg 1 a \<Longrightarrow> m a = m' a"
  shows "load32 m (slot pg i) = load32 m' (slot pg i)"
proof -
  have "in_pages pg 1 (slot pg i + of_nat b)" if b: "b < 4" for b
  proof -
    have "unat (4 * i + of_nat b) < 4096"
    proof -
      have "unat (4 * i) = 4 * unat i" using pg(2) by (simp add: unat_word_ariths)
      moreover have "unat (of_nat b :: ptr) = b" using b by (simp add: unat_of_nat)
      ultimately show ?thesis using pg(2) b by (simp add: unat_plus_no_wrap)
    qed
    then show ?thesis by (simp add: in_pages_def add.assoc)
  qed
  from eq [OF this [of 0]] eq [OF this [of 1]] eq [OF this [of 2]] eq [OF this [of 3]] show ?thesis
    by (intro load32_cong) simp_all
qed

lemma pt_no_eq: "pt_no va = take_bit 10 (drop_bit 12 va)"
proof -
  have e: "PTMASK = push_bit 12 (mask 10)" by (simp add: PTMASK_def mask_eq_exp_minus_1 push_bit_eq_mult)
  show ?thesis unfolding pt_no_def e
    by (intro bit_word_eqI) (auto simp: bit_drop_bit_eq bit_and_iff bit_take_bit_iff bit_push_bit_iff bit_mask_iff)
qed

lemma unat_pt_no: "unat (pt_no va) = unat va div 4096 mod 1024"
  using unat_lt_32 [of va]
  by (simp add: pt_no_eq unsigned_take_bit_eq unsigned_drop_bit_eq) (simp add: take_bit_eq_mod drop_bit_eq_div)

lemma unat_pd_no: "unat (pd_no va) = unat va div 2 ^ 22"
  by (simp add: pd_no_def drop_bit_eq_div unat_div)

lemma user_pd_no: "is_user_vaddr va \<longleftrightarrow> unat (pd_no va) < 768"
  by (simp add: is_user_vaddr_def word_less_nat_alt PHYS_BASE_def unat_pd_no) linarith

lemma pg_no_eq_iff: "pg_no v = pg_no u \<longleftrightarrow> pd_no v = pd_no u \<and> pt_no v = pt_no u"
proof -
  have "unat v div 4096 = unat u div 4096 \<longleftrightarrow>
    unat v div 4096 div 1024 = unat u div 4096 div 1024 \<and> unat v div 4096 mod 1024 = unat u div 4096 mod 1024"
    by (metis div_mult_mod_eq)
  then show ?thesis by (simp add: word_unat_eq_iff unat_pg_no unat_pd_no unat_pt_no div_mult2_eq [symmetric])
qed

lemma in_pages_div:
  assumes "pg_ofs pg = 0" "in_pages pg 1 a"
  shows "unat a div 4096 = unat pg div 4096"
proof -
  have m: "unat pg mod 4096 = 0" using assms(1) unat_pg_ofs [of pg] by simp
  have e: "unat pg = 4096 * (unat pg div 4096)" by (metis m add_0_right mult_div_mod_eq)
  have d: "unat (a - pg) < 4096" using assms(2) by (simp add: in_pages_def)
  have "unat pg div 4096 < 1048576" using unat_lt_32 [of pg] by simp
  then have "unat pg + unat (a - pg) < 2 ^ 32" using e d by simp
  then have "unat (pg + (a - pg)) = unat pg + unat (a - pg)" by (rule unat_plus_no_wrap)
  then have "unat a = unat (a - pg) + 4096 * (unat pg div 4096)" using e by simp
  then show ?thesis using d by simp
qed

lemma in_pages_unique: "pg_ofs pg = 0 \<Longrightarrow> pg_ofs pg' = 0 \<Longrightarrow> in_pages pg 1 a \<Longrightarrow> in_pages pg' 1 a \<Longrightarrow> pg = pg'"
  by (metis in_pages_div add_0_right div_mult_mod_eq unat_pg_ofs unsigned_0 word_unat_eq_iff)

lemma pages_at_1 [simp]: "pages_at pg (Suc 0) = {pg}"
  by (simp add: pages_at_def lessThan_Suc)

subsection \<open>Directories and the map from user pages to entries\<close>

definition pte_of :: "vm \<Rightarrow> ptr \<Rightarrow> ptr \<Rightarrow> u32" where
  "pte_of s pd u = (let e = load32 (vm_mem s) (slot pd (pd_no u)) in
     if e = 0 then 0 else case pde_get_pt e of None \<Rightarrow> 0 | Some pt \<Rightarrow> load32 (vm_mem s) (slot pt (pt_no u)))"

definition pd_ok :: "vm \<Rightarrow> ptr \<Rightarrow> bool" where
  "pd_ok s pd \<longleftrightarrow> vm_ok s \<and> pd \<in> used_of (kernel_pool s) \<and>
     (\<forall>i. unat i < 768 \<longrightarrow> load32 (vm_mem s) (slot pd i) \<noteq> 0 \<longrightarrow>
        (\<exists>pt. pde_get_pt (load32 (vm_mem s) (slot pd i)) = Some pt \<and> pt \<in> used_of (kernel_pool s) \<and> pt \<noteq> pd)) \<and>
     (\<forall>i j. unat i < 768 \<longrightarrow> unat j < 768 \<longrightarrow> load32 (vm_mem s) (slot pd i) \<noteq> 0 \<longrightarrow> load32 (vm_mem s) (slot pd j) \<noteq> 0 \<longrightarrow>
        pde_get_pt (load32 (vm_mem s) (slot pd i)) = pde_get_pt (load32 (vm_mem s) (slot pd j)) \<longrightarrow> i = j)"

lemma used_of_page:
  assumes "vm_ok s" "pg \<in> used_of (kernel_pool s)"
  shows "pg_ofs pg = 0" "is_kernel_vaddr pg" "pg \<noteq> NULL"
  using assms page_addr_kernel [of "kernel_pool s"] by (auto simp: used_of_def vm_ok_def)

lemma slot_not_NULL:
  assumes "pg_ofs pg = 0" "is_kernel_vaddr pg" "unat i < 1024"
  shows "slot pg i \<noteq> NULL"
proof -
  have "unat (slot pg i) = unat pg + 4 * unat i" using unat_slot [OF assms(1,3), of 0] by simp
  moreover have "0 < unat pg" using assms(2) by (simp add: is_kernel_vaddr_def word_le_nat_alt PHYS_BASE_def)
  ultimately show ?thesis by auto
qed

lemma pd_okD:
  assumes "pd_ok s pd" "unat i < 768" "load32 (vm_mem s) (slot pd i) \<noteq> 0"
  obtains pt where "pde_get_pt (load32 (vm_mem s) (slot pd i)) = Some pt" "pt \<in> used_of (kernel_pool s)" "pt \<noteq> pd"
    "pg_ofs pt = 0" "is_kernel_vaddr pt" "pt \<noteq> NULL"
  using assms used_of_page [of s] unfolding pd_ok_def by blast

lemma pd_ok_inj:
  assumes "pd_ok s pd" "unat i < 768" "unat j < 768" "load32 (vm_mem s) (slot pd i) \<noteq> 0" "load32 (vm_mem s) (slot pd j) \<noteq> 0"
    "pde_get_pt (load32 (vm_mem s) (slot pd i)) = pde_get_pt (load32 (vm_mem s) (slot pd j))"
  shows "i = j"
  using assms unfolding pd_ok_def by blast

lemma pd_ok_pd: "pd_ok s pd \<Longrightarrow> vm_ok s" "pd_ok s pd \<Longrightarrow> pd \<in> used_of (kernel_pool s)"
  "pd_ok s pd \<Longrightarrow> pg_ofs pd = 0" "pd_ok s pd \<Longrightarrow> pd \<noteq> NULL"
  using used_of_page [of s pd] by (auto simp: pd_ok_def)

lemma lt_1024 [simp]: "unat (pt_no va) < 1024" "unat i < 768 \<Longrightarrow> unat i < 1024"
  by (simp_all add: unat_pt_no)

text \<open>Looking up without creating.\<close>

lemma lookup_page_found:
  assumes ok: "pd_ok s pd" and u: "is_user_vaddr u"
  shows "(load32 (vm_mem s) (slot pd (pd_no u)) = 0 \<longrightarrow> lookup_page pd u False s = Some (NULL, s) \<and> pte_of s pd u = 0) \<and>
    (load32 (vm_mem s) (slot pd (pd_no u)) \<noteq> 0 \<longrightarrow> (\<exists>pt. pde_get_pt (load32 (vm_mem s) (slot pd (pd_no u))) = Some pt \<and>
       lookup_page pd u False s = Some (slot pt (pt_no u), s) \<and> slot pt (pt_no u) \<noteq> NULL \<and>
       pte_of s pd u = load32 (vm_mem s) (slot pt (pt_no u))))"
proof (cases "load32 (vm_mem s) (slot pd (pd_no u)) = 0")
  case True
  then show ?thesis using pd_ok_pd(4) [OF ok] by (simp add: lookup_page_def pte_of_def Let_def)
next
  case False
  obtain pt where pt: "pde_get_pt (load32 (vm_mem s) (slot pd (pd_no u))) = Some pt" "pg_ofs pt = 0" "is_kernel_vaddr pt"
    using pd_okD [OF ok _ False] u by (auto simp: user_pd_no)
  then have "slot pt (pt_no u) \<noteq> NULL" by (intro slot_not_NULL) simp_all
  with False pt pd_ok_pd(4) [OF ok] show ?thesis by (simp add: lookup_page_def pte_of_def Let_def)
qed

text \<open>Writing an entry changes the entry of one user page.\<close>

lemma store_pte:
  assumes ok: "pd_ok s pd" and u: "is_user_vaddr u"
    and pt: "load32 (vm_mem s) (slot pd (pd_no u)) \<noteq> 0" "pde_get_pt (load32 (vm_mem s) (slot pd (pd_no u))) = Some pt"
    and s': "s' = s\<lparr>vm_mem := store32 (vm_mem s) (slot pt (pt_no u)) e\<rparr>"
  shows "pd_ok s' pd" "\<And>v. is_user_vaddr v \<Longrightarrow> pte_of s' pd v = (if pg_no v = pg_no u then e else pte_of s pd v)"
proof -
  have ul: "unat (pd_no u) < 768" using u by (simp add: user_pd_no)
  obtain pt: "pt \<in> used_of (kernel_pool s)" "pt \<noteq> pd" "pg_ofs pt = 0"
    using pd_okD [OF ok ul pt(1)] pt(2) by auto
  have dir: "load32 (vm_mem s') (slot pd i) = load32 (vm_mem s) (slot pd i)" if "unat i < 768" for i
    using load32_store32 [OF pt(3) lt_1024(1) pd_ok_pd(3) [OF ok] lt_1024(2) [OF that]] pt(2) by (simp add: s')
  show "pd_ok s' pd" unfolding pd_ok_def
    using ok dir by (simp add: pd_ok_def s' vm_ok_def cong: imp_cong)
  fix v assume v: "is_user_vaddr v"
  then have vl: "unat (pd_no v) < 768" by (simp add: user_pd_no)
  show "pte_of s' pd v = (if pg_no v = pg_no u then e else pte_of s pd v)"
  proof (cases "load32 (vm_mem s) (slot pd (pd_no v)) = 0")
    case True
    then have "pd_no v \<noteq> pd_no u" using assms(3) by auto
    with True dir [OF vl] show ?thesis by (simp add: pte_of_def pg_no_eq_iff)
  next
    case False
    obtain pv where pv: "pde_get_pt (load32 (vm_mem s) (slot pd (pd_no v))) = Some pv" "pg_ofs pv = 0"
      using pd_okD [OF ok vl False] by auto
    have "pv = pt \<longleftrightarrow> pd_no v = pd_no u" using pd_ok_inj [OF ok vl ul False assms(3)] pv(1) assms(4) by auto
    then show ?thesis
      using False pv dir [OF vl] load32_store32 [OF pt(3) lt_1024(1) pv(2) lt_1024(1), of "vm_mem s" u e v]
      by (auto simp: pte_of_def pg_no_eq_iff s')
  qed
qed

text \<open>A new page from the kernel pool.\<close>

lemma kernel_page_cases:
  assumes ok: "vm_ok s" and k: "flags AND PAL_USER = 0" "flags AND PAL_ASSERT = 0"
  obtains (full) "palloc_get_page flags s = Some (NULL, s)" "\<not> has_run (kernel_pool s) 1"
  | (page) pg s' where "palloc_get_page flags s = Some (pg, s')" "pg \<noteq> NULL" "pg_ofs pg = 0" "is_kernel_vaddr pg" "vm_ok s'"
      "pg \<notin> used_pages s" "used_pages s' = insert pg (used_pages s)" "used_of (kernel_pool s') = insert pg (used_of (kernel_pool s))"
      "\<And>a. vm_mem s' a = (if flags AND PAL_ZERO \<noteq> 0 \<and> in_pages pg 1 a then 0 else vm_mem s a)"
      "vm_cr3 s' = vm_cr3 s" "init_ram_pages s' = init_ram_pages s" "vm_init_page_dir s' = vm_init_page_dir s"
proof -
  have p: "pool_of flags t = kernel_pool t" for t using k(1) by (simp add: pool_of_def)
  have one: "(1 :: size_t) \<noteq> 0" by simp
  show thesis
    using ok one
  proof (cases rule: palloc_get_cases [of s 1 flags])
    case full
    have "pool_ok (kernel_pool s)" using ok by (simp add: vm_ok_def)
    from first_fit_has_run [OF this] full(2) p have "\<not> has_run (kernel_pool s) 1" by simp
    with full(1) k(2) show thesis by (intro that(1)) (simp_all add: palloc_get_page_def)
  next
    case (got pg s')
    then show thesis by (intro that(2) [of pg s']) (simp_all add: palloc_get_page_def p)
  qed
qed

lemma load32_zero: "m p = 0 \<Longrightarrow> m (p + 1) = 0 \<Longrightarrow> m (p + 2) = 0 \<Longrightarrow> m (p + 3) = 0 \<Longrightarrow> load32 m p = 0"
  by (simp add: load32_def)

text \<open>A new page table, linked into an empty entry of the directory, leaves every user page's entry as it was.\<close>

lemma link_table:
  assumes ok: "pd_ok s pd" and u: "is_user_vaddr u" and e0: "load32 (vm_mem s) (slot pd (pd_no u)) = 0"
    and pt: "pt \<notin> used_of (kernel_pool s)" "pg_ofs pt = 0" "is_kernel_vaddr pt" and e: "pde_create pt = Some e"
    and s1: "vm_ok s1" "used_of (kernel_pool s1) = insert pt (used_of (kernel_pool s))"
      "\<And>a. vm_mem s1 a = (if in_pages pt 1 a then 0 else vm_mem s a)"
    and s': "s' = s1\<lparr>vm_mem := store32 (vm_mem s1) (slot pd (pd_no u)) e\<rparr>"
  shows "pd_ok s' pd" "\<And>v. is_user_vaddr v \<Longrightarrow> pte_of s' pd v = pte_of s pd v"
    "load32 (vm_mem s') (slot pd (pd_no u)) \<noteq> 0" "pde_get_pt (load32 (vm_mem s') (slot pd (pd_no u))) = Some pt"
proof -
  have ul: "unat (pd_no u) < 768" using u by (simp add: user_pd_no)
  obtain e: "e \<noteq> 0" "pde_get_pt e = Some pt" using pde_roundtrip [OF pt(3,2)] e by (metis option.inject)
  note pd = pd_ok_pd [OF ok]
  have pne: "pt \<noteq> pd" using pt(1) pd(2) by auto
  have keep: "load32 (vm_mem s1) (slot q i) = load32 (vm_mem s) (slot q i)" if "pg_ofs q = 0" "q \<noteq> pt" "unat i < 1024" for q i
    using that s1(3) in_pages_unique [OF pt(2) that(1)] by (intro load32_page) auto
  have dir: "load32 (vm_mem s') (slot pd i) = (if i = pd_no u then e else load32 (vm_mem s) (slot pd i))" if "unat i < 768" for i
    using load32_store32 [OF pd(3) lt_1024(2) [OF ul] pd(3) lt_1024(2) [OF that]] keep [OF pd(3)] pne that by (auto simp: s')
  have tab: "load32 (vm_mem s') (slot q i) = load32 (vm_mem s1) (slot q i)" if "pg_ofs q = 0" "q \<noteq> pd" "unat i < 1024" for q i
    using load32_store32 [OF pd(3) lt_1024(2) [OF ul] that(1,3), of "vm_mem s1" e] that by (simp add: s')
  show "load32 (vm_mem s') (slot pd (pd_no u)) \<noteq> 0" "pde_get_pt (load32 (vm_mem s') (slot pd (pd_no u))) = Some pt"
    using dir [OF ul] e by simp_all
  have old: "\<exists>q. pde_get_pt (load32 (vm_mem s) (slot pd i)) = Some q \<and> q \<in> used_of (kernel_pool s) \<and> q \<noteq> pd \<and> q \<noteq> pt"
    if "unat i < 768" "load32 (vm_mem s) (slot pd i) \<noteq> 0" for i
    using pd_okD [OF ok that] pt(1) by metis
  have new: "pde_get_pt (load32 (vm_mem s') (slot pd i)) = Some pt \<longleftrightarrow> i = pd_no u"
    if "unat i < 768" "load32 (vm_mem s') (slot pd i) \<noteq> 0" for i
    using that dir [OF that(1)] old [OF that(1)] e(2) by (cases "i = pd_no u") auto
  show "pd_ok s' pd" unfolding pd_ok_def
  proof (intro conjI allI impI)
    show "vm_ok s'" "pd \<in> used_of (kernel_pool s')" using s1(1,2) pd(2) by (simp_all add: s' vm_ok_def)
    show "\<exists>q. pde_get_pt (load32 (vm_mem s') (slot pd i)) = Some q \<and> q \<in> used_of (kernel_pool s') \<and> q \<noteq> pd"
      if i: "unat i < 768" "load32 (vm_mem s') (slot pd i) \<noteq> 0" for i
      using dir [OF i(1)] i(2) old [OF i(1)] e(2) pne s1(2) by (auto simp: s' split: if_splits)
    show "i = j" if ij: "unat i < 768" "unat j < 768" "load32 (vm_mem s') (slot pd i) \<noteq> 0" "load32 (vm_mem s') (slot pd j) \<noteq> 0"
      "pde_get_pt (load32 (vm_mem s') (slot pd i)) = pde_get_pt (load32 (vm_mem s') (slot pd j))" for i j
    proof (cases "i = pd_no u \<or> j = pd_no u")
      case True
      then show ?thesis using new [OF ij(1,3)] new [OF ij(2,4)] ij(5) by auto
    next
      case False
      then show ?thesis using ij dir [OF ij(1)] dir [OF ij(2)] pd_ok_inj [OF ok ij(1,2)] by simp
    qed
  qed
  fix v assume v: "is_user_vaddr v"
  then have vl: "unat (pd_no v) < 768" by (simp add: user_pd_no)
  show "pte_of s' pd v = pte_of s pd v"
  proof (cases "pd_no v = pd_no u")
    case True
    have z: "load32 (vm_mem s1) (slot pt (pt_no v)) = 0"
      using load32_page [OF pt(2) lt_1024(1), of "vm_mem s1" "\<lambda>_. 0" v] s1(3) by (simp add: load32_def)
    show ?thesis using True e0 dir [OF vl] e tab [OF pt(2) pne] z by (simp add: pte_of_def)
  next
    case False
    show ?thesis
    proof (cases "load32 (vm_mem s) (slot pd (pd_no v)) = 0")
      case True
      then show ?thesis using False dir [OF vl] by (simp add: pte_of_def)
    next
      case ne: False
      obtain q where q: "pde_get_pt (load32 (vm_mem s) (slot pd (pd_no v))) = Some q" "q \<in> used_of (kernel_pool s)" "q \<noteq> pd" "q \<noteq> pt"
        using old [OF vl ne] by blast
      have "pg_ofs q = 0" using used_of_page(1) [OF pd(1) q(2)] .
      then show ?thesis using False ne dir [OF vl] q tab [of q "pt_no v"] keep [of q "pt_no v"] by (simp add: pte_of_def)
    qed
  qed
qed

lemma lookup_page_create:
  assumes ok: "pd_ok s pd" and u: "is_user_vaddr u"
  obtains (full) "lookup_page pd u True s = Some (NULL, s)" "\<not> has_run (kernel_pool s) 1"
  | (entry) pt s' where "lookup_page pd u True s = Some (slot pt (pt_no u), s')" "slot pt (pt_no u) \<noteq> NULL" "pd_ok s' pd"
      "load32 (vm_mem s') (slot pd (pd_no u)) \<noteq> 0" "pde_get_pt (load32 (vm_mem s') (slot pd (pd_no u))) = Some pt"
      "\<And>v. is_user_vaddr v \<Longrightarrow> pte_of s' pd v = pte_of s pd v"
      "vm_cr3 s' = vm_cr3 s" "init_ram_pages s' = init_ram_pages s" "vm_init_page_dir s' = vm_init_page_dir s"
proof (cases "load32 (vm_mem s) (slot pd (pd_no u)) = 0")
  case False
  then have "lookup_page pd u True s = lookup_page pd u False s" using u by (simp add: lookup_page_def)
  with lookup_page_found [OF ok u] False show thesis using entry [OF _ _ ok] by auto
next
  case True
  have f: "PAL_ZERO AND PAL_USER = 0" "PAL_ZERO AND PAL_ASSERT = 0" "PAL_ZERO AND PAL_ZERO \<noteq> 0"
    by (simp_all add: PAL_ZERO_def PAL_USER_def PAL_ASSERT_def)
  show thesis
    using pd_ok_pd(1) [OF ok] f(1,2)
  proof (cases rule: kernel_page_cases)
    case full
    with True u pd_ok_pd(4) [OF ok] show thesis by (intro that(1)) (simp_all add: lookup_page_def)
  next
    case (page pt s1)
    obtain e where e: "pde_create pt = Some e" using pde_roundtrip [OF page(4,3)] by metis
    let ?s = "s1\<lparr>vm_mem := store32 (vm_mem s1) (slot pd (pd_no u)) e\<rparr>"
    have fresh: "pt \<notin> used_of (kernel_pool s)" using page(6) by (simp add: used_pages_def)
    have mem: "vm_mem s1 a = (if in_pages pt 1 a then 0 else vm_mem s a)" for a using page(9) f(3) by simp
    note l = link_table [OF ok u True fresh page(3,4) e page(5,8) mem refl]
    have "slot pt (pt_no u) \<noteq> NULL" using page(3,4) by (intro slot_not_NULL) simp_all
    moreover have "lookup_page pd u True s = Some (slot pt (pt_no u), ?s)"
      using True u pd_ok_pd(4) [OF ok] page(1,2) e l(4) by (simp add: lookup_page_def Let_def)
    ultimately show thesis using l page by (intro that(2) [of pt ?s]) simp_all
  qed
qed

subsection \<open>The operations on the map\<close>

lemma pte_bit:
  assumes ok: "pd_ok s pd" and u: "is_user_vaddr u"
  shows "\<exists>pte. lookup_page pd u False s = Some (pte, s) \<and> (pte \<noteq> NULL \<longleftrightarrow> load32 (vm_mem s) (slot pd (pd_no u)) \<noteq> 0) \<and>
    (pte \<noteq> NULL \<longrightarrow> load32 (vm_mem s) pte = pte_of s pd u) \<and> (pte = NULL \<longrightarrow> pte_of s pd u = 0)"
  using lookup_page_found [OF ok u] by (cases "load32 (vm_mem s) (slot pd (pd_no u)) = 0") auto

lemma pagedir_get_page_eq:
  assumes "pd_ok s pd" "is_user_vaddr u"
  shows "pagedir_get_page pd u s =
    (if bit (pte_of s pd u) 0 then map_option (\<lambda>pg. pg + pg_ofs u) (pte_get_page (pte_of s pd u)) else Some NULL)"
  using pte_bit [OF assms] assms(2) by (cases "pte_get_page (pte_of s pd u)") (auto simp: pagedir_get_page_def and_PTE)

lemma is_user_page_present_eq:
  assumes "pd_ok s pd" "is_user_vaddr u"
  shows "is_user_page_present pd u w s = Some (bit (pte_of s pd u) 0 \<and> (w \<longrightarrow> bit (pte_of s pd u) 1))"
  using pte_bit [OF assms] assms(2) pd_ok_pd(4) [OF assms(1)] by (auto simp: is_user_page_present_def and_PTE)

lemma pagedir_is_dirty_eq:
  assumes "pd_ok s pd" "is_user_vaddr u"
  shows "pagedir_is_dirty pd u s = Some (bit (pte_of s pd u) 6)" "pagedir_is_accessed pd u s = Some (bit (pte_of s pd u) 5)"
  using pte_bit [OF assms] by (auto simp: pagedir_is_dirty_def pagedir_is_accessed_def and_PTE)

lemma invalidate_pagedir_id:
  assumes "vm_cr3 s < 0x40000000" "pd \<noteq> NULL"
  shows "invalidate_pagedir pd s = Some s"
proof -
  have "vm_cr3 s < PHYS_BASE" using assms(1) by (simp add: PHYS_BASE_def word_less_nat_alt)
  moreover have "is_kernel_vaddr (vm_cr3 s + PHYS_BASE)"
    using assms(1) by (simp add: is_kernel_vaddr_def word_le_nat_alt word_less_nat_alt PHYS_BASE_def unat_word_ariths)
  ultimately show ?thesis using assms by (auto simp: invalidate_pagedir_def active_pd_def ptov_def pagedir_activate_def vtop_def Let_def)
qed

text \<open>Every write of a flag goes through the entry that \<open>lookup_page\<close> finds.\<close>

lemma update_pte:
  assumes ok: "pd_ok s pd" and u: "is_user_vaddr u" and l: "lookup_page pd u False s = Some (pte, s)" "pte \<noteq> NULL"
    and s': "s' = s\<lparr>vm_mem := store32 (vm_mem s) pte e\<rparr>"
  shows "pd_ok s' pd" "\<And>v. is_user_vaddr v \<Longrightarrow> pte_of s' pd v = (if pg_no v = pg_no u then e else pte_of s pd v)"
proof -
  have ne: "load32 (vm_mem s) (slot pd (pd_no u)) \<noteq> 0" using lookup_page_found [OF ok u] l by auto
  then obtain pt where pt: "pde_get_pt (load32 (vm_mem s) (slot pd (pd_no u))) = Some pt" "pte = slot pt (pt_no u)"
    using lookup_page_found [OF ok u] l by auto
  show "pd_ok s' pd" "\<And>v. is_user_vaddr v \<Longrightarrow> pte_of s' pd v = (if pg_no v = pg_no u then e else pte_of s pd v)"
    using store_pte [OF ok u ne pt(1) s' [unfolded pt(2)]] by simp_all
qed

lemma pte_get_page_flag:
  "pte_get_page (e OR PTE_D) = pte_get_page e" "pte_get_page (e OR PTE_A) = pte_get_page e"
  "pte_get_page (e AND NOT PTE_D) = pte_get_page e" "pte_get_page (e AND NOT PTE_A) = pte_get_page e"
  by (simp_all add: pte_get_page_def bit.conj_disj_distrib2 and.assoc PTE_D_def PTE_A_def PTE_ADDR_def)

lemma bit_flag:
  "n < 12 \<Longrightarrow> bit (e OR PTE_D) n \<longleftrightarrow> bit e n \<or> n = 6" "n < 12 \<Longrightarrow> bit (e OR PTE_A) n \<longleftrightarrow> bit e n \<or> n = 5"
  "n < 12 \<Longrightarrow> bit (e AND NOT PTE_D) n \<longleftrightarrow> bit e n \<and> n \<noteq> 6" "n < 12 \<Longrightarrow> bit (e AND NOT PTE_A) n \<longleftrightarrow> bit e n \<and> n \<noteq> 5"
  "n < 12 \<Longrightarrow> bit (e AND NOT PTE_P) n \<longleftrightarrow> bit e n \<and> n \<noteq> 0" for e :: u32
proof -
  have f: "bit PTE_D n \<longleftrightarrow> n = 6" "bit PTE_A n \<longleftrightarrow> n = 5" "bit PTE_P n \<longleftrightarrow> n = 0" if "n < 12" for n
  proof -
    have d: "PTE_D = 2 ^ 6" "PTE_A = 2 ^ 5" "PTE_P = 2 ^ 0" by (simp_all add: PTE_D_def PTE_A_def PTE_P_def)
    show "bit PTE_D n \<longleftrightarrow> n = 6" "bit PTE_A n \<longleftrightarrow> n = 5" "bit PTE_P n \<longleftrightarrow> n = 0"
      unfolding d bit_exp_iff using that by auto
  qed
  show "n < 12 \<Longrightarrow> bit (e OR PTE_D) n \<longleftrightarrow> bit e n \<or> n = 6" "n < 12 \<Longrightarrow> bit (e OR PTE_A) n \<longleftrightarrow> bit e n \<or> n = 5"
    "n < 12 \<Longrightarrow> bit (e AND NOT PTE_D) n \<longleftrightarrow> bit e n \<and> n \<noteq> 6" "n < 12 \<Longrightarrow> bit (e AND NOT PTE_A) n \<longleftrightarrow> bit e n \<and> n \<noteq> 5"
    "n < 12 \<Longrightarrow> bit (e AND NOT PTE_P) n \<longleftrightarrow> bit e n \<and> n \<noteq> 0"
    by (simp_all add: bit_or_iff bit_and_iff bit_not_iff f)
qed

text \<open>
  C6: pagedir_set_page on an unmapped user page succeeds or, without a free kernel page for a page
  table, changes nothing; after it pagedir_get_page translates every address of the page to the
  frame, the page is writable as asked, and every other user page translates as before.
\<close>

theorem pagedir_set_get:
  assumes ok: "pd_ok s pd" and pd: "pd \<noteq> vm_init_page_dir s"
    and u: "is_user_vaddr upage" "pg_ofs upage = 0" "is_user_page_present pd upage False s = Some False"
    and k: "is_kernel_vaddr kpage" "pg_ofs kpage = 0" "unat (kpage - PHYS_BASE) < 4096 * unat (init_ram_pages s)"
  shows "case pagedir_set_page pd upage kpage w s of
      None \<Rightarrow> False
    | Some (False, s') \<Rightarrow> s' = s \<and> \<not> has_run (kernel_pool s) 1
    | Some (True, s') \<Rightarrow> pd_ok s' pd \<and> is_user_page_present pd upage True s' = Some w \<and>
        (\<forall>v. is_user_vaddr v \<longrightarrow>
           pagedir_get_page pd v s' = (if pg_no v = pg_no upage then Some (kpage + pg_ofs v) else pagedir_get_page pd v s))"
proof -
  have "unat (kpage - PHYS_BASE) div 4096 < unat (init_ram_pages s)" using k(3) by (simp add: less_mult_imp_div_less mult.commute)
  then have ram: "drop_bit 12 (kpage - PHYS_BASE) < init_ram_pages s" by (simp add: word_less_nat_alt drop_bit_eq_div unat_div)
  have np: "\<not> bit (pte_of s pd upage) 0" using u(3) is_user_page_present_eq [OF ok u(1)] by simp
  obtain e where e: "pte_create_user kpage w = Some e" "bit e 0" "bit e 1 \<longleftrightarrow> w" "pte_get_page e = Some kpage"
    using pte_roundtrip [OF k(1,2), of w] by metis
  show ?thesis
    using ok u(1)
  proof (cases rule: lookup_page_create)
    case full
    with u k(1,2) ram pd show ?thesis by (simp add: pagedir_set_page_def vtop_def)
  next
    case (entry pt s1)
    let ?s = "s1\<lparr>vm_mem := store32 (vm_mem s1) (slot pt (pt_no upage)) e\<rparr>"
    note st = store_pte [OF entry(3) u(1) entry(4,5) refl, where e = e]
    have "load32 (vm_mem s1) (slot pt (pt_no upage)) = pte_of s1 pd upage" using entry(4,5) by (simp add: pte_of_def)
    then have "load32 (vm_mem s1) (slot pt (pt_no upage)) AND PTE_P = 0" using np entry(6) [OF u(1)] and_PTE(1) by auto
    then have r: "pagedir_set_page pd upage kpage w s = Some (True, ?s)"
      using u k(1,2) ram pd entry(1,2) e(1) by (simp add: pagedir_set_page_def vtop_def)
    have "pagedir_get_page pd v ?s = (if pg_no v = pg_no upage then Some (kpage + pg_ofs v) else pagedir_get_page pd v s)"
      if v: "is_user_vaddr v" for v
      using pagedir_get_page_eq [OF st(1) v] st(2) [OF v] pagedir_get_page_eq [OF ok v] entry(6) [OF v] e(2,4) by simp
    moreover have "is_user_page_present pd upage True ?s = Some w"
      using is_user_page_present_eq [OF st(1) u(1)] st(2) [OF u(1)] e(2,3) by simp
    ultimately show ?thesis using r st(1) by simp
  qed
qed

lemma pte_of_page: "pg_no v = pg_no u \<Longrightarrow> pte_of s pd v = pte_of s pd u"
  unfolding pg_no_eq_iff by (elim conjE) (simp only: pte_of_def)

text \<open>
  C28: pagedir_clear_page unmaps exactly the given user page.
\<close>

theorem pagedir_clear_unmaps:
  assumes ok: "pd_ok s pd" and u: "is_user_vaddr u" "pg_ofs u = 0" and cr3: "vm_cr3 s < 0x40000000"
  shows "\<exists>s'. pagedir_clear_page pd u s = Some s' \<and> pd_ok s' pd \<and>
    (\<forall>v. is_user_vaddr v \<longrightarrow> pagedir_get_page pd v s' = (if pg_no v = pg_no u then Some NULL else pagedir_get_page pd v s))"
proof -
  obtain pte where l: "lookup_page pd u False s = Some (pte, s)" "pte \<noteq> NULL \<longrightarrow> load32 (vm_mem s) pte = pte_of s pd u"
    "pte = NULL \<longrightarrow> pte_of s pd u = 0" using pte_bit [OF ok u(1)] by blast
  show ?thesis
  proof (cases "pte \<noteq> NULL \<and> bit (pte_of s pd u) 0")
    case False
    then have nb: "\<not> bit (pte_of s pd u) 0" using l(3) by auto
    have same: "pagedir_get_page pd v s = Some NULL" if v: "is_user_vaddr v" "pg_no v = pg_no u" for v
      using pagedir_get_page_eq [OF ok v(1)] pte_of_page [OF v(2), of s pd] nb by simp
    have "pagedir_clear_page pd u s = Some s" using False l u nb by (auto simp: pagedir_clear_page_def and_PTE)
    then show ?thesis using ok same by auto
  next
    case True
    let ?e = "pte_of s pd u AND NOT PTE_P"
    let ?s = "s\<lparr>vm_mem := store32 (vm_mem s) pte ?e\<rparr>"
    have ne: "pte \<noteq> NULL" using True by simp
    note up = update_pte [OF ok u(1) l(1) ne refl, where e = ?e]
    have "invalidate_pagedir pd ?s = Some ?s" by (rule invalidate_pagedir_id) (use cr3 pd_ok_pd(4) [OF ok] in simp_all)
    then have "pagedir_clear_page pd u s = Some ?s" using True l u by (simp add: pagedir_clear_page_def and_PTE)
    moreover have "pagedir_get_page pd v ?s = (if pg_no v = pg_no u then Some NULL else pagedir_get_page pd v s)"
      if v: "is_user_vaddr v" for v
      using pagedir_get_page_eq [OF up(1) v] up(2) [OF v] pagedir_get_page_eq [OF ok v] bit_flag(5) [of 0] by simp
    ultimately show ?thesis using up(1) by blast
  qed
qed

lemma set_flag_pte:
  assumes ok: "pd_ok s pd" and u: "is_user_vaddr u" "bit (pte_of s pd u) 0" and cr3: "vm_cr3 s < 0x40000000"
  shows "\<exists>s'. pagedir_set_dirty pd u b s = Some s' \<and> pd_ok s' pd \<and> vm_cr3 s' = vm_cr3 s \<and>
      (\<forall>v. is_user_vaddr v \<longrightarrow> pte_of s' pd v =
        (if pg_no v = pg_no u then if b then pte_of s pd u OR PTE_D else pte_of s pd u AND NOT PTE_D else pte_of s pd v))"
    "\<exists>s'. pagedir_set_accessed pd u b s = Some s' \<and> pd_ok s' pd \<and> vm_cr3 s' = vm_cr3 s \<and>
      (\<forall>v. is_user_vaddr v \<longrightarrow> pte_of s' pd v =
        (if pg_no v = pg_no u then if b then pte_of s pd u OR PTE_A else pte_of s pd u AND NOT PTE_A else pte_of s pd v))"
proof -
  obtain pte where l: "lookup_page pd u False s = Some (pte, s)" "pte \<noteq> NULL" "load32 (vm_mem s) pte = pte_of s pd u"
    using pte_bit [OF ok u(1)] u(2) by (metis bit_0_eq bot_apply bot_bool_def)
  have inv: "invalidate_pagedir pd (s\<lparr>vm_mem := m\<rparr>) = Some (s\<lparr>vm_mem := m\<rparr>)" for m
    by (rule invalidate_pagedir_id) (use cr3 pd_ok_pd(4) [OF ok] in simp_all)
  let ?e = "if b then pte_of s pd u OR PTE_D else pte_of s pd u AND NOT PTE_D"
  have "pagedir_set_dirty pd u b s = Some (s\<lparr>vm_mem := store32 (vm_mem s) pte ?e\<rparr>)"
    using l inv by (simp add: pagedir_set_dirty_def)
  with update_pte [OF ok u(1) l(1,2) refl, where e = ?e]
  show "\<exists>s'. pagedir_set_dirty pd u b s = Some s' \<and> pd_ok s' pd \<and> vm_cr3 s' = vm_cr3 s \<and>
      (\<forall>v. is_user_vaddr v \<longrightarrow> pte_of s' pd v = (if pg_no v = pg_no u then ?e else pte_of s pd v))" by fastforce
  let ?f = "if b then pte_of s pd u OR PTE_A else pte_of s pd u AND NOT PTE_A"
  have "pagedir_set_accessed pd u b s = Some (s\<lparr>vm_mem := store32 (vm_mem s) pte ?f\<rparr>)"
    using l inv by (simp add: pagedir_set_accessed_def)
  with update_pte [OF ok u(1) l(1,2) refl, where e = ?f]
  show "\<exists>s'. pagedir_set_accessed pd u b s = Some s' \<and> pd_ok s' pd \<and> vm_cr3 s' = vm_cr3 s \<and>
      (\<forall>v. is_user_vaddr v \<longrightarrow> pte_of s' pd v = (if pg_no v = pg_no u then ?f else pte_of s pd v))" by fastforce
qed

text \<open>
  C29: For a present user page, pagedir_set_dirty changes the dirty bit and pagedir_set_accessed the
  accessed bit of the entry of this page and no other bit of an entry of a user page;
  pagedir_is_dirty and pagedir_is_accessed then read the value set, the other of the two is as
  before, and so are both for every other page, and the translations and rights of all user pages.
\<close>

theorem pagedir_bits:
  assumes ok: "pd_ok s pd" and u: "is_user_vaddr u" "is_user_page_present pd u False s = Some True" and cr3: "vm_cr3 s < 0x40000000"
  shows "\<exists>s1 s2. pagedir_set_dirty pd u d s = Some s1 \<and> pagedir_set_accessed pd u a s1 = Some s2 \<and> pd_ok s1 pd \<and> pd_ok s2 pd \<and>
    pagedir_is_dirty pd u s1 = Some d \<and> pagedir_is_accessed pd u s2 = Some a \<and>
    (\<forall>v. is_user_vaddr v \<longrightarrow>
       pte_of s1 pd v = (if pg_no v = pg_no u then if d then pte_of s pd u OR PTE_D else pte_of s pd u AND NOT PTE_D else pte_of s pd v) \<and>
       pte_of s2 pd v = (if pg_no v = pg_no u then if a then pte_of s1 pd u OR PTE_A else pte_of s1 pd u AND NOT PTE_A else pte_of s1 pd v) \<and>
       pagedir_is_accessed pd v s1 = pagedir_is_accessed pd v s \<and> pagedir_is_dirty pd v s2 = pagedir_is_dirty pd v s1 \<and>
       (pg_no v \<noteq> pg_no u \<longrightarrow> pagedir_is_dirty pd v s2 = pagedir_is_dirty pd v s \<and> pagedir_is_accessed pd v s2 = pagedir_is_accessed pd v s) \<and>
       (\<forall>w. pagedir_get_page pd v s2 = pagedir_get_page pd v s \<and> is_user_page_present pd v w s2 = is_user_page_present pd v w s))"
proof -
  have b: "bit (pte_of s pd u) 0" using u(2) is_user_page_present_eq [OF ok u(1)] by simp
  obtain s1 where s1: "pagedir_set_dirty pd u d s = Some s1" "pd_ok s1 pd" "vm_cr3 s1 = vm_cr3 s"
    "\<And>v. is_user_vaddr v \<Longrightarrow> pte_of s1 pd v =
        (if pg_no v = pg_no u then if d then pte_of s pd u OR PTE_D else pte_of s pd u AND NOT PTE_D else pte_of s pd v)"
    using set_flag_pte(1) [OF ok u(1) b cr3] by metis
  have b1: "bit (pte_of s1 pd u) 0" using b s1(4) [OF u(1)] bit_flag [of 0] by simp
  obtain s2 where s2: "pagedir_set_accessed pd u a s1 = Some s2" "pd_ok s2 pd"
    "\<And>v. is_user_vaddr v \<Longrightarrow> pte_of s2 pd v =
        (if pg_no v = pg_no u then if a then pte_of s1 pd u OR PTE_A else pte_of s1 pd u AND NOT PTE_A else pte_of s1 pd v)"
    using set_flag_pte(2) [OF s1(2) u(1) b1] cr3 s1(3) by metis
  have e: "bit (pte_of s2 pd v) 0 = bit (pte_of s pd v) 0" "bit (pte_of s2 pd v) 1 = bit (pte_of s pd v) 1"
    "pte_get_page (pte_of s2 pd v) = pte_get_page (pte_of s pd v)"
    "bit (pte_of s1 pd v) 5 = bit (pte_of s pd v) 5" "bit (pte_of s2 pd v) 6 = bit (pte_of s1 pd v) 6" if v: "is_user_vaddr v" for v
    using s2(3) [OF v] s1(4) [OF v] s1(4) [OF u(1)]
    by (cases "pg_no v = pg_no u"; simp add: bit_flag pte_get_page_flag pte_of_page [of v u s pd])+
  have m: "pagedir_is_accessed pd v s1 = pagedir_is_accessed pd v s \<and> pagedir_is_dirty pd v s2 = pagedir_is_dirty pd v s1 \<and>
      (pg_no v \<noteq> pg_no u \<longrightarrow> pagedir_is_dirty pd v s2 = pagedir_is_dirty pd v s \<and> pagedir_is_accessed pd v s2 = pagedir_is_accessed pd v s) \<and>
      pagedir_get_page pd v s2 = pagedir_get_page pd v s \<and> is_user_page_present pd v w s2 = is_user_page_present pd v w s"
    if v: "is_user_vaddr v" for v w
    using e [OF v] s2(3) [OF v] s1(4) [OF v]
    by (simp add: pagedir_get_page_eq [OF s2(2) v] pagedir_get_page_eq [OF ok v] is_user_page_present_eq [OF s2(2) v]
      is_user_page_present_eq [OF ok v] pagedir_is_dirty_eq [OF s2(2) v] pagedir_is_dirty_eq [OF ok v] pagedir_is_dirty_eq [OF s1(2) v])
  have "pagedir_is_dirty pd u s1 = Some d" "pagedir_is_accessed pd u s2 = Some a"
    using s2(3) [OF u(1)] s1(4) [OF u(1)]
    by (simp_all add: pagedir_is_dirty_eq [OF s1(2) u(1)] pagedir_is_dirty_eq [OF s2(2) u(1)] bit_flag)
  with s1(1,2,4) s2 m show ?thesis by blast
qed

subsection \<open>Creation\<close>

text \<open>
  C27: pagedir_create returns a fresh page that holds a copy of the kernel page directory and
  translates no user address, or a null pointer when the kernel pool is exhausted.
\<close>

theorem pagedir_create_empty:
  assumes ok: "vm_ok s" and i: "vm_init_page_dir s \<in> used_of (kernel_pool s)"
    "\<And>i. unat i < 768 \<Longrightarrow> load32 (vm_mem s) (slot (vm_init_page_dir s) i) = 0"
  shows "case pagedir_create s of
      None \<Rightarrow> False
    | Some (pd, s') \<Rightarrow>
        if pd = NULL then s' = s \<and> \<not> has_run (kernel_pool s) 1
        else pd_ok s' pd \<and> pd \<notin> used_pages s \<and> used_pages s' = insert pd (used_pages s) \<and>
          (\<forall>v. is_user_vaddr v \<longrightarrow> pagedir_get_page pd v s' = Some NULL) \<and>
          (\<forall>i. unat i < 1024 \<longrightarrow> load32 (vm_mem s') (slot pd i) = load32 (vm_mem s) (slot (vm_init_page_dir s) i)) \<and>
          (\<forall>a. \<not> in_pages pd 1 a \<longrightarrow> vm_mem s' a = vm_mem s a)"
proof -
  let ?i = "vm_init_page_dir s"
  note ip = used_of_page [OF ok i(1)]
  have f: "(0 :: u32) AND PAL_USER = 0" "(0 :: u32) AND PAL_ASSERT = 0" by simp_all
  show ?thesis
    using ok f
  proof (cases rule: kernel_page_cases)
    case full
    then show ?thesis by (simp add: pagedir_create_def)
  next
    case (page pd s1)
    have mem1: "vm_mem s1 = vm_mem s" using page(9) by (simp add: fun_eq_iff)
    have ne: "pd \<noteq> ?i" using page(6) i(1) by (auto simp: used_pages_def)
    have far: "4096 \<le> unat (pd - ?i)"
      using in_pages_unique [OF ip(1) page(3), of pd] ne by (force simp: in_pages_def not_less)
    let ?m = "memcpy_loop (vm_mem s) pd ?i 4096"
    let ?s = "s1\<lparr>vm_mem := ?m\<rparr>"
    have r: "pagedir_create s = Some (pd, ?s)"
      using page(1,2,12) ip(3) by (simp add: pagedir_create_def memcpy_def mem1 PGSIZE_def)
    have m: "?m a = (if in_pages pd 1 a then vm_mem s (?i + (a - pd)) else vm_mem s a)" for a
      using memcpy_loop_at [of 4096 pd ?i "vm_mem s" a] far by (simp add: in_pages_def)
    have w: "load32 ?m (slot pd i) = load32 (vm_mem s) (slot ?i i)" if "unat i < 1024" for i
    proof -
      have "load32 ?m (slot pd i) = load32 (\<lambda>a. vm_mem s (?i + (a - pd))) (slot pd i)"
        by (rule load32_page [OF page(3) that]) (simp add: m)
      also have "\<dots> = load32 (vm_mem s) (slot ?i i)" by (simp add: load32_def algebra_simps)
      finally show ?thesis .
    qed
    have z: "load32 ?m (slot pd i) = 0" if "unat i < 768" for i using w [of i] i(2) [OF that] that by simp
    have "pd_ok ?s pd" using page(5,8) z by (auto simp: pd_ok_def vm_ok_def)
    moreover from this have "pagedir_get_page pd v ?s = Some NULL" if v: "is_user_vaddr v" for v
      using z [of "pd_no v"] v by (simp add: pagedir_get_page_eq pte_of_def user_pd_no)
    moreover have "used_pages ?s = insert pd (used_pages s)" using page(7) by (simp add: used_pages_def)
    ultimately show ?thesis using r page(2,6) w m by simp
  qed
qed

subsection \<open>Destruction\<close>

text \<open>After the pages \<open>F\<close> were freed from \<open>s0\<close>: they are free, and only their bytes have changed.\<close>

definition freed :: "vm \<Rightarrow> ptr set \<Rightarrow> vm \<Rightarrow> bool" where
  "freed s0 F s \<longleftrightarrow> vm_ok s \<and> used_pages s = used_pages s0 - F \<and> F \<subseteq> used_pages s0 \<and>
     (\<forall>a. (\<forall>f\<in>F. \<not> in_pages f 1 a) \<longrightarrow> vm_mem s a = vm_mem s0 a)"

lemma used_page:
  assumes "vm_ok s" "pg \<in> used_pages s"
  obtains flags k where "pg = page_addr (pool_of flags s) k" "k < unat (bit_cnt (used_map (pool_of flags s)))"
    "pg \<in> used_of (pool_of flags s)" "pg_ofs pg = 0" "is_kernel_vaddr pg" "unat pg + 4096 < 2 ^ 32"
proof -
  obtain flags where f: "pg \<in> used_of (pool_of flags s)"
  proof (cases "pg \<in> used_of (kernel_pool s)")
    case True
    then show ?thesis using that [of 0] by (simp add: pool_of_def)
  next
    case False
    then show ?thesis using assms(2) that [of PAL_USER] by (simp add: pool_of_def used_pages_def PAL_USER_def)
  qed
  then obtain k where k: "pg = page_addr (pool_of flags s) k" "k < unat (bit_cnt (used_map (pool_of flags s)))"
    by (auto simp: used_of_def)
  have ok: "pool_ok (pool_of flags s)" using assms(1) by (simp add: vm_ok_def pool_of_def)
  have "unat pg + 4096 < 2 ^ 32" using unat_page_addr [OF ok k(2)] ok k by (simp add: pool_ok_def)
  with f k page_addr_kernel [OF ok k(2)] show thesis using that by blast
qed

lemma freed_page:
  assumes fr: "freed s0 F s" and pg: "pg \<in> used_pages s0" "pg \<notin> F"
  shows "\<exists>s'. palloc_free_page pg s = Some s' \<and> freed s0 (insert pg F) s'"
proof -
  have ok: "vm_ok s" and u: "pg \<in> used_pages s" using fr pg by (auto simp: freed_def)
  obtain flags k where k: "pg = page_addr (pool_of flags s) k" "k < unat (bit_cnt (used_map (pool_of flags s)))"
    "pg \<in> used_of (pool_of flags s)" using used_page [OF ok u] by blast
  have one: "(1 :: size_t) \<noteq> 0" "k + unat (1 :: size_t) \<le> unat (bit_cnt (used_map (pool_of flags s)))"
    "pages_at pg (unat (1 :: size_t)) \<subseteq> used_of (pool_of flags s)" using k by simp_all
  obtain s' where s': "palloc_free_multiple pg 1 s = Some s'" "vm_ok s'" "used_pages s' = used_pages s - pages_at pg (unat (1 :: size_t))"
    "\<And>a. vm_mem s' a = (if in_pages pg (unat (1 :: size_t)) a then 0xcc else vm_mem s a)"
    by (rule palloc_free_run [OF ok one(1) k(1) one(2,3)]) blast
  have "used_pages s' = used_pages s0 - insert pg F" using s'(3) fr by (auto simp: freed_def)
  moreover have "vm_mem s' a = vm_mem s0 a" if "\<forall>f\<in>insert pg F. \<not> in_pages f 1 a" for a
    using s'(4) [of a] fr that by (simp add: freed_def)
  ultimately have "freed s0 (insert pg F) s'" using s'(2) fr pg(1) by (simp add: freed_def)
  then show ?thesis using s'(1) by (simp add: palloc_free_page_def)
qed

lemma freed_load:
  assumes "freed s0 F s" "\<And>f. f \<in> F \<Longrightarrow> pg_ofs f = 0" "pg_ofs pg = 0" "pg \<notin> F" "unat i < 1024"
  shows "load32 (vm_mem s) (slot pg i) = load32 (vm_mem s0) (slot pg i)"
proof (rule load32_page [OF assms(3,5)])
  fix a assume a: "in_pages pg 1 a"
  have "\<not> in_pages f 1 a" if f: "f \<in> F" for f using in_pages_unique [OF assms(2) [OF f] assms(3) _ a] f assms(4) by auto
  then show "vm_mem s a = vm_mem s0 a" using assms(1) by (simp add: freed_def)
qed

text \<open>The frame an entry of a table refers to.\<close>

definition frames_of :: "mem \<Rightarrow> ptr \<Rightarrow> u32 \<Rightarrow> ptr set" where
  "frames_of m pt i = (let e = load32 m (slot pt i) in if bit e 0 then set_option (pte_get_page e) else {})"

lemma unat_end:
  assumes "pg_ofs pg = 0" "unat pg + 4096 < 2 ^ 32" "n \<le> 1024"
  shows "unat (pg + 4 * of_nat n) = unat pg + 4 * n"
proof -
  have "unat (4 * of_nat n :: ptr) = 4 * n" using assms(3) by (simp add: unat_word_ariths unat_of_nat)
  then show ?thesis using assms by (simp add: unat_plus_no_wrap)
qed

lemma destroy_ptes_freed:
  assumes pt: "pg_ofs pt = 0" "unat pt + 4096 < 2 ^ 32" "pt \<notin> F" and F: "\<And>f. f \<in> F \<Longrightarrow> pg_ofs f = 0"
    and fr: "freed s0 F s" and j: "j \<le> 1024"
    and pres: "\<And>k. j \<le> k \<Longrightarrow> k < 1024 \<Longrightarrow> bit (load32 (vm_mem s0) (slot pt (of_nat k))) 0 \<Longrightarrow>
      \<exists>f. pte_get_page (load32 (vm_mem s0) (slot pt (of_nat k))) = Some f"
    and own: "\<And>k f. j \<le> k \<Longrightarrow> k < 1024 \<Longrightarrow> f \<in> frames_of (vm_mem s0) pt (of_nat k) \<Longrightarrow>
      f \<in> used_pages s0 \<and> f \<notin> F \<and> f \<noteq> pt \<and> pg_ofs f = 0"
    and dist: "\<And>k l f. j \<le> k \<Longrightarrow> k < l \<Longrightarrow> l < 1024 \<Longrightarrow> f \<in> frames_of (vm_mem s0) pt (of_nat k) \<Longrightarrow>
      f \<notin> frames_of (vm_mem s0) pt (of_nat l)"
  shows "\<exists>s'. destroy_ptes (pt + 4 * of_nat j) (pt + PGSIZE) s = Some s' \<and>
    freed s0 (F \<union> (\<Union>k\<in>{j..<1024}. frames_of (vm_mem s0) pt (of_nat k))) s'"
  using j fr F pt(3) pres own dist
proof (induction j arbitrary: F s rule: inc_induct)
  case base
  have "\<not> pt + 4 * of_nat 1024 < pt + PGSIZE" by (simp add: PGSIZE_def)
  then show ?case using base by (subst destroy_ptes.simps) simp
next
  case (step j)
  have jl: "unat (of_nat j :: u32) < 1024" using step(2) by (simp add: unat_of_nat)
  let ?e = "load32 (vm_mem s0) (slot pt (of_nat j))" and ?f = "frames_of (vm_mem s0) pt (of_nat j)"
  have e: "load32 (vm_mem s) (slot pt (of_nat j)) = ?e"
    using freed_load [OF step(4) step(5) pt(1) step(6) jl] by blast
  have lt: "pt + 4 * of_nat j < pt + PGSIZE"
    using unat_end [OF pt(1,2), of j] unat_end [OF pt(1,2), of 1024] step(2) by (simp add: word_less_nat_alt PGSIZE_def)
  have "\<exists>s1. (if ?e AND PTE_P \<noteq> 0 then do { pg \<leftarrow> pte_get_page ?e; palloc_free_page pg s } else Some s) = Some s1 \<and>
    freed s0 (F \<union> ?f) s1"
  proof (cases "bit ?e 0")
    case True
    obtain f where f: "pte_get_page ?e = Some f" using step(7) [of j] step(2) True by auto
    then have fs: "?f = {f}" using True by (simp add: frames_of_def)
    have "f \<in> used_pages s0" "f \<notin> F" using step(8) [of j f] step(2) fs by auto
    then show ?thesis using freed_page [OF step(4)] f fs True by (auto simp: and_PTE)
  next
    case False
    then have "?f = {}" by (simp add: frames_of_def)
    then show ?thesis using False step(4) by (auto simp: and_PTE)
  qed
  then obtain s1 where s1: "(if ?e AND PTE_P \<noteq> 0 then do { pg \<leftarrow> pte_get_page ?e; palloc_free_page pg s } else Some s) = Some s1"
    "freed s0 (F \<union> ?f) s1" by blast
  have own': "f \<in> used_pages s0 \<and> f \<notin> F \<and> f \<noteq> pt \<and> pg_ofs f = 0" if "f \<in> ?f" for f using step(8) [of j f] step(2) that by simp
  have "\<exists>s'. destroy_ptes (pt + 4 * of_nat (Suc j)) (pt + PGSIZE) s1 = Some s' \<and>
    freed s0 ((F \<union> ?f) \<union> (\<Union>k\<in>{Suc j..<1024}. frames_of (vm_mem s0) pt (of_nat k))) s'"
  proof (rule step.IH [OF s1(2)])
    show "f \<in> F \<union> ?f \<Longrightarrow> pg_ofs f = 0" for f using step(5) own' by blast
    show "pt \<notin> F \<union> ?f" using step(6) own' by blast
    show "Suc j \<le> k \<Longrightarrow> k < 1024 \<Longrightarrow> bit (load32 (vm_mem s0) (slot pt (of_nat k))) 0 \<Longrightarrow>
      \<exists>f. pte_get_page (load32 (vm_mem s0) (slot pt (of_nat k))) = Some f" for k using step(7) [of k] by simp
    show "Suc j \<le> k \<Longrightarrow> k < 1024 \<Longrightarrow> f \<in> frames_of (vm_mem s0) pt (of_nat k) \<Longrightarrow>
      f \<in> used_pages s0 \<and> f \<notin> F \<union> ?f \<and> f \<noteq> pt \<and> pg_ofs f = 0" for k f
      using step(8) [of k f] step(9) [of j k f] by (metis Suc_le_eq Un_iff less_imp_le order_refl)
    show "Suc j \<le> k \<Longrightarrow> k < l \<Longrightarrow> l < 1024 \<Longrightarrow> f \<in> frames_of (vm_mem s0) pt (of_nat k) \<Longrightarrow>
      f \<notin> frames_of (vm_mem s0) pt (of_nat l)" for k l f using step(9) [of k l f] by simp
  qed
  moreover have "F \<union> (\<Union>k\<in>{j..<1024}. frames_of (vm_mem s0) pt (of_nat k)) =
    (F \<union> ?f) \<union> (\<Union>k\<in>{Suc j..<1024}. frames_of (vm_mem s0) pt (of_nat k))"
  proof -
    have "{j..<1024} = insert j {Suc j..<1024}" using step(2) by auto
    then show ?thesis by (simp add: Un_assoc)
  qed
  moreover have "destroy_ptes (pt + 4 * of_nat j) (pt + PGSIZE) s = destroy_ptes (pt + 4 * of_nat (Suc j)) (pt + PGSIZE) s1"
  proof -
    have nx: "pt + 4 * of_nat (Suc j) = pt + 4 * of_nat j + 4" by (simp add: algebra_simps)
    show ?thesis unfolding nx by (subst (1) destroy_ptes.simps) (simp only: Let_def lt if_True e s1(1) Option.bind.simps)
  qed
  ultimately show ?case by simp
qed

text \<open>A page table with the frames it maps, and what a directory owns.\<close>

definition table_pages :: "mem \<Rightarrow> ptr \<Rightarrow> ptr set" where
  "table_pages m pt = insert pt (\<Union>k\<in>{0..<1024}. frames_of m pt (of_nat k))"

definition table_owned :: "vm \<Rightarrow> ptr \<Rightarrow> bool" where
  "table_owned s pt \<longleftrightarrow> table_pages (vm_mem s) pt \<subseteq> used_pages s \<and>
     (\<forall>k<1024. bit (load32 (vm_mem s) (slot pt (of_nat k))) 0 \<longrightarrow>
        (\<exists>f. pte_get_page (load32 (vm_mem s) (slot pt (of_nat k))) = Some f \<and> f \<noteq> pt)) \<and>
     (\<forall>k l. k < l \<and> l < 1024 \<longrightarrow> frames_of (vm_mem s) pt (of_nat k) \<inter> frames_of (vm_mem s) pt (of_nat l) = {})"

definition entry_pages :: "mem \<Rightarrow> ptr \<Rightarrow> nat \<Rightarrow> ptr set" where
  "entry_pages m pd i = (let e = load32 m (slot pd (of_nat i)) in
     if bit e 0 then case pde_get_pt e of None \<Rightarrow> {} | Some pt \<Rightarrow> table_pages m pt else {})"

definition pd_owned :: "vm \<Rightarrow> ptr \<Rightarrow> bool" where
  "pd_owned s pd \<longleftrightarrow> vm_ok s \<and> pd \<in> used_pages s \<and>
     (\<forall>i<768. bit (load32 (vm_mem s) (slot pd (of_nat i))) 0 \<longrightarrow>
        (\<exists>pt. pde_get_pt (load32 (vm_mem s) (slot pd (of_nat i))) = Some pt \<and> table_owned s pt \<and> pd \<notin> table_pages (vm_mem s) pt)) \<and>
     (\<forall>i j. i < j \<and> j < 768 \<longrightarrow> entry_pages (vm_mem s) pd i \<inter> entry_pages (vm_mem s) pd j = {})"

lemma used_aligned: "vm_ok s \<Longrightarrow> pg \<in> used_pages s \<Longrightarrow> pg_ofs pg = 0 \<and> unat pg + 4096 < 2 ^ 32 \<and> pg \<noteq> NULL"
  by (erule (1) used_page) (auto simp: is_kernel_vaddr_def PHYS_BASE_def)

lemma destroy_table:
  assumes ok: "vm_ok s0" and own: "table_owned s0 pt" and fr: "freed s0 F s" and disj: "table_pages (vm_mem s0) pt \<inter> F = {}"
  shows "\<exists>s1 s2. destroy_ptes pt (pt + PGSIZE) s = Some s1 \<and> palloc_free_page pt s1 = Some s2 \<and>
    freed s0 (F \<union> table_pages (vm_mem s0) pt) s2"
proof -
  have ptu: "pt \<in> used_pages s0" "pt \<notin> F" using own disj by (auto simp: table_owned_def table_pages_def)
  note al = used_aligned [OF ok]
  have F: "f \<in> F \<Longrightarrow> pg_ofs f = 0" for f using fr al by (auto simp: freed_def)
  have fo: "f \<in> used_pages s0 \<and> f \<notin> F \<and> f \<noteq> pt \<and> pg_ofs f = 0"
    if "k < 1024" "f \<in> frames_of (vm_mem s0) pt (of_nat k)" for k f
  proof -
    have f: "f \<in> table_pages (vm_mem s0) pt" using that by (auto simp: table_pages_def)
    then have "f \<in> used_pages s0" "f \<notin> F" using own disj by (auto simp: table_owned_def)
    moreover have "f \<noteq> pt" using that own by (auto simp: frames_of_def Let_def table_owned_def split: if_splits)
    ultimately show ?thesis using al by blast
  qed
  have "\<exists>s1. destroy_ptes (pt + 4 * of_nat 0) (pt + PGSIZE) s = Some s1 \<and>
    freed s0 (F \<union> (\<Union>k\<in>{0..<1024}. frames_of (vm_mem s0) pt (of_nat k))) s1"
  proof (rule destroy_ptes_freed [OF _ _ ptu(2) F fr])
    show "pg_ofs pt = 0" "unat pt + 4096 < 2 ^ 32" using al [OF ptu(1)] by simp_all
    show "\<exists>f. pte_get_page (load32 (vm_mem s0) (slot pt (of_nat k))) = Some f"
      if "k < 1024" "bit (load32 (vm_mem s0) (slot pt (of_nat k))) 0" for k using own that by (auto simp: table_owned_def)
    show "f \<notin> frames_of (vm_mem s0) pt (of_nat l)" if "k < l" "l < 1024" "f \<in> frames_of (vm_mem s0) pt (of_nat k)" for k l f
      using own that unfolding table_owned_def by blast
  qed (use fo in auto)
  then obtain s1 where s1: "destroy_ptes pt (pt + PGSIZE) s = Some s1"
    "freed s0 (F \<union> (\<Union>k\<in>{0..<1024}. frames_of (vm_mem s0) pt (of_nat k))) s1" by auto
  have "pt \<notin> F \<union> (\<Union>k\<in>{0..<1024}. frames_of (vm_mem s0) pt (of_nat k))"
  proof
    assume "pt \<in> F \<union> (\<Union>k\<in>{0..<1024}. frames_of (vm_mem s0) pt (of_nat k))"
    then obtain k where "k < 1024" "pt \<in> frames_of (vm_mem s0) pt (of_nat k)" using ptu(2) by auto
    then show False using fo by blast
  qed
  from freed_page [OF s1(2) ptu(1) this] s1(1) show ?thesis by (auto simp: table_pages_def Un_commute)
qed

lemma destroy_pdes_freed:
  assumes own: "pd_owned s0 pd" and i: "i \<le> 768" and fr: "freed s0 F s" and pd: "pd \<notin> F"
    and disj: "\<And>k. i \<le> k \<Longrightarrow> k < 768 \<Longrightarrow> entry_pages (vm_mem s0) pd k \<inter> F = {}"
  shows "\<exists>s'. destroy_pdes (pd + 4 * of_nat i) (pd + 4 * pd_no PHYS_BASE) s = Some s' \<and>
    freed s0 (F \<union> (\<Union>k\<in>{i..<768}. entry_pages (vm_mem s0) pd k)) s'"
  using i fr pd disj
proof (induction i arbitrary: F s rule: inc_induct)
  case base
  have "pd_no PHYS_BASE = 768" by (simp add: pd_no_def PHYS_BASE_def)
  then show ?case using base by (subst destroy_pdes.simps) simp
next
  case (step i)
  have ok: "vm_ok s0" and pdu: "pd \<in> used_pages s0" using own by (simp_all add: pd_owned_def)
  note al = used_aligned [OF ok]
  have F: "f \<in> F \<Longrightarrow> pg_ofs f = 0" for f using step(4) al by (auto simp: freed_def)
  have il: "unat (of_nat i :: u32) < 1024" using step(2) by (simp add: unat_of_nat)
  let ?e = "load32 (vm_mem s0) (slot pd (of_nat i))" and ?p = "entry_pages (vm_mem s0) pd i"
  have e: "load32 (vm_mem s) (slot pd (of_nat i)) = ?e"
    using freed_load [OF step(4) F _ step(5) il] al [OF pdu] by blast
  have pb: "pd_no PHYS_BASE = of_nat 768" by (simp add: pd_no_def PHYS_BASE_def)
  have lt: "pd + 4 * of_nat i < pd + 4 * pd_no PHYS_BASE"
    unfolding pb using unat_end [of pd i] unat_end [of pd 768] al [OF pdu] step(2) by (simp add: word_less_nat_alt)
  let ?free = "if ?e AND PTE_P \<noteq> 0 then do {
      pt \<leftarrow> pde_get_pt ?e; s \<leftarrow> destroy_ptes pt (pt + PGSIZE) s; palloc_free_page pt s } else Some s"
  have "\<exists>s1. ?free = Some s1 \<and> freed s0 (F \<union> ?p) s1 \<and> pd \<notin> ?p"
  proof (cases "bit ?e 0")
    case True
    then obtain pt where pt: "pde_get_pt ?e = Some pt" "table_owned s0 pt" "pd \<notin> table_pages (vm_mem s0) pt"
      using own step(2) by (auto simp: pd_owned_def)
    have p: "?p = table_pages (vm_mem s0) pt" using True pt(1) by (simp add: entry_pages_def)
    from destroy_table [OF ok pt(2) step(4)] step(6) [of i] step(2) p
    obtain s1 s2 where "destroy_ptes pt (pt + PGSIZE) s = Some s1" "palloc_free_page pt s1 = Some s2" "freed s0 (F \<union> ?p) s2" by auto
    then show ?thesis using True pt p by (auto simp: and_PTE)
  next
    case False
    then have "?p = {}" by (simp add: entry_pages_def)
    then show ?thesis using False step(4) by (auto simp: and_PTE)
  qed
  then obtain s1 where s1: "?free = Some s1" "freed s0 (F \<union> ?p) s1" "pd \<notin> ?p" by blast
  have "\<exists>s'. destroy_pdes (pd + 4 * of_nat (Suc i)) (pd + 4 * pd_no PHYS_BASE) s1 = Some s' \<and>
    freed s0 ((F \<union> ?p) \<union> (\<Union>k\<in>{Suc i..<768}. entry_pages (vm_mem s0) pd k)) s'"
  proof (rule step.IH [OF s1(2)])
    show "pd \<notin> F \<union> ?p" using step(5) s1(3) by blast
    show "entry_pages (vm_mem s0) pd k \<inter> (F \<union> ?p) = {}" if "Suc i \<le> k" "k < 768" for k
      using step(6) [of k] own that by (simp add: Int_Un_distrib pd_owned_def) (metis Int_commute Suc_le_eq)
  qed
  moreover have "F \<union> (\<Union>k\<in>{i..<768}. entry_pages (vm_mem s0) pd k) = (F \<union> ?p) \<union> (\<Union>k\<in>{Suc i..<768}. entry_pages (vm_mem s0) pd k)"
  proof -
    have "{i..<768} = insert i {Suc i..<768}" using step(2) by auto
    then show ?thesis by (simp add: Un_assoc)
  qed
  moreover have "destroy_pdes (pd + 4 * of_nat i) (pd + 4 * pd_no PHYS_BASE) s =
    destroy_pdes (pd + 4 * of_nat (Suc i)) (pd + 4 * pd_no PHYS_BASE) s1"
  proof -
    have nx: "pd + 4 * of_nat (Suc i) = pd + 4 * of_nat i + 4" by (simp add: algebra_simps)
    show ?thesis unfolding nx by (subst (1) destroy_pdes.simps) (simp only: Let_def lt if_True e s1(1) Option.bind.simps)
  qed
  ultimately show ?case by simp
qed

text \<open>
  C16: pagedir_destroy of a directory that owns its tables and frames frees exactly the directory,
  its page tables and the frames they map, each once, and leaves the contents of all other pages in
  use alone.
\<close>

theorem pagedir_destroy_frees:
  assumes own: "pd_owned s pd" and ne: "pd \<noteq> vm_init_page_dir s"
  shows "\<exists>s'. pagedir_destroy pd s = Some s' \<and> vm_ok s' \<and>
    used_pages s' = used_pages s - insert pd (\<Union>i<768. entry_pages (vm_mem s) pd i) \<and>
    (\<forall>pg a. pg \<in> used_pages s' \<longrightarrow> in_pages pg 1 a \<longrightarrow> vm_mem s' a = vm_mem s a)"
proof -
  have ok: "vm_ok s" and pdu: "pd \<in> used_pages s" using own by (simp_all add: pd_owned_def)
  let ?P = "\<Union>k\<in>{0..<768}. entry_pages (vm_mem s) pd k"
  have "freed s {} s" using ok by (simp add: freed_def)
  from destroy_pdes_freed [OF own _ this, of 0] obtain s1 where s1: "destroy_pdes pd (pd + 4 * pd_no PHYS_BASE) s = Some s1" "freed s ?P s1"
    by auto
  have "pd \<notin> ?P"
    using own by (auto simp: pd_owned_def entry_pages_def Let_def split: option.splits if_splits)
  from freed_page [OF s1(2) pdu this] obtain s2 where s2: "palloc_free_page pd s1 = Some s2" "freed s (insert pd ?P) s2" by blast
  have "pd \<noteq> NULL" using used_aligned [OF ok pdu] by simp
  then have "pagedir_destroy pd s = Some s2" using s1(1) s2(1) ne by (simp add: pagedir_destroy_def)
  moreover have "vm_mem s2 a = vm_mem s a" if "in_pages pg 1 a" "pg \<in> used_pages s2" for pg a
  proof -
    have "\<not> in_pages f 1 a" if f: "f \<in> insert pd ?P" for f
    proof
      assume "in_pages f 1 a"
      moreover have "f \<in> used_pages s" "pg \<in> used_pages s" "f \<noteq> pg" using f s2(2) \<open>pg \<in> used_pages s2\<close> by (auto simp: freed_def)
      ultimately show False using in_pages_unique [of f pg a] used_aligned [OF ok] \<open>in_pages pg 1 a\<close> by blast
    qed
    then show ?thesis using s2(2) unfolding freed_def by blast
  qed
  ultimately show ?thesis using s2(2) unfolding freed_def lessThan_atLeast0 by blast
qed

subsection \<open>A directory with one mapped page\<close>

text \<open>The directory at \<open>0xC0103000\<close> maps the user page \<open>0x8048000\<close> to the frame at \<open>0xC0200000\<close>.\<close>

definition sample_pd_vm :: vm where
  "sample_pd_vm = sample_vm\<lparr>vm_mem := store32 (store32 (\<lambda>_. 0) (slot 0xC0103000 32) 0x104007) (slot 0xC0104000 72) 0x200007,
     kernel_pool := \<lparr>used_map = \<lparr>bit_cnt = 6, bits = [13]\<rparr>, base = 0xC0101000\<rparr>,
     user_pool := \<lparr>used_map = \<lparr>bit_cnt = 3, bits = [1]\<rparr>, base = 0xC0200000\<rparr>\<rparr>"

lemma sample_pd_load:
  assumes "unat i < 1024"
  shows "load32 (vm_mem sample_pd_vm) (slot 0xC0103000 i) = (if i = 32 then 0x104007 else 0)"
    "load32 (vm_mem sample_pd_vm) (slot 0xC0104000 i) = (if i = 72 then 0x200007 else 0)"
    "load32 (vm_mem sample_pd_vm) (slot 0xC0101000 i) = 0"
proof -
  have a: "pg_ofs 0xC0103000 = 0" "pg_ofs 0xC0104000 = 0" "pg_ofs 0xC0101000 = 0" by (simp_all add: pg_ofs_def PGMASK_def)
  have z: "load32 (\<lambda>_. 0) q = 0" for q by (simp add: load32_def)
  show "load32 (vm_mem sample_pd_vm) (slot 0xC0103000 i) = (if i = 32 then 0x104007 else 0)"
    "load32 (vm_mem sample_pd_vm) (slot 0xC0104000 i) = (if i = 72 then 0x200007 else 0)"
    "load32 (vm_mem sample_pd_vm) (slot 0xC0101000 i) = 0"
    using load32_store32 [OF a(2) _ a(1) assms, of 72] load32_store32 [OF a(1) _ a(1) assms, of 32]
      load32_store32 [OF a(2) _ a(2) assms, of 72] load32_store32 [OF a(1) _ a(2) assms, of 32]
      load32_store32 [OF a(2) _ a(3) assms, of 72] load32_store32 [OF a(1) _ a(3) assms, of 32]
    by (simp_all add: sample_pd_vm_def z)
qed

lemma sample_pd_vm_ok: "vm_ok sample_pd_vm"
  by (simp add: vm_ok_def sample_pd_vm_def sample_vm_def pool_ok_def bm_wf_def pg_ofs_def PGMASK_def PGBITS_def is_kernel_vaddr_def PHYS_BASE_def)

lemma sample_pd_used:
  "used_of (kernel_pool sample_pd_vm) = {0xC0101000, 0xC0103000, 0xC0104000}" "used_of (user_pool sample_pd_vm) = {0xC0200000}"
proof -
  have "{k. k < unat (6 :: size_t) \<and> bools \<lparr>bit_cnt = 6, bits = [13]\<rparr> ! k} = {0, 2, 3}" (is "?l = _")
  proof -
    have "?l = set (filter (\<lambda>k. bools \<lparr>bit_cnt = 6, bits = [13]\<rparr> ! k) [0..<6])" by auto
    also have "\<dots> = {0, 2, 3}" by code_simp
    finally show ?thesis .
  qed
  then show "used_of (kernel_pool sample_pd_vm) = {0xC0101000, 0xC0103000, 0xC0104000}"
    by (simp add: used_of_def sample_pd_vm_def page_addr_def PGSIZE_def)
  have "{k. k < unat (3 :: size_t) \<and> bools \<lparr>bit_cnt = 3, bits = [1]\<rparr> ! k} = {0}" (is "?l = _")
  proof -
    have "?l = set (filter (\<lambda>k. bools \<lparr>bit_cnt = 3, bits = [1]\<rparr> ! k) [0..<3])" by auto
    also have "\<dots> = {0}" by code_simp
    finally show ?thesis .
  qed
  then show "used_of (user_pool sample_pd_vm) = {0xC0200000}"
    by (simp add: used_of_def sample_pd_vm_def page_addr_def PGSIZE_def)
qed

lemma sample_entries:
  "pde_get_pt 0x104007 = Some 0xC0104000" "pte_get_page 0x200007 = Some 0xC0200000"
  by (simp_all add: pde_get_pt_def pte_get_page_def ptov_def PTE_P_def PTE_ADDR_def PHYS_BASE_def)

lemma sample_pd_ok: "pd_ok sample_pd_vm 0xC0103000"
  using sample_pd_vm_ok by (auto simp: pd_ok_def sample_pd_used sample_pd_load sample_entries split: if_splits)

lemma sample_pte: "pte_of sample_pd_vm 0xC0103000 0x8048000 = 0x200007" "pte_of sample_pd_vm 0xC0103000 0x8049000 = 0"
  using sample_pd_load(1) [of 32] sample_pd_load(2) [of 72] sample_pd_load(2) [of 73]
  by (simp_all add: pte_of_def Let_def sample_entries pd_no_def pt_no_def PTMASK_def)

lemma sample_pd_owned: "pd_owned sample_pd_vm 0xC0103000"
proof -
  let ?m = "vm_mem sample_pd_vm"
  have w: "unat (of_nat k :: u32) < 1024" "(of_nat k :: u32) = 72 \<longleftrightarrow> k = 72" "(of_nat k :: u32) = 32 \<longleftrightarrow> k = 32" if "k < 1024" for k
    using that by (simp_all add: word_unat_eq_iff unat_of_nat)
  have f: "frames_of ?m 0xC0104000 (of_nat k) = (if k = 72 then {0xC0200000} else {})" if "k < 1024" for k
    using w [OF that] by (simp add: frames_of_def sample_pd_load sample_entries)
  have t: "table_pages ?m 0xC0104000 = {0xC0104000, 0xC0200000}"
    using f by (auto simp: table_pages_def)
  have o: "table_owned sample_pd_vm 0xC0104000"
    using f w by (auto simp: table_owned_def t used_pages_def sample_pd_used sample_pd_load sample_entries)
  have "entry_pages ?m 0xC0103000 i = (if i = 32 then {0xC0104000, 0xC0200000} else {})" if "i < 768" for i
    using w [of i] that by (simp add: entry_pages_def sample_pd_load sample_entries t)
  then show ?thesis using o w sample_pd_vm_ok
    by (auto simp: pd_owned_def used_pages_def sample_pd_used sample_pd_load sample_entries t split: if_splits)
qed

lemma sample_globals:
  "init_ram_pages sample_pd_vm = 1024" "vm_init_page_dir sample_pd_vm = 0xC0101000" "vm_cr3 sample_pd_vm = 0x101000"
  "is_user_vaddr 0x8048000" "is_user_vaddr 0x8049000" "pg_ofs 0x8048000 = 0" "pg_ofs 0x8049000 = 0"
  "is_kernel_vaddr 0xC0201000" "pg_ofs 0xC0201000 = 0"
  by (simp_all add: sample_pd_vm_def sample_vm_def is_user_vaddr_def is_kernel_vaddr_def PHYS_BASE_def pg_ofs_def PGMASK_def)

lemma sample_present:
  "is_user_page_present 0xC0103000 0x8048000 False sample_pd_vm = Some True"
  "is_user_page_present 0xC0103000 0x8049000 False sample_pd_vm = Some False"
  by (simp_all add: is_user_page_present_eq [OF sample_pd_ok] sample_globals sample_pte)

theorem pagedir_set_get_witness:
  "case pagedir_set_page 0xC0103000 0x8049000 0xC0201000 False sample_pd_vm of
      None \<Rightarrow> False
    | Some (False, s') \<Rightarrow> s' = sample_pd_vm \<and> \<not> has_run (kernel_pool sample_pd_vm) 1
    | Some (True, s') \<Rightarrow> pd_ok s' 0xC0103000 \<and> is_user_page_present 0xC0103000 0x8049000 True s' = Some False \<and>
        (\<forall>v. is_user_vaddr v \<longrightarrow> pagedir_get_page 0xC0103000 v s' =
           (if pg_no v = pg_no 0x8049000 then Some (0xC0201000 + pg_ofs v) else pagedir_get_page 0xC0103000 v sample_pd_vm))"
  by (rule pagedir_set_get [OF sample_pd_ok _ _ _ sample_present(2)]) (simp_all add: sample_globals PHYS_BASE_def)

theorem pagedir_clear_unmaps_witness:
  "\<exists>s'. pagedir_clear_page 0xC0103000 0x8048000 sample_pd_vm = Some s' \<and> pagedir_get_page 0xC0103000 0x8048123 s' = Some NULL"
proof -
  have "is_user_vaddr 0x8048123" "pg_no 0x8048123 = pg_no 0x8048000"
    by (simp_all add: is_user_vaddr_def PHYS_BASE_def pg_no_def PGBITS_def)
  moreover have "vm_cr3 sample_pd_vm < 0x40000000" by (simp add: sample_globals)
  ultimately show ?thesis
    using pagedir_clear_unmaps [OF sample_pd_ok sample_globals(4,6)] by metis
qed

theorem pagedir_bits_witness:
  "\<exists>s1 s2. pagedir_set_dirty 0xC0103000 0x8048000 True sample_pd_vm = Some s1 \<and> pagedir_set_accessed 0xC0103000 0x8048000 False s1 = Some s2 \<and>
    pagedir_is_dirty 0xC0103000 0x8048000 s1 = Some True \<and> pagedir_is_accessed 0xC0103000 0x8048000 s2 = Some False"
proof -
  have "vm_cr3 sample_pd_vm < 0x40000000" by (simp add: sample_globals)
  from pagedir_bits [OF sample_pd_ok sample_globals(4) sample_present(1) this, of True False] show ?thesis by blast
qed

theorem pagedir_create_empty_witness:
  "case pagedir_create sample_pd_vm of
      None \<Rightarrow> False
    | Some (pd, s') \<Rightarrow>
        if pd = NULL then s' = sample_pd_vm \<and> \<not> has_run (kernel_pool sample_pd_vm) 1
        else pd_ok s' pd \<and> pd \<notin> used_pages sample_pd_vm \<and> used_pages s' = insert pd (used_pages sample_pd_vm) \<and>
          (\<forall>v. is_user_vaddr v \<longrightarrow> pagedir_get_page pd v s' = Some NULL) \<and>
          (\<forall>i. unat i < 1024 \<longrightarrow> load32 (vm_mem s') (slot pd i) = load32 (vm_mem sample_pd_vm) (slot (vm_init_page_dir sample_pd_vm) i)) \<and>
          (\<forall>a. \<not> in_pages pd 1 a \<longrightarrow> vm_mem s' a = vm_mem sample_pd_vm a)"
  by (rule pagedir_create_empty [OF sample_pd_vm_ok]) (simp_all add: sample_globals sample_pd_used sample_pd_load)

theorem pagedir_destroy_frees_witness:
  "\<exists>s'. pagedir_destroy 0xC0103000 sample_pd_vm = Some s' \<and> used_pages s' = {0xC0101000, 0xC0103000, 0xC0104000, 0xC0200000} -
     insert 0xC0103000 (\<Union>i<768. entry_pages (vm_mem sample_pd_vm) 0xC0103000 i)"
proof -
  have "0xC0103000 \<noteq> vm_init_page_dir sample_pd_vm" by (simp add: sample_globals)
  from pagedir_destroy_frees [OF sample_pd_owned this] show ?thesis by (auto simp: used_pages_def sample_pd_used)
qed
end
