(* ===== verification/Descriptor.thy ===== *)
theory Descriptor
  imports Filesys Pagedir
begin

text \<open>
  File descriptors (\<open>userprog/descriptor.c\<close>): the page of descriptors of a process and the operations behind the file system
  calls.  Each operation holds \<open>filesys_lock\<close> from beginning to end, so it is one step here and the lock leaves no trace.
  The characters that \<open>input_getc\<close> delivers are a sequence \<open>keys\<close>, of which the first \<open>key_pos\<close> have been read.

  The lemmas show what the operations do on a page of descriptors, that \<open>get_file_descriptor\<close> does not look at the descriptor
  it is given, that the last slot reaches over the end of the page, and which arguments stop the kernel.
\<close>

subsection \<open>The page of descriptors\<close>

record descriptor =
  in_use :: bool
  fd :: int
  file_ptr :: nat

text \<open>
  A descriptor takes 12 bytes, so the page has room for 341 of them in its first 4092 bytes.  The loops run to index 341
  nevertheless: the flag of that slot is the byte at offset 4092, its other two fields are the first 8 bytes of the following
  page, here \<open>beyond\<close>.
\<close>

definition capacity :: nat where "capacity = 4096 div 12"

record fd_page =
  slots :: "descriptor list"
  edge_in_use :: bool
  beyond :: "int \<times> nat"

definition no_descriptor :: descriptor where
  "no_descriptor = \<lparr>in_use = False, fd = 0, file_ptr = 0\<rparr>"

definition get_slot :: "fd_page \<Rightarrow> nat \<Rightarrow> descriptor" where
  "get_slot p i =
     (if i < capacity then slots p ! i else \<lparr>in_use = edge_in_use p, fd = fst (beyond p), file_ptr = snd (beyond p)\<rparr>)"

definition set_slot :: "fd_page \<Rightarrow> nat \<Rightarrow> descriptor \<Rightarrow> fd_page" where
  "set_slot p i d =
     (if i < capacity then p\<lparr>slots := (slots p)[i := d]\<rparr> else p\<lparr>edge_in_use := in_use d, beyond := (fd d, file_ptr d)\<rparr>)"

text \<open>\<open>memset\<close> of the whole page: it ends before the fields in the following page.\<close>

definition clear_page :: "fd_page \<Rightarrow> fd_page" where
  "clear_page p = p\<lparr>slots := replicate capacity no_descriptor, edge_in_use := False\<rparr>"

subsection \<open>The process\<close>

record proc =
  pvm :: vm
  pagedir :: ptr
  file_descriptor_page :: ptr
  fds :: fd_page
  process_executable :: nat
  pfs :: fs
  keys :: "nat \<Rightarrow> u8"
  key_pos :: nat
  console :: "u8 list"

text \<open>\<open>fds\<close> is the page at \<open>file_descriptor_page\<close>; \<open>following\<close> is what the memory behind a new page holds.\<close>

definition setup_file_descriptors :: "int \<times> nat \<Rightarrow> proc \<Rightarrow> (bool \<times> proc) option" where
  "setup_file_descriptors following s = do {
     (page, v) \<leftarrow> palloc_get_page PAL_ZERO (pvm s);
     let s = s\<lparr>pvm := v\<rparr>;
     if page = NULL then Some (False, s)
     else Some (True, s\<lparr>file_descriptor_page := page,
       fds := \<lparr>slots = replicate capacity no_descriptor, edge_in_use = False, beyond = following\<rparr>\<rparr>)
   }"

definition descriptor_init :: "int \<times> nat \<Rightarrow> proc \<Rightarrow> proc option" where
  "descriptor_init following s = do {
     (ok, s) \<leftarrow> setup_file_descriptors following s;
     ASSERT ok;
     Some s
   }"

text \<open>The slot that \<open>get_new_file_descriptor\<close> returns, from index \<open>i\<close> on.\<close>

function new_descriptor_loop :: "fd_page \<Rightarrow> nat \<Rightarrow> (nat \<times> fd_page) option" where
  "new_descriptor_loop p i =
     (if i \<le> capacity then
        if \<not> in_use (get_slot p i) then Some (i, set_slot p i ((get_slot p i)\<lparr>in_use := True, fd := 2 + int i\<rparr>))
        else new_descriptor_loop p (i + 1)
      else None)"
  by pat_completeness auto
termination
  by (relation "measure (\<lambda>(p, i). Suc capacity - i)") auto

definition get_new_file_descriptor :: "fd_page \<Rightarrow> (nat \<times> fd_page) option" where
  "get_new_file_descriptor p = new_descriptor_loop p 0"

function get_descriptor_loop :: "fd_page \<Rightarrow> nat \<Rightarrow> nat option" where
  "get_descriptor_loop p i =
     (if i \<le> capacity then
        if in_use (get_slot p i) \<and> fd (get_slot p i) = 2 + int i then Some i
        else get_descriptor_loop p (i + 1)
      else None)"
  by pat_completeness auto
termination
  by (relation "measure (\<lambda>(p, i). Suc capacity - i)") auto

definition get_file_descriptor :: "int \<Rightarrow> fd_page \<Rightarrow> nat option" where
  "get_file_descriptor n p = (if n \<le> 1 then None else get_descriptor_loop p 0)"

declare new_descriptor_loop.simps [simp del] get_descriptor_loop.simps [simp del]

subsection \<open>The executable\<close>

definition open_process_executable :: "u8 list \<Rightarrow> proc \<Rightarrow> (nat \<times> proc) option" where
  "open_process_executable file_name s = do {
     (f, k) \<leftarrow> filesys_open file_name (pfs s);
     k \<leftarrow> (if f \<noteq> 0 then file_deny_write f k else Some k);
     Some (f, s\<lparr>pfs := k\<rparr>)
   }"

definition close_process_executable :: "proc \<Rightarrow> proc option" where
  "close_process_executable s = do {
     k \<leftarrow> file_close (process_executable s) (pfs s);
     Some (s\<lparr>pfs := k\<rparr>)
   }"

text \<open>The loop of \<open>close_all_file_descriptors\<close>.\<close>

function close_all_loop :: "nat \<Rightarrow> proc \<Rightarrow> proc option" where
  "close_all_loop i s =
     (if i \<le> capacity then
        if in_use (get_slot (fds s) i) then do {
          let d = get_slot (fds s) i;
          let s = s\<lparr>fds := set_slot (fds s) i (d\<lparr>in_use := False\<rparr>)\<rparr>;
          k \<leftarrow> file_close (file_ptr d) (pfs s);
          close_all_loop (i + 1) (s\<lparr>pfs := k\<rparr>)
        } else close_all_loop (i + 1) s
      else Some s)"
  by pat_completeness auto
termination
  by (relation "measure (\<lambda>(i, s). Suc capacity - i)") auto

declare close_all_loop.simps [simp del]

definition close_all_file_descriptors :: "proc \<Rightarrow> proc option" where
  "close_all_file_descriptors s = do {
     s \<leftarrow> close_all_loop 0 s;
     Some (s\<lparr>fds := clear_page (fds s)\<rparr>)
   }"

subsection \<open>The operations on files\<close>

text \<open>\<open>garbage\<close> is the stack memory that \<open>dir_add\<close> uses.\<close>

definition fd_create :: "dir_entry \<Rightarrow> u8 list \<Rightarrow> u32 \<Rightarrow> proc \<Rightarrow> (bool \<times> proc) option" where
  "fd_create garbage file_name initial_size s = do {
     (r, k) \<leftarrow> filesys_create garbage file_name (sint initial_size) (pfs s);
     Some (r, s\<lparr>pfs := k\<rparr>)
   }"

definition fd_remove :: "u8 list \<Rightarrow> proc \<Rightarrow> (bool \<times> proc) option" where
  "fd_remove file_name s = do {
     (r, k) \<leftarrow> filesys_remove file_name (pfs s);
     Some (r, s\<lparr>pfs := k\<rparr>)
   }"

definition fd_open :: "u8 list \<Rightarrow> proc \<Rightarrow> (int \<times> proc) option" where
  "fd_open file_name s =
     (case get_new_file_descriptor (fds s) of
        None \<Rightarrow> Some (-1, s)
      | Some (i, p) \<Rightarrow> do {
          (f, k) \<leftarrow> filesys_open file_name (pfs s);
          let s = s\<lparr>fds := set_slot p i ((get_slot p i)\<lparr>file_ptr := f\<rparr>), pfs := k\<rparr>;
          if f = 0 then Some (-1, s\<lparr>fds := set_slot (fds s) i no_descriptor\<rparr>)
          else Some (fd (get_slot (fds s) i), s)
        })"

definition fd_close :: "int \<Rightarrow> proc \<Rightarrow> proc option" where
  "fd_close n s =
     (case get_file_descriptor n (fds s) of
        None \<Rightarrow> Some s
      | Some i \<Rightarrow> do {
          k \<leftarrow> file_close (file_ptr (get_slot (fds s) i)) (pfs s);
          Some (s\<lparr>pfs := k, fds := set_slot (fds s) i no_descriptor\<rparr>)
        })"

text \<open>
  The loop that reads from the keyboard: from index \<open>i\<close> on it stores up to \<open>n\<close> more characters and returns the index it stops
  at and the characters stored.
\<close>

fun read_keys :: "nat \<Rightarrow> nat \<Rightarrow> proc \<Rightarrow> nat \<times> u8 list \<times> proc" where
  "read_keys i 0 s = (i, [], s)"
| "read_keys i (Suc n) s =
     (let c = keys s (key_pos s); s = s\<lparr>key_pos := Suc (key_pos s)\<rparr> in
      if c = 10 then (i, [c], s)
      else let (j, cs, s) = read_keys (Suc i) n s in (j, c # cs, s))"

text \<open>\<open>fd_read\<close>: the return value and the bytes stored at \<open>buffer\<close>.\<close>

definition fd_read :: "int \<Rightarrow> ptr \<Rightarrow> u32 \<Rightarrow> proc \<Rightarrow> (int \<times> u8 list \<times> proc) option" where
  "fd_read n buffer sz s =
     (if buffer = NULL \<or> n < 0 \<or> n = 1 then Some (-1, [], s)
      else if n = 0 then
        let (index, cs, s) = read_keys 0 (unat sz) s in Some (wrap32 (int index + 1), cs, s)
      else
        case get_file_descriptor n (fds s) of
          None \<Rightarrow> Some (-1, [], s)
        | Some i \<Rightarrow> do {
            (bs, k) \<leftarrow> file_read (file_ptr (get_slot (fds s) i)) (sint sz) (pfs s);
            Some (int (length bs), bs, s\<lparr>pfs := k\<rparr>)
          })"

text \<open>\<open>fd_write\<close>, where \<open>bs\<close> are the \<open>size\<close> bytes at \<open>buffer\<close>.\<close>

definition fd_write :: "int \<Rightarrow> ptr \<Rightarrow> u8 list \<Rightarrow> u32 \<Rightarrow> proc \<Rightarrow> (int \<times> proc) option" where
  "fd_write n buffer bs sz s =
     (if buffer = NULL \<or> n \<le> 0 then Some (0, s)
      else if n = 1 then Some (sint sz, s\<lparr>console := console s @ take (unat sz) bs\<rparr>)
      else
        case get_file_descriptor n (fds s) of
          None \<Rightarrow> Some (0, s)
        | Some i \<Rightarrow> do {
            (r, k) \<leftarrow> file_write (file_ptr (get_slot (fds s) i)) bs (sint sz) (pfs s);
            Some (int r, s\<lparr>pfs := k\<rparr>)
          })"

definition fd_seek :: "int \<Rightarrow> u32 \<Rightarrow> proc \<Rightarrow> proc option" where
  "fd_seek n position s =
     (case get_file_descriptor n (fds s) of
        None \<Rightarrow> Some s
      | Some i \<Rightarrow> do {
          k \<leftarrow> file_seek (file_ptr (get_slot (fds s) i)) (sint position) (pfs s);
          Some (s\<lparr>pfs := k\<rparr>)
        })"

definition fd_tell :: "int \<Rightarrow> proc \<Rightarrow> u32 option" where
  "fd_tell n s =
     (case get_file_descriptor n (fds s) of
        None \<Rightarrow> Some 0
      | Some i \<Rightarrow> do {
          pos \<leftarrow> file_tell (file_ptr (get_slot (fds s) i)) (pfs s);
          Some (word_of_int pos)
        })"

definition fd_filesize :: "int \<Rightarrow> proc \<Rightarrow> int option" where
  "fd_filesize n s =
     (case get_file_descriptor n (fds s) of
        None \<Rightarrow> Some 0
      | Some i \<Rightarrow> file_length (file_ptr (get_slot (fds s) i)) (pfs s))"

subsection \<open>Descriptors in use\<close>

text \<open>Every slot in use holds its own number.\<close>

definition fds_ok :: "fd_page \<Rightarrow> bool" where
  "fds_ok p \<longleftrightarrow> length (slots p) = capacity \<and> (\<forall>i \<le> capacity. in_use (get_slot p i) \<longrightarrow> fd (get_slot p i) = 2 + int i)"

lemma get_set_slot:
  assumes "length (slots p) = capacity" "i \<le> capacity" "j \<le> capacity"
  shows "get_slot (set_slot p i d) j = (if j = i then d else get_slot p j)"
  using assms by (auto simp: get_slot_def set_slot_def)

lemma length_set_slot [simp]: "length (slots (set_slot p i d)) = length (slots p)"
  by (simp add: set_slot_def)

lemma fds_ok_set:
  assumes "fds_ok p" "i \<le> capacity" "in_use d \<longrightarrow> fd d = 2 + int i"
  shows "fds_ok (set_slot p i d)"
  using assms get_set_slot [of p i] by (auto simp: fds_ok_def)

text \<open>The two searches.\<close>

lemma new_descriptor_loop_eq:
  "new_descriptor_loop p i = map_option (\<lambda>j. (j, set_slot p j ((get_slot p j)\<lparr>in_use := True, fd := 2 + int j\<rparr>)))
     (find (\<lambda>j. \<not> in_use (get_slot p j)) [i..<Suc capacity])"
  by (induction p i rule: new_descriptor_loop.induct) (subst new_descriptor_loop.simps, simp add: upt_conv_Cons del: upt_Suc)

lemma get_descriptor_loop_eq:
  assumes "fds_ok p"
  shows "get_descriptor_loop p i = find (\<lambda>j. in_use (get_slot p j)) [i..<Suc capacity]"
  using assms
  by (induction p i rule: get_descriptor_loop.induct)
    (subst get_descriptor_loop.simps, auto simp: upt_conv_Cons fds_ok_def simp del: upt_Suc)

lemma get_first_descriptor:
  assumes "fds_ok p" "n \<ge> 2" "in_use (get_slot p 0)"
  shows "get_file_descriptor n p = Some 0"
  using assms by (simp add: get_file_descriptor_def get_descriptor_loop_eq upt_conv_Cons del: upt_Suc)

text \<open>A successful \<open>fd_open\<close> takes the first free slot.\<close>

lemma fd_open_ok:
  assumes ok: "fds_ok (fds s)" and o: "fd_open name s = Some (n, s')" "n \<noteq> -1"
  obtains i f where "i \<le> capacity" "n = 2 + int i" "f \<noteq> 0" "filesys_open name (pfs s) = Some (f, pfs s')" "\<not> in_use (get_slot (fds s) i)"
    "\<And>j. j < i \<Longrightarrow> in_use (get_slot (fds s) j)" "fds s' = set_slot (fds s) i \<lparr>in_use = True, fd = n, file_ptr = f\<rparr>" "fds_ok (fds s')"
proof (cases "find (\<lambda>j. \<not> in_use (get_slot (fds s) j)) [0..<Suc capacity]")
  case None
  then show thesis using o by (simp add: fd_open_def get_new_file_descriptor_def new_descriptor_loop_eq del: upt_Suc)
next
  case (Some i)
  then have i: "i \<le> capacity" "\<not> in_use (get_slot (fds s) i)" "\<And>j. j < i \<Longrightarrow> in_use (get_slot (fds s) j)"
    by (auto simp: find_Some_iff less_Suc_eq_le nth_append split: if_splits)
  let ?p = "set_slot (fds s) i ((get_slot (fds s) i)\<lparr>in_use := True, fd := 2 + int i\<rparr>)"
  have l: "length (slots (fds s)) = capacity" using ok by (simp add: fds_ok_def)
  have g: "get_slot ?p i = (get_slot (fds s) i)\<lparr>in_use := True, fd := 2 + int i\<rparr>" using get_set_slot [OF l i(1) i(1)] by simp
  have ss: "set_slot (set_slot q i a) i b = set_slot q i b" for q a b by (simp add: set_slot_def)
  obtain f k where fk: "filesys_open name (pfs s) = Some (f, k)"
    using o Some by (auto simp: fd_open_def get_new_file_descriptor_def new_descriptor_loop_eq simp del: upt_Suc split: bind_splits)
  have f0: "f \<noteq> 0" using o Some fk by (auto simp: fd_open_def get_new_file_descriptor_def new_descriptor_loop_eq Let_def simp del: upt_Suc split: if_splits)
  have e: "(get_slot (fds s) i)\<lparr>in_use := True, fd := 2 + int i, file_ptr := f\<rparr> = \<lparr>in_use = True, fd = 2 + int i, file_ptr = f\<rparr>"
    by (cases "get_slot (fds s) i") simp
  have r: "n = 2 + int i" "s' = s\<lparr>fds := set_slot (fds s) i \<lparr>in_use = True, fd = 2 + int i, file_ptr = f\<rparr>, pfs := k\<rparr>"
    using o(1) Some fk f0 g ss e get_set_slot [OF l i(1) i(1)]
    by (auto simp: fd_open_def get_new_file_descriptor_def new_descriptor_loop_eq Let_def simp del: upt_Suc)
  show thesis using that [OF i(1) r(1) f0 _ i(2,3)] r fk fds_ok_set [OF ok i(1), of "\<lparr>in_use = True, fd = 2 + int i, file_ptr = f\<rparr>"] by simp
qed

text \<open>The keyboard.\<close>

lemma read_keys_eq:
  "read_keys i n s =
     (let k = length (takeWhile (\<lambda>c. c \<noteq> 10) (map (\<lambda>j. keys s (key_pos s + j)) [0..<n])) in
      if k < n then (i + k, map (\<lambda>j. keys s (key_pos s + j)) [0..<Suc k], s\<lparr>key_pos := key_pos s + Suc k\<rparr>)
      else (i + n, map (\<lambda>j. keys s (key_pos s + j)) [0..<n], s\<lparr>key_pos := key_pos s + n\<rparr>))"
proof (induction i n s rule: read_keys.induct)
  case (2 i n s)
  have u: "map (\<lambda>j. keys s (key_pos s + j)) [0..<Suc m] = keys s (key_pos s) # map (\<lambda>j. keys s (Suc (key_pos s) + j)) [0..<m]" for m
    by (simp add: upt_conv_Cons map_Suc_upt [symmetric] comp_def del: upt_Suc)
  show ?case
  proof (cases "keys s (key_pos s) = 10")
    case True
    then show ?thesis unfolding u by (simp add: Let_def)
  next
    case False
    then show ?thesis using 2 [OF refl refl False] unfolding u by (simp add: Let_def u)
  qed
qed simp

lemma sint_negative:
  fixes x :: u32
  assumes "x \<ge> 0x80000000"
  shows "sint x < 0"
proof -
  have "2 ^ 31 \<le> uint x" using assms by (simp add: word_le_def)
  moreover have "uint x < 2 ^ 32" using uint_lt2p [of x] by simp
  ultimately have "uint x div 2 ^ 31 = 1" by simp
  then have "bit (uint x) 31" by (simp add: bit_iff_odd)
  moreover have "sint x = signed_take_bit 31 (uint x)" by (simp add: sint_uint)
  ultimately show ?thesis by simp
qed

lemma takeWhile_short: "length (takeWhile P xs) < length xs \<longleftrightarrow> \<not> (\<forall>x \<in> set xs. P x)"
  by (induction xs) auto

subsection \<open>Properties\<close>

text \<open>
  C33: After fd_open returned a descriptor above 2, reading, writing, asking the size of and closing
  this descriptor act on the file of descriptor 2, because get_file_descriptor returns the first
  descriptor in use.
\<close>

theorem fd_open_wrong_file:
  assumes ok: "fds_ok (fds s)" and o: "fd_open name s = Some (n, s')" and n: "n > 2"
  shows "\<exists>f. filesys_open name (pfs s) = Some (f, pfs s') \<and> get_slot (fds s') (nat n - 2) = \<lparr>in_use = True, fd = n, file_ptr = f\<rparr> \<and> fds_ok (fds s') \<and>
    get_slot (fds s') 0 = get_slot (fds s) 0 \<and>
    fd_filesize n s' = file_length (file_ptr (get_slot (fds s) 0)) (pfs s') \<and>
    (\<forall>buffer sz. buffer \<noteq> NULL \<longrightarrow> fd_read n buffer sz s' = do {
       (bs, k) \<leftarrow> file_read (file_ptr (get_slot (fds s) 0)) (sint sz) (pfs s');
       Some (int (length bs), bs, s'\<lparr>pfs := k\<rparr>) }) \<and>
    (\<forall>buffer bs sz. buffer \<noteq> NULL \<longrightarrow> fd_write n buffer bs sz s' = do {
       (r, k) \<leftarrow> file_write (file_ptr (get_slot (fds s) 0)) bs (sint sz) (pfs s');
       Some (int r, s'\<lparr>pfs := k\<rparr>) }) \<and>
    fd_close n s' = fd_close 2 s'"
proof -
  have n1: "n \<noteq> -1" using n by simp
  obtain i f where i: "i \<le> capacity" "n = 2 + int i" "f \<noteq> 0" "filesys_open name (pfs s) = Some (f, pfs s')" "\<And>j. j < i \<Longrightarrow> in_use (get_slot (fds s) j)"
    "fds s' = set_slot (fds s) i \<lparr>in_use = True, fd = n, file_ptr = f\<rparr>" "fds_ok (fds s')"
    by (rule fd_open_ok [OF ok o n1]) blast
  have l: "length (slots (fds s)) = capacity" using ok by (simp add: fds_ok_def)
  have i0: "0 < i" "nat n - 2 = i" using n i(2) by simp_all
  have g: "get_slot (fds s') 0 = get_slot (fds s) 0" "get_slot (fds s') i = \<lparr>in_use = True, fd = n, file_ptr = f\<rparr>"
    using get_set_slot [OF l i(1)] i0 i(1,6) by simp_all
  have u: "in_use (get_slot (fds s') 0)" using g i(5) i0 by simp
  have d: "get_file_descriptor m (fds s') = Some 0" if "m \<ge> 2" for m by (rule get_first_descriptor [OF i(7) that u])
  show ?thesis
    using n i g i0 d [of n] d [of 2] by (intro exI [of _ f]) (simp add: fd_filesize_def fd_read_def fd_write_def fd_close_def)
qed

text \<open>
  C38: With all 341 descriptors of the page in use, fd_open does not fail: it uses the slot at index
  341, whose number and file pointer lie in the following page.
\<close>

theorem fd_open_overruns_page:
  assumes "length (slots (fds s)) = capacity" "\<forall>i < capacity. in_use (slots (fds s) ! i)" "\<not> edge_in_use (fds s)"
    "filesys_open name (pfs s) = Some (f, k)" "f \<noteq> 0"
  shows "\<exists>s'. fd_open name s = Some (343, s') \<and> slots (fds s') = slots (fds s) \<and> edge_in_use (fds s') \<and> beyond (fds s') = (343, f)"
proof -
  have c: "capacity = 341" by (simp add: capacity_def)
  have "find (\<lambda>j. \<not> in_use (get_slot (fds s) j)) [0..<Suc capacity] = Some capacity"
  proof -
    have "find (\<lambda>j. \<not> in_use (get_slot (fds s) j)) [0..<capacity] = None"
      using assms(1,2) by (auto simp: find_None_iff get_slot_def)
    moreover have "find P (xs @ [y]) = Some y" if "find P xs = None" "P y" for P and xs :: "nat list" and y using that by (induction xs) (auto split: if_splits)
    ultimately show ?thesis using assms(3) by (simp add: get_slot_def)
  qed
  then show ?thesis using assms(4,5)
    by (simp add: fd_open_def get_new_file_descriptor_def new_descriptor_loop_eq Let_def set_slot_def get_slot_def c del: upt_Suc)
qed

text \<open>
  C37: fd_seek on an open descriptor with a position of 2^31 or more fails an assertion and stops
  the kernel, and so does fd_create with such a size on a mounted file system with a free sector
  when every malloc succeeds.
\<close>

theorem large_sizes_panic:
  "(get_file_descriptor n (fds s) \<noteq> None \<and> position \<ge> 0x80000000 \<longrightarrow> fd_seek n position s = None) \<and>
   (mounted (pfs s) \<and> memory_ok (pfs s) \<and> has_free_run (pfs s) 1 \<and> initial_size \<ge> 0x80000000 \<longrightarrow> fd_create garbage name initial_size s = None)"
proof (intro conjI impI)
  show "fd_seek n position s = None" if a: "get_file_descriptor n (fds s) \<noteq> None \<and> position \<ge> 0x80000000"
    using a sint_negative [of position] by (auto simp: fd_seek_def file_seek_def)
  show "fd_create garbage name initial_size s = None"
    if a: "mounted (pfs s) \<and> memory_ok (pfs s) \<and> has_free_run (pfs s) 1 \<and> initial_size \<ge> 0x80000000"
  proof -
    have m: "mounted (pfs s)" "memory_ok (pfs s)" using a by simp_all
    obtain d s1 where o: "dir_open_root (pfs s) = Some (d, s1)" "opened (pfs s) d s1" by (rule dir_open_root_ok [OF m])
    have ok: "fs_ok s1" "malloc_ok s1 (allocs s1)" using opened_facts(1) [OF m(1) o(2)] m o(2) by (simp_all add: memory_ok_def opened_def)
    show ?thesis using ok
    proof (cases rule: allocate_sector [of s1])
      case full
      then show ?thesis using a o(2) by (simp add: has_free_run_def opened_def)
    next
      case (got sec s2)
      then show ?thesis
        using o a sint_negative [of initial_size] by (simp add: fd_create_def filesys_create_def inode_create_def opened_def)
    qed
  qed
qed

text \<open>
  C40: fd_read from the keyboard stores the characters up to and including the first newline, at
  most size; it returns one more than the number of characters before the newline, so one more than
  it stored when size characters came without a newline.
\<close>

theorem fd_read_console:
  fixes s :: proc
  assumes "buffer \<noteq> NULL" "unat sz < 2 ^ 31 - 1"
  defines "typed \<equiv> map (\<lambda>j. keys s (key_pos s + j)) [0..<unat sz]"
  defines "k \<equiv> length (takeWhile (\<lambda>c. c \<noteq> 10) typed)"
  shows "\<exists>bs. fd_read 0 buffer sz s = Some (int k + 1, bs, s\<lparr>key_pos := key_pos s + length bs\<rparr>) \<and> bs = take (k + 1) typed \<and>
    length bs \<le> unat sz \<and> (length bs = k + 1 \<longleftrightarrow> 10 \<in> set typed)"
proof -
  have k: "k < unat sz \<longleftrightarrow> 10 \<in> set typed" using takeWhile_short [of "\<lambda>c. c \<noteq> 10" typed] by (auto simp: k_def typed_def)
  have le: "k \<le> unat sz" using length_takeWhile_le [of "\<lambda>c. c \<noteq> 10" typed] by (simp add: k_def typed_def)
  have w: "wrap32 (int m + 1) = int m + 1" if "m \<le> unat sz" for m using that assms(2) by (intro wrap32_id) simp_all
  have t: "map (\<lambda>j. keys s (key_pos s + j)) [0..<Suc k] = take (k + 1) typed" if "k < unat sz"
    using that by (simp add: typed_def take_map del: upt_Suc)
  have r: "fd_read 0 buffer sz s =
      (if k < unat sz then Some (int k + 1, take (k + 1) typed, s\<lparr>key_pos := key_pos s + Suc k\<rparr>)
       else Some (int (unat sz) + 1, typed, s\<lparr>key_pos := key_pos s + unat sz\<rparr>))"
    using assms(1) w [of k] w [of "unat sz"] le t
    by (simp add: fd_read_def read_keys_eq Let_def k_def [symmetric] typed_def [symmetric] del: upt_Suc)
  have l: "length typed = unat sz" by (simp add: typed_def)
  show ?thesis
  proof (cases "k < unat sz")
    case True
    then show ?thesis using r k l by (intro exI [of _ "take (k + 1) typed"]) simp
  next
    case False
    then have "k = unat sz" using le by simp
    then show ?thesis using r k l by (intro exI [of _ "take (k + 1) typed"]) simp
  qed
qed

text \<open>A process with one open file on the disk that names the file \<open>a\<close>.\<close>

definition sample_proc :: proc where
  "sample_proc = \<lparr>pvm = sample_pd_vm, pagedir = 0xC0103000, file_descriptor_page = 0xC0101000,
     fds = \<lparr>slots = (replicate capacity no_descriptor)[0 := \<lparr>in_use = True, fd = 2, file_ptr = 4\<rparr>], edge_in_use = False, beyond = (0, 0)\<rparr>,
     process_executable = 0, pfs = sample_mounted_fs, keys = (\<lambda>n. if n = 2 then 10 else 65), key_pos = 0, console = []\<rparr>"

lemma sample_fds:
  "fds_ok (fds sample_proc)" "in_use (get_slot (fds sample_proc) 0)" "get_slot (fds sample_proc) 1 = no_descriptor"
  by (auto simp: fds_ok_def sample_proc_def get_slot_def nth_list_update no_descriptor_def capacity_def)

lemma sample_open_a: "\<exists>f k. filesys_open [97] sample_mounted_fs = Some (f, k) \<and> f \<noteq> 0"
proof -
  have "used_sector sample_mounted_fs 5" using sample_used(2) by (simp add: used_sector_def sample_mounted_fs_def)
  moreover have "sector (inodes sample_mounted_fs p) \<noteq> 5" if "p \<in> set (open_inodes sample_mounted_fs)" for p
    using that by (simp add: sample_mounted_fs_def sample_fm_fs_def)
  ultimately show ?thesis
    using filesys_open_new [OF sample_mounted sample_memory sample_root_map(1)] by (auto simp: ROOT_DIR_SECTOR_def)
qed

theorem fd_open_wrong_file_witness:
  "\<exists>s' f. fd_open [97] sample_proc = Some (3, s') \<and> get_slot (fds s') 1 = \<lparr>in_use = True, fd = 3, file_ptr = f\<rparr> \<and>
     fd_filesize 3 s' = file_length 4 (pfs s') \<and> fd_close 3 s' = fd_close 2 s'"
proof -
  obtain f k where o: "filesys_open [97] sample_mounted_fs = Some (f, k)" "f \<noteq> 0" using sample_open_a by blast
  have "find (\<lambda>j. \<not> in_use (get_slot (fds sample_proc) j)) [0..<Suc capacity] = Some 1"
  proof -
    have "0 < capacity" by (simp add: capacity_def)
    then have "[0..<Suc capacity] = 0 # 1 # [Suc 1..<Suc capacity]" by (simp add: upt_conv_Cons del: upt_Suc)
    then show ?thesis using sample_fds(2,3) by (simp add: no_descriptor_def)
  qed
  then obtain s' where s': "fd_open [97] sample_proc = Some (3, s')"
    using o sample_fds by (simp add: fd_open_def get_new_file_descriptor_def new_descriptor_loop_eq Let_def get_set_slot fds_ok_def
      sample_proc_def [THEN arg_cong, of pfs, simplified] capacity_def del: upt_Suc)
  then show ?thesis using fd_open_wrong_file [OF sample_fds(1) s'] by (auto simp: sample_proc_def get_slot_def capacity_def)
qed

text \<open>The same process with every slot of the page in use.\<close>

definition sample_full_proc :: proc where
  "sample_full_proc = sample_proc\<lparr>fds := \<lparr>slots = map (\<lambda>i. \<lparr>in_use = True, fd = 2 + int i, file_ptr = 4\<rparr>) [0..<capacity],
     edge_in_use = False, beyond = (0, 0)\<rparr>\<rparr>"

theorem fd_open_overruns_page_witness:
  "\<exists>s' f. fd_open [97] sample_full_proc = Some (343, s') \<and> f \<noteq> 0 \<and> beyond (fds sample_full_proc) = (0, 0) \<and> beyond (fds s') = (343, f)"
proof -
  obtain f k where o: "filesys_open [97] sample_mounted_fs = Some (f, k)" "f \<noteq> 0" using sample_open_a by blast
  have "length (slots (fds sample_full_proc)) = capacity" "\<forall>i < capacity. in_use (slots (fds sample_full_proc) ! i)"
    "\<not> edge_in_use (fds sample_full_proc)" "filesys_open [97] (pfs sample_full_proc) = Some (f, k)"
    using o by (simp_all add: sample_full_proc_def sample_proc_def)
  from fd_open_overruns_page [OF this o(2)] show ?thesis using o(2) by (auto simp: sample_full_proc_def)
qed

theorem large_sizes_panic_witness:
  "fd_seek 2 0x80000000 sample_proc = None \<and> fd_create (replicate 20 0) [98] 0xFFFFFFFF sample_proc = None"
proof -
  have "get_file_descriptor 2 (fds sample_proc) = Some 0" by (rule get_first_descriptor [OF sample_fds(1) _ sample_fds(2)]) simp
  moreover have "has_free_run (pfs sample_proc) 1"
  proof -
    have "all_eq (bools (free_map sample_fm_fs)) 12 1 False" by (simp add: all_eq_def sample_fm_fs_def nth_bools bm_bit_def)
    then show ?thesis unfolding has_free_run_def first_fit_None
      by (auto simp: sample_proc_def sample_mounted_fs_def sample_fm_fs_def intro!: exI [of _ 12])
  qed
  moreover have "mounted (pfs sample_proc) \<and> memory_ok (pfs sample_proc)" using sample_mounted sample_memory by (simp add: sample_proc_def)
  ultimately show ?thesis
    using large_sizes_panic [of 2 sample_proc "0x80000000" "0xFFFFFFFF" "replicate 20 0" "[98]"] by simp
qed

theorem fd_read_console_witness:
  "(\<exists>s'. fd_read 0 0x8048000 5 sample_proc = Some (3, [65, 65, 10], s')) \<and> (\<exists>s'. fd_read 0 0x8048000 2 sample_proc = Some (3, [65, 65], s'))"
proof
  have k: "keys sample_proc = (\<lambda>n. if n = 2 then 10 else 65)" "key_pos sample_proc = 0" by (simp_all add: sample_proc_def)
  have u: "[0..<unat (5 :: u32)] = [0, 1, 2, 3, 4]" "[0..<unat (2 :: u32)] = [0, 1]" by (simp_all add: upt_rec)
  show "\<exists>s'. fd_read 0 0x8048000 5 sample_proc = Some (3, [65, 65, 10], s')"
    using fd_read_console [of "0x8048000" 5 sample_proc] unfolding k u by simp
  show "\<exists>s'. fd_read 0 0x8048000 2 sample_proc = Some (3, [65, 65], s')"
    using fd_read_console [of "0x8048000" 2 sample_proc] unfolding k u by simp
qed

end
