(* ===== verification/Syscall.thy ===== *)
theory Syscall
  imports Descriptor
begin

text \<open>
  System calls (\<open>userprog/syscall.c\<close>): the validation of user pointers and the dispatch of the handler.  The processor reads
  user memory through the page directory of the process; an access to a page that is not present is a page fault in the kernel,
  which \<open>exception.c\<close> turns into a panic (\<open>None\<close>).  The lemmas show that validation accepts exactly the mapped ranges and that no
  pointer a process passes makes the handler fault.
\<close>

subsection \<open>User memory\<close>

definition load_user :: "ptr \<Rightarrow> proc \<Rightarrow> u8 option" where
  "load_user a s =
     (if is_user_vaddr a then
        let pte = pte_of (pvm s) (pagedir s) a in
        if bit pte 0 then Some (vm_mem (pvm s) ((pte AND PTE_ADDR) + PHYS_BASE + pg_ofs a)) else None
      else Some (vm_mem (pvm s) a))"

text \<open>Writes also need the page to be writable: the kernel runs with write protection on.\<close>

definition store_user :: "ptr \<Rightarrow> u8 \<Rightarrow> proc \<Rightarrow> proc option" where
  "store_user a v s =
     (if is_user_vaddr a then
        let pte = pte_of (pvm s) (pagedir s) a in
        if bit pte 0 \<and> bit pte 1 then
          Some (s\<lparr>pvm := (pvm s)\<lparr>vm_mem := (vm_mem (pvm s))((pte AND PTE_ADDR) + PHYS_BASE + pg_ofs a := v)\<rparr>\<rparr>)
        else None
      else Some (s\<lparr>pvm := (pvm s)\<lparr>vm_mem := (vm_mem (pvm s))(a := v)\<rparr>\<rparr>))"

definition load_word :: "ptr \<Rightarrow> proc \<Rightarrow> u32 option" where
  "load_word a s = do {
     b0 \<leftarrow> load_user a s;
     b1 \<leftarrow> load_user (a + 1) s;
     b2 \<leftarrow> load_user (a + 2) s;
     b3 \<leftarrow> load_user (a + 3) s;
     Some (ucast b0 OR push_bit 8 (ucast b1) OR push_bit 16 (ucast b2) OR push_bit 24 (ucast b3))
   }"

fun load_bytes :: "ptr \<Rightarrow> nat \<Rightarrow> proc \<Rightarrow> u8 list option" where
  "load_bytes a 0 s = Some []"
| "load_bytes a (Suc n) s = do { b \<leftarrow> load_user a s; bs \<leftarrow> load_bytes (a + 1) n s; Some (b # bs) }"

fun store_bytes :: "ptr \<Rightarrow> u8 list \<Rightarrow> proc \<Rightarrow> proc option" where
  "store_bytes a [] s = Some s"
| "store_bytes a (b # bs) s = do { s \<leftarrow> store_user a b s; store_bytes (a + 1) bs s }"

text \<open>The characters of a string in user memory, as the callee reads them.\<close>

partial_function (option) user_string :: "ptr \<Rightarrow> proc \<Rightarrow> u8 list option" where
  "user_string a s = do {
     c \<leftarrow> load_user a s;
     if c = 0 then Some [] else do { cs \<leftarrow> user_string (a + 1) s; Some (c # cs) }
   }"

subsection \<open>Validation\<close>

text \<open>A validation returns \<open>True\<close>, or \<open>False\<close> when it calls \<open>thread_exit (-1)\<close> instead of returning.\<close>

partial_function (option) check_pages :: "ptr \<Rightarrow> ptr \<Rightarrow> bool \<Rightarrow> proc \<Rightarrow> bool option" where
  "check_pages current_user_page end_user_page check_writable s =
     (if current_user_page \<le> end_user_page then do {
        ok \<leftarrow> is_user_page_present (pagedir s) current_user_page check_writable (pvm s);
        if \<not> ok then Some False
        else check_pages (current_user_page + PGSIZE) end_user_page check_writable s
      } else Some True)"

definition check_valid_pointer :: "ptr \<Rightarrow> u32 \<Rightarrow> bool \<Rightarrow> proc \<Rightarrow> bool option" where
  "check_valid_pointer pointer sz check_writable s =
     (if pointer = NULL \<or> \<not> is_user_vaddr pointer \<or> sz > PHYS_BASE - pointer then Some False
      else check_pages (pg_round_down pointer) (pg_round_down (pointer + sz - 1)) check_writable s)"

partial_function (option) check_string_loop :: "ptr \<Rightarrow> ptr \<Rightarrow> ptr \<Rightarrow> proc \<Rightarrow> bool option" where
  "check_string_loop string last_page current_page s = do {
     ok \<leftarrow> (if last_page \<noteq> current_page then check_valid_pointer string 1 False s else Some True);
     if \<not> ok then Some False
     else do {
       c \<leftarrow> load_user string s;
       if c = 0 then Some True
       else check_string_loop (string + 1) current_page (pg_round_down (string + 1)) s
     }
   }"

definition check_valid_string :: "ptr \<Rightarrow> proc \<Rightarrow> bool option" where
  "check_valid_string pointer s =
     (if pointer = NULL then Some False
      else do {
        ok \<leftarrow> check_valid_pointer pointer 4 False s;
        if \<not> ok then Some False
        else do {
          string \<leftarrow> load_word pointer s;
          check_string_loop string 1 (pg_round_down string) s
        }
      })"

declare user_string.simps [code] check_pages.simps [code] check_string_loop.simps [code]

subsection \<open>The handler\<close>

text \<open>
  What the handler does: it returns to the process, with a new value of \<open>eax\<close> for the calls that have a result, or ends in a
  function that does not return, or calls one of the two process operations, which are not part of this development.
\<close>

datatype sys_result =
    Return "u32 option" proc
  | Thread_exit int proc
  | Power_off proc
  | Process_execute "u8 list" proc
  | Process_wait int proc

definition checked :: "bool option \<Rightarrow> proc \<Rightarrow> sys_result option \<Rightarrow> sys_result option" where
  "checked check s k = do { ok \<leftarrow> check; if ok then k else Some (Thread_exit (-1) s) }"

definition practice :: "int \<Rightarrow> int" where
  "practice i = wrap32 (i + 1)"

definition SYS_PRACTICE :: u32 where "SYS_PRACTICE = 0"
definition SYS_HALT :: u32 where "SYS_HALT = 1"
definition SYS_EXIT :: u32 where "SYS_EXIT = 2"
definition SYS_EXEC :: u32 where "SYS_EXEC = 3"
definition SYS_WAIT :: u32 where "SYS_WAIT = 4"
definition SYS_CREATE :: u32 where "SYS_CREATE = 5"
definition SYS_REMOVE :: u32 where "SYS_REMOVE = 6"
definition SYS_OPEN :: u32 where "SYS_OPEN = 7"
definition SYS_FILESIZE :: u32 where "SYS_FILESIZE = 8"
definition SYS_READ :: u32 where "SYS_READ = 9"
definition SYS_WRITE :: u32 where "SYS_WRITE = 10"
definition SYS_SEEK :: u32 where "SYS_SEEK = 11"
definition SYS_TELL :: u32 where "SYS_TELL = 12"
definition SYS_CLOSE :: u32 where "SYS_CLOSE = 13"

text \<open>The string that an argument points to.\<close>

definition string_arg :: "ptr \<Rightarrow> proc \<Rightarrow> u8 list option" where
  "string_arg p s = do { a \<leftarrow> load_word p s; user_string a s }"

text \<open>\<open>args\<close> is the stack pointer of the process, \<open>garbage\<close> the stack memory of \<open>dir_add\<close>.\<close>

definition syscall_handler :: "dir_entry \<Rightarrow> ptr \<Rightarrow> proc \<Rightarrow> sys_result option" where
  "syscall_handler garbage args s =
     checked (check_valid_pointer args 4 False s) s (do {
       number \<leftarrow> load_word args s;
       if number = SYS_PRACTICE then
         checked (check_valid_pointer (args + 4) 4 False s) s (do {
           i \<leftarrow> load_word (args + 4) s;
           Some (Return (Some (word_of_int (practice (sint i)))) s) })
       else if number = SYS_HALT then Some (Power_off s)
       else if number = SYS_EXIT then
         checked (check_valid_pointer (args + 4) 4 False s) s (do {
           status \<leftarrow> load_word (args + 4) s;
           Some (Thread_exit (sint status) s) })
       else if number = SYS_EXEC then
         checked (check_valid_string (args + 4) s) s (do {
           name \<leftarrow> string_arg (args + 4) s;
           Some (Process_execute name s) })
       else if number = SYS_WAIT then
         checked (check_valid_pointer (args + 4) 4 False s) s (do {
           pid \<leftarrow> load_word (args + 4) s;
           Some (Process_wait (sint pid) s) })
       else if number = SYS_CREATE then
         checked (check_valid_string (args + 4) s) s (
         checked (check_valid_pointer (args + 8) 4 False s) s (do {
           name \<leftarrow> string_arg (args + 4) s;
           initial_size \<leftarrow> load_word (args + 8) s;
           (r, s) \<leftarrow> fd_create garbage name initial_size s;
           Some (Return (Some (of_bool r)) s) }))
       else if number = SYS_REMOVE then
         checked (check_valid_string (args + 4) s) s (do {
           name \<leftarrow> string_arg (args + 4) s;
           (r, s) \<leftarrow> fd_remove name s;
           Some (Return (Some (of_bool r)) s) })
       else if number = SYS_OPEN then
         checked (check_valid_string (args + 4) s) s (do {
           name \<leftarrow> string_arg (args + 4) s;
           (r, s) \<leftarrow> fd_open name s;
           Some (Return (Some (word_of_int r)) s) })
       else if number = SYS_FILESIZE then
         checked (check_valid_pointer (args + 4) 4 False s) s (do {
           n \<leftarrow> load_word (args + 4) s;
           r \<leftarrow> fd_filesize (sint n) s;
           Some (Return (Some (word_of_int r)) s) })
       else if number = SYS_READ then
         checked (check_valid_pointer (args + 4) 4 False s) s (
         checked (check_valid_pointer (args + 8) 4 False s) s (
         checked (check_valid_pointer (args + 12) 4 False s) s (do {
           n \<leftarrow> load_word (args + 4) s;
           buffer \<leftarrow> load_word (args + 8) s;
           sz \<leftarrow> load_word (args + 12) s;
           checked (check_valid_pointer buffer sz True s) s (do {
             (r, bs, s) \<leftarrow> fd_read (sint n) buffer sz s;
             s \<leftarrow> store_bytes buffer bs s;
             Some (Return (Some (word_of_int r)) s) }) })))
       else if number = SYS_WRITE then
         checked (check_valid_pointer (args + 4) 4 False s) s (
         checked (check_valid_pointer (args + 8) 4 False s) s (
         checked (check_valid_pointer (args + 12) 4 False s) s (do {
           n \<leftarrow> load_word (args + 4) s;
           buffer \<leftarrow> load_word (args + 8) s;
           sz \<leftarrow> load_word (args + 12) s;
           checked (check_valid_pointer buffer sz False s) s (do {
             bs \<leftarrow> load_bytes buffer (unat sz) s;
             (r, s) \<leftarrow> fd_write (sint n) buffer bs sz s;
             Some (Return (Some (word_of_int r)) s) }) })))
       else if number = SYS_SEEK then
         checked (check_valid_pointer (args + 4) 4 False s) s (
         checked (check_valid_pointer (args + 8) 4 False s) s (do {
           n \<leftarrow> load_word (args + 4) s;
           position \<leftarrow> load_word (args + 8) s;
           s \<leftarrow> fd_seek (sint n) position s;
           Some (Return None s) }))
       else if number = SYS_TELL then
         checked (check_valid_pointer (args + 4) 4 False s) s (do {
           n \<leftarrow> load_word (args + 4) s;
           r \<leftarrow> fd_tell (sint n) s;
           Some (Return (Some r) s) })
       else if number = SYS_CLOSE then
         checked (check_valid_pointer (args + 4) 4 False s) s (do {
           n \<leftarrow> load_word (args + 4) s;
           s \<leftarrow> fd_close (sint n) s;
           Some (Return None s) })
       else Some (Thread_exit (-1) s) })"

subsection \<open>Mapped addresses\<close>

definition mapped :: "bool \<Rightarrow> proc \<Rightarrow> ptr \<Rightarrow> bool" where
  "mapped w s a \<longleftrightarrow> is_user_vaddr a \<and> bit (pte_of (pvm s) (pagedir s) a) 0 \<and> (w \<longrightarrow> bit (pte_of (pvm s) (pagedir s) a) 1)"

abbreviation vm_proc_ok :: "proc \<Rightarrow> bool" where
  "vm_proc_ok s \<equiv> pd_ok (pvm s) (pagedir s)"

lemma user_vaddr_nat: "is_user_vaddr a \<longleftrightarrow> unat a < 0xC0000000"
  by (simp add: is_user_vaddr_def PHYS_BASE_def word_less_nat_alt)

lemma page_index: "4096 * q \<le> x \<Longrightarrow> x < 4096 * q + 4096 \<Longrightarrow> x div 4096 = (q :: nat)"
  by (simp add: div_nat_eqI)

lemma user_vaddr_page: "is_user_vaddr a \<longleftrightarrow> unat a div 4096 < 786432"
  by (simp add: user_vaddr_nat div_less_iff_less_mult)

lemma mapped_page:
  assumes "unat a div 4096 = unat b div 4096"
  shows "mapped w s a = mapped w s b"
proof -
  have "pg_no a = pg_no b" using assms by (simp add: word_unat_eq_iff unat_pg_no)
  moreover have "is_user_vaddr a = is_user_vaddr b" unfolding user_vaddr_page using assms by simp
  ultimately show ?thesis unfolding mapped_def using pte_of_page by metis
qed

lemma mapped_load: "mapped w s a \<Longrightarrow> \<exists>b. load_user a s = Some b"
  by (simp add: mapped_def load_user_def Let_def)

lemma check_pages_eq:
  assumes ok: "vm_proc_ok s" and cur: "unat cur = 4096 * c" and e: "unat e = 4096 * q" "q < 786432" and le: "c \<le> q + 1"
  shows "check_pages cur e w s = Some (\<forall>a. c \<le> unat a div 4096 \<and> unat a div 4096 \<le> q \<longrightarrow> mapped w s a)"
  using cur le
proof (induction "q + 1 - c" arbitrary: c cur)
  case 0
  then have "\<not> cur \<le> e" using e(1) by (simp add: word_le_nat_alt)
  moreover have "\<not> (c \<le> x \<and> x \<le> q)" for x using 0 by simp
  ultimately show ?case by (subst check_pages.simps) auto
next
  case (Suc n)
  then have c: "c \<le> q" by simp
  have le: "cur \<le> e" using c Suc.prems(1) e(1) by (simp add: word_le_nat_alt)
  have cu: "is_user_vaddr cur" using c e(2) Suc.prems(1) by (simp add: user_vaddr_page)
  have p: "is_user_page_present (pagedir s) cur w (pvm s) = Some (mapped w s cur)"
    using is_user_page_present_eq [OF ok cu] cu by (simp add: mapped_def)
  have nx: "unat (cur + PGSIZE) = 4096 * Suc c" using c e(2) Suc.prems(1) by (simp add: PGSIZE_def unat_plus_no_wrap)
  have same: "mapped w s a = mapped w s cur" if "unat a div 4096 = c" for a
    by (rule mapped_page) (use that Suc.prems(1) in simp)
  have split: "(\<forall>a. c \<le> unat a div 4096 \<and> unat a div 4096 \<le> q \<longrightarrow> mapped w s a) \<longleftrightarrow>
    mapped w s cur \<and> (\<forall>a. Suc c \<le> unat a div 4096 \<and> unat a div 4096 \<le> q \<longrightarrow> mapped w s a)" (is "?l \<longleftrightarrow> ?r")
  proof
    assume ?l
    moreover have "unat cur div 4096 = c" using Suc.prems(1) by simp
    ultimately show ?r using c by auto
  next
    assume r: ?r
    show ?l
    proof (intro allI impI)
      fix a :: ptr assume "c \<le> unat a div 4096 \<and> unat a div 4096 \<le> q"
      then show "mapped w s a" using r same [of a] by (cases "unat a div 4096 = c") auto
    qed
  qed
  have "check_pages (cur + PGSIZE) e w s = Some (\<forall>a. Suc c \<le> unat a div 4096 \<and> unat a div 4096 \<le> q \<longrightarrow> mapped w s a)"
    by (rule Suc.hyps(1) [OF _ nx]) (use Suc.hyps(2) c in simp_all)
  then show ?case unfolding split using le p by (subst check_pages.simps) simp
qed

lemma check_valid_pointer_eq:
  assumes ok: "vm_proc_ok s" and n: "n \<noteq> 0"
  shows "check_valid_pointer p n w s =
    Some (p \<noteq> NULL \<and> unat p + unat n \<le> 0xC0000000 \<and> (\<forall>a. unat p \<le> unat a \<and> unat a < unat p + unat n \<longrightarrow> mapped w s a))"
proof (cases "p = NULL \<or> \<not> is_user_vaddr p \<or> n > PHYS_BASE - p")
  case True
  have "\<not> (p \<noteq> NULL \<and> unat p + unat n \<le> 0xC0000000)"
  proof
    assume a: "p \<noteq> NULL \<and> unat p + unat n \<le> 0xC0000000"
    have n1: "0 < unat n" using n by (metis neq0_conv unat_eq_0)
    then have u: "is_user_vaddr p" using a by (simp add: user_vaddr_nat)
    then have "unat (PHYS_BASE - p) = 0xC0000000 - unat p" by (simp add: user_vaddr_nat PHYS_BASE_def word_le_nat_alt unat_sub)
    then show False using True a u by (auto simp: word_less_nat_alt)
  qed
  then show ?thesis using True by (auto simp: check_valid_pointer_def)
next
  case False
  then have u: "unat p < 0xC0000000" and p0: "p \<noteq> NULL" by (simp_all add: user_vaddr_nat)
  then have "unat (PHYS_BASE - p) = 0xC0000000 - unat p" by (simp add: PHYS_BASE_def word_le_nat_alt unat_sub)
  moreover have "unat n \<le> unat (PHYS_BASE - p)" using False by (simp add: word_less_nat_alt)
  ultimately have le: "unat p + unat n \<le> 0xC0000000" using u by linarith
  have n1: "0 < unat n" using n by (metis neq0_conv unat_eq_0)
  have l: "unat (p + n - 1) = unat p + unat n - 1"
  proof -
    have "unat (p + n) = unat p + unat n" using le by (simp add: unat_plus_no_wrap)
    moreover from this have "1 \<le> p + n" using n1 by (simp add: word_le_nat_alt)
    ultimately show ?thesis by (simp add: unat_sub)
  qed
  let ?x = "unat p" and ?y = "unat p + unat n - 1"
  have c: "unat (pg_round_down p) = 4096 * (?x div 4096)" "unat (pg_round_down (p + n - 1)) = 4096 * (?y div 4096)"
    by (simp_all add: unat_pg_round_down l minus_mod_eq_mult_div)
  have q: "?y div 4096 < 786432" using le n1 by (simp add: div_less_iff_less_mult)
  have ord: "?x div 4096 \<le> ?y div 4096" using n1 by (intro div_le_mono) simp
  have "check_valid_pointer p n w s = Some (\<forall>a. ?x div 4096 \<le> unat a div 4096 \<and> unat a div 4096 \<le> ?y div 4096 \<longrightarrow> mapped w s a)"
    using False check_pages_eq [OF ok c(1,2) q, of w] ord by (simp add: check_valid_pointer_def)
  moreover have "(\<forall>a. ?x div 4096 \<le> unat a div 4096 \<and> unat a div 4096 \<le> ?y div 4096 \<longrightarrow> mapped w s a) \<longleftrightarrow>
      (\<forall>a. unat p \<le> unat a \<and> unat a < unat p + unat n \<longrightarrow> mapped w s a)" (is "?l \<longleftrightarrow> ?r")
  proof
    assume l: ?l
    show ?r
    proof (intro allI impI)
      fix a :: ptr assume "unat p \<le> unat a \<and> unat a < unat p + unat n"
      then have "?x div 4096 \<le> unat a div 4096" "unat a div 4096 \<le> ?y div 4096" by (auto intro: div_le_mono)
      then show "mapped w s a" using l by blast
    qed
  next
    assume r: ?r
    show ?l
    proof (intro allI impI)
      fix a :: ptr assume a: "?x div 4096 \<le> unat a div 4096 \<and> unat a div 4096 \<le> ?y div 4096"
      have mp: "mapped w s p" using r n1 by auto
      have ml: "mapped w s (p + n - 1)" using r n1 l by auto
      consider "unat a < unat p" | "unat p \<le> unat a" "unat a < unat p + unat n" | "?y \<le> unat a" using n1 by linarith
      then show "mapped w s a"
      proof cases
        case 1
        then have "unat a div 4096 \<le> ?x div 4096" by (intro div_le_mono) simp
        then show ?thesis using a mapped_page [of a p] mp by simp
      next
        case 2
        then show ?thesis using r by simp
      next
        case 3
        then have "?y div 4096 \<le> unat a div 4096" by (rule div_le_mono)
        then show ?thesis using a mapped_page [of a "p + n - 1"] ml l by simp
      qed
    qed
  qed
  ultimately show ?thesis using p0 le by simp
qed

subsection \<open>Reading validated memory\<close>

lemma check_valid_pointer_total: "vm_proc_ok s \<Longrightarrow> n \<noteq> 0 \<Longrightarrow> \<exists>b. check_valid_pointer p n w s = Some b"
  using check_valid_pointer_eq by simp

lemma checked_range:
  assumes "vm_proc_ok s" "check_valid_pointer p n w s = Some True" "k < unat n"
  shows "mapped w s (p + of_nat k)"
proof -
  have n: "n \<noteq> 0" using assms(3) by auto
  have r: "unat p + unat n \<le> 0xC0000000" "\<And>a. unat p \<le> unat a \<and> unat a < unat p + unat n \<Longrightarrow> mapped w s a"
    using check_valid_pointer_eq [OF assms(1) n, of p w] assms(2) by auto
  have "unat (of_nat k :: ptr) = k" using assms(3) unat_lt_32 [of n] by (simp add: unat_of_nat)
  then have "unat (p + of_nat k) = unat p + k" using r(1) assms(3) by (simp add: unat_plus_no_wrap)
  then show ?thesis using r(2) assms(3) by simp
qed

lemma load_word_ok:
  assumes "vm_proc_ok s" "check_valid_pointer p 4 w s = Some True"
  obtains v where "load_word p s = Some v"
proof -
  have "\<exists>b. load_user (p + of_nat k) s = Some b" if "k < 4" for k
    using mapped_load [OF checked_range [OF assms, of k]] that by simp
  from this [of 0] this [of 1] this [of 2] this [of 3] show thesis using that by (auto simp: load_word_def)
qed

lemma load_bytes_ok:
  assumes "\<And>k. k < n \<Longrightarrow> mapped w s (p + of_nat k)"
  shows "\<exists>bs. load_bytes p n s = Some bs"
  using assms
proof (induction n arbitrary: p)
  case (Suc n)
  obtain b where b: "load_user p s = Some b" using mapped_load [OF Suc.prems [of 0]] by auto
  have "mapped w s (p + 1 + of_nat k)" if "k < n" for k using Suc.prems [of "Suc k"] that by (simp add: add.assoc)
  from Suc.IH [OF this] b show ?case by auto
qed simp

text \<open>The loop over the characters: it ends, and a string it accepts can be read.\<close>

lemma check_string_loop_ok:
  assumes ok: "vm_proc_ok s" and same: "last_page = pg_round_down string \<longrightarrow> mapped False s string"
  shows "\<exists>b. check_string_loop string last_page (pg_round_down string) s = Some b \<and> (b \<longrightarrow> (\<exists>cs. user_string string s = Some cs))"
  using same
proof (induction "2 ^ 32 - unat string" arbitrary: string last_page rule: less_induct)
  case less
  obtain v where v: "check_valid_pointer string 1 False s = Some v" "v \<longrightarrow> mapped False s string"
    using check_valid_pointer_eq [OF ok, of 1 string False] by auto
  define ok1 where "ok1 = (if last_page \<noteq> pg_round_down string then v else True)"
  have c: "(if last_page \<noteq> pg_round_down string then check_valid_pointer string 1 False s else Some True) = Some ok1"
    using v(1) by (simp add: ok1_def)
  show ?case
  proof (cases ok1)
    case False
    then show ?thesis using c by (intro exI [of _ False]) (subst check_string_loop.simps, simp)
  next
    case True
    then have mp: "mapped False s string" using v(2) less.prems by (auto simp: ok1_def split: if_splits)
    then obtain x where x: "load_user string s = Some x" using mapped_load by blast
    show ?thesis
    proof (cases "x = 0")
      case z: True
      then show ?thesis using c True x by (intro exI [of _ True]) (subst check_string_loop.simps, subst user_string.simps, simp)
    next
      case nz: False
      have u: "unat string < 0xC0000000" using mp by (simp add: mapped_def user_vaddr_nat)
      then have nx: "unat (string + 1) = unat string + 1" by (simp add: unat_plus_no_wrap)
      have lt: "2 ^ 32 - unat (string + 1) < 2 ^ 32 - unat string" using nx u by simp
      have sm: "pg_round_down string = pg_round_down (string + 1) \<longrightarrow> mapped False s (string + 1)"
      proof
        assume "pg_round_down string = pg_round_down (string + 1)"
        then have "unat (pg_round_down string) div 4096 = unat (pg_round_down (string + 1)) div 4096" by simp
        then have "unat string div 4096 = unat (string + 1) div 4096" by (simp add: unat_pg_round_down minus_mod_eq_mult_div)
        then show "mapped False s (string + 1)" using mapped_page mp by metis
      qed
      from less.hyps [OF lt sm] show ?thesis
        using c True x nz by (subst (1) check_string_loop.simps, subst (1) user_string.simps) auto
    qed
  qed
qed

lemma check_valid_string_ok:
  assumes "vm_proc_ok s"
  shows "\<exists>b. check_valid_string p s = Some b \<and> (b \<longrightarrow> (\<exists>cs. string_arg p s = Some cs))"
proof (cases "p = NULL")
  case False
  obtain v where v: "check_valid_pointer p 4 False s = Some v" using check_valid_pointer_total [OF assms, of 4 p False] by auto
  show ?thesis
  proof (cases v)
    case True
    obtain a where a: "load_word p s = Some a" using load_word_ok [OF assms] v True by metis
    have "(1 :: ptr) \<noteq> pg_round_down a"
    proof
      assume "1 = pg_round_down a"
      then have "pg_ofs 1 = 0" using pg_ofs_round_down [of a] by metis
      then show False by (simp add: pg_ofs_def PGMASK_def)
    qed
    then show ?thesis using check_string_loop_ok [OF assms, of 1 a] False v True a by (auto simp: check_valid_string_def string_arg_def)
  next
    case nv: False
    then show ?thesis using v False by (intro exI [of _ False]) (simp add: check_valid_string_def)
  qed
next
  case True
  then show ?thesis by (intro exI [of _ False]) (simp add: check_valid_string_def)
qed

subsection \<open>Writing validated memory\<close>

definition frame :: "proc \<Rightarrow> ptr \<Rightarrow> ptr" where
  "frame s a = (pte_of (pvm s) (pagedir s) a AND PTE_ADDR) + PHYS_BASE"

text \<open>The frames of the process are neither its page directory nor its page tables.\<close>

definition frames_apart :: "proc \<Rightarrow> bool" where
  "frames_apart s \<longleftrightarrow> (\<forall>a. mapped True s a \<longrightarrow> frame s a \<noteq> pagedir s \<and>
     (\<forall>i. unat i < 768 \<and> load32 (vm_mem (pvm s)) (slot (pagedir s) i) \<noteq> 0 \<longrightarrow>
        pde_get_pt (load32 (vm_mem (pvm s)) (slot (pagedir s) i)) \<noteq> Some (frame s a)))"

text \<open>Both states have the same translation.\<close>

definition same_map :: "proc \<Rightarrow> proc \<Rightarrow> bool" where
  "same_map s s' \<longleftrightarrow> pagedir s' = pagedir s \<and>
     (\<forall>i. unat i < 768 \<longrightarrow> load32 (vm_mem (pvm s')) (slot (pagedir s) i) = load32 (vm_mem (pvm s)) (slot (pagedir s) i)) \<and>
     (\<forall>a. is_user_vaddr a \<longrightarrow> pte_of (pvm s') (pagedir s) a = pte_of (pvm s) (pagedir s) a)"

lemma same_map_mapped: "same_map s s' \<Longrightarrow> mapped w s' a = mapped w s a"
  by (auto simp: same_map_def mapped_def)

lemma same_map_apart:
  assumes "same_map s s'" "frames_apart s"
  shows "frames_apart s'"
proof -
  have f: "frame s' a = frame s a" if "mapped True s a" for a using assms(1) that by (simp add: frame_def same_map_def mapped_def)
  show ?thesis using assms(2) f same_map_mapped [OF assms(1)] assms(1) by (auto simp: frames_apart_def same_map_def)
qed

lemma frame_aligned: "pg_ofs (frame s a) = 0"
proof -
  define x where "x = pte_of (pvm s) (pagedir s) a AND PTE_ADDR"
  have "take_bit 12 x = 0" unfolding x_def by (rule bit_word_eqI) (auto simp: PTE_ADDR_mask bit_simps)
  then have "unat x mod 4096 = 0" by (metis pg_ofs_take_bit unat_pg_ofs unsigned_0)
  then have "(unat x + 786432 * 4096) mod 4096 = 0" by (simp only: mod_mult_self1)
  then have "(unat x + 0xC0000000) mod 4096 = 0" by simp
  then have "(unat x + 0xC0000000) mod 2 ^ 32 mod 4096 = 0" by (simp add: mod_mod_cancel)
  then have "unat (x + PHYS_BASE) mod 4096 = 0" by (simp add: unat_word_ariths PHYS_BASE_def)
  then show ?thesis by (metis frame_def x_def unat_pg_ofs unat_eq_0)
qed

text \<open>Whatever is written to a frame leaves the translation alone.\<close>

lemma frame_write:
  assumes ok: "vm_proc_ok s" and fa: "frames_apart s" and mp: "mapped True s a"
    and eq: "\<And>x. \<not> in_pages (frame s a) 1 x \<Longrightarrow> m' x = vm_mem (pvm s) x"
  shows "same_map s (s\<lparr>pvm := (pvm s)\<lparr>vm_mem := m'\<rparr>\<rparr>)"
proof -
  let ?f = "frame s a" and ?pd = "pagedir s" and ?m = "vm_mem (pvm s)"
  let ?s = "s\<lparr>pvm := (pvm s)\<lparr>vm_mem := m'\<rparr>\<rparr>"
  have ld: "load32 m' (slot pg i) = load32 ?m (slot pg i)" if "pg_ofs pg = 0" "pg \<noteq> ?f" "unat i < 1024" for pg i
  proof (rule load32_page [OF that(1,3)])
    fix x assume "in_pages pg 1 x"
    then have "\<not> in_pages ?f 1 x" using in_pages_unique [OF that(1) frame_aligned] that(2) by auto
    then show "m' x = ?m x" by (rule eq)
  qed
  have pd: "pg_ofs ?pd = 0" "?pd \<noteq> ?f" using pd_ok_pd(3) [OF ok] fa mp by (auto simp: frames_apart_def)
  have d: "load32 m' (slot ?pd i) = load32 ?m (slot ?pd i)" if "unat i < 768" for i using ld [OF pd] that by simp
  have "pte_of (pvm ?s) ?pd u = pte_of (pvm s) ?pd u" if u: "is_user_vaddr u" for u
  proof (cases "load32 ?m (slot ?pd (pd_no u)) = 0")
    case True
    then show ?thesis using d [of "pd_no u"] u by (simp add: pte_of_def user_pd_no)
  next
    case False
    have iu: "unat (pd_no u) < 768" using u by (simp add: user_pd_no)
    obtain pt where pt: "pde_get_pt (load32 ?m (slot ?pd (pd_no u))) = Some pt" "pg_ofs pt = 0" by (rule pd_okD [OF ok iu False])
    have "pt \<noteq> ?f" using fa mp iu False pt(1) by (auto simp: frames_apart_def)
    then show ?thesis using d [OF iu] pt ld [OF pt(2), of "pt_no u"] False by (simp add: pte_of_def)
  qed
  then show ?thesis using d by (simp add: same_map_def)
qed

lemma store_user_ok:
  assumes ok: "vm_proc_ok s" and fa: "frames_apart s" and mp: "mapped True s a"
  obtains s' where "store_user a v s = Some s'" "same_map s s'"
proof -
  let ?m = "(vm_mem (pvm s))(frame s a + pg_ofs a := v)"
  have "in_pages (frame s a) 1 (frame s a + pg_ofs a)" by (simp add: in_pages_def unat_pg_ofs)
  then have "same_map s (s\<lparr>pvm := (pvm s)\<lparr>vm_mem := ?m\<rparr>\<rparr>)" by (intro frame_write [OF ok fa mp]) auto
  moreover have "store_user a v s = Some (s\<lparr>pvm := (pvm s)\<lparr>vm_mem := ?m\<rparr>\<rparr>)"
    using mp by (simp add: store_user_def mapped_def frame_def Let_def)
  ultimately show thesis by (rule that [rotated])
qed

lemma same_map_ok:
  assumes "same_map s s'" "vm_proc_ok s" "kernel_pool (pvm s') = kernel_pool (pvm s)" "vm_ok (pvm s')"
  shows "vm_proc_ok s'"
  using assms unfolding pd_ok_def same_map_def by simp

lemma store_bytes_ok:
  assumes "vm_proc_ok s" "frames_apart s" "\<And>k. k < length bs \<Longrightarrow> mapped True s (p + of_nat k)"
  shows "\<exists>s'. store_bytes p bs s = Some s'"
  using assms
proof (induction bs arbitrary: p s)
  case (Cons b bs)
  have mp: "mapped True s p" using Cons.prems(3) [of 0] by simp
  obtain s1 where s1: "store_user p b s = Some s1" "same_map s s1" by (rule store_user_ok [OF Cons.prems(1,2) mp])
  have v: "kernel_pool (pvm s1) = kernel_pool (pvm s)" "user_pool (pvm s1) = user_pool (pvm s)"
    using s1(1) by (auto simp: store_user_def Let_def split: if_splits)
  have "vm_ok (pvm s1)" using v pd_ok_pd(1) [OF Cons.prems(1)] by (simp add: vm_ok_def)
  then have ok1: "vm_proc_ok s1" using same_map_ok [OF s1(2) Cons.prems(1) v(1)] by simp
  have "mapped True s1 (p + 1 + of_nat k)" if "k < length bs" for k
    using Cons.prems(3) [of "Suc k"] that same_map_mapped [OF s1(2)] by (simp add: add.assoc)
  from Cons.IH [OF ok1 same_map_apart [OF s1(2) Cons.prems(2)] this] s1(1) show ?case by auto
qed simp

subsection \<open>The handler\<close>

text \<open>Reading never yields more than was asked for, and leaves the memory of the process alone.\<close>

lemma block_read_length: "block_read d i = Some (buf, d') \<Longrightarrow> dev_ok d \<Longrightarrow> length buf = 512 \<and> dev_ok d'"
  by (auto simp: block_read_def check_sector_def dev_ok_def split: if_splits)

lemma inode_read_loop_length:
  assumes "inode_read_loop ino sz off b acc s = Some (bs, s')" "dev_ok (dev s)"
  shows "length bs \<le> length acc + nat sz"
  using assms
proof (induction "nat sz" arbitrary: sz off b acc s rule: less_induct)
  case less
  define c where "c = chunk_size ino sz off"
  have cs: "c \<le> sz" by (simp add: c_def chunk_size_def Let_def)
  have step: "length bs \<le> length acc + nat sz"
    if "inode_read_loop ino (sz - c) off' b' (acc @ x) s1 = Some (bs, s')" "length x \<le> nat c" "0 < c" "dev_ok (dev s1)" for off' b' x s1
    using less.hyps [OF _ that(1,4)] that(2,3) cs by simp
  note run = less.prems(1) [unfolded inode_read_loop.simps [of ino sz off]]
  consider "\<not> (sz > 0 \<and> c > 0)" | "sz > 0" "c > 0" "off smod 512 = 0 \<and> c = 512" | "sz > 0" "c > 0" "\<not> (off smod 512 = 0 \<and> c = 512)" by blast
  then show ?case
  proof cases
    case 1
    then show ?thesis using run by (auto simp: c_def [symmetric] split: if_splits)
  next
    case 2
    then obtain buf d where b: "block_read (dev s) (byte_to_sector ino off) = Some (buf, d)"
      "inode_read_loop ino (sz - c) (off + c) b (acc @ buf) (s\<lparr>dev := d\<rparr>) = Some (bs, s')"
      using run by (auto simp: c_def [symmetric] Let_def split: bind_splits)
    then show ?thesis using step [OF b(2)] block_read_length [OF b(1) less.prems(2)] 2 by simp
  next
    case 3
    obtain p s1 where p: "(if b then (1, s) else malloc s) = (p, s1)" by fastforce
    then have dv: "dev s1 = dev s" by (auto simp: malloc_def split: if_splits)
    show ?thesis
    proof (cases "p = 0")
      case True
      then show ?thesis using run 3 p by (simp add: c_def [symmetric])
    next
      case False
      then obtain buf d where b: "block_read (dev s1) (byte_to_sector ino off) = Some (buf, d)"
        "inode_read_loop ino (sz - c) (off + c) True (acc @ take (nat c) (drop (nat (off smod 512)) buf)) (s1\<lparr>dev := d\<rparr>) = Some (bs, s')"
        using run 3 p by (auto simp: c_def [symmetric] Let_def split: bind_splits if_splits)
      then show ?thesis using step [OF b(2)] block_read_length [OF b(1)] less.prems(2) dv 3 by simp
    qed
  qed
qed

lemma read_keys_frame: "read_keys i n s = (j, cs, s') \<Longrightarrow> length cs \<le> n \<and> pvm s' = pvm s \<and> pagedir s' = pagedir s"
  by (auto simp: read_keys_eq Let_def split: if_splits)

lemma fd_read_frame:
  assumes "fd_read n buffer sz s = Some (r, bs, s')" "dev_ok (dev (pfs s))"
  shows "length bs \<le> unat sz \<and> pvm s' = pvm s \<and> pagedir s' = pagedir s"
proof (cases "n = 0 \<and> buffer \<noteq> NULL")
  case True
  obtain j cs s1 where k: "read_keys 0 (unat sz) s = (j, cs, s1)" using prod_cases3 by blast
  then show ?thesis using assms(1) True read_keys_frame [OF k] by (simp add: fd_read_def)
next
  case False
  have le: "nat (sint sz) \<le> unat sz"
  proof (cases "unat sz < 2 ^ 31")
    case True
    then show ?thesis by (simp add: sint_small)
  next
    case ge: False
    then have "sint sz < 0" by (intro sint_negative) (simp add: word_le_nat_alt)
    then show ?thesis by simp
  qed
  have "length bs \<le> unat sz" if "inode_read_loop ino (sint sz) off False [] (pfs s) = Some (bs, k)" for ino off k
    using inode_read_loop_length [OF that assms(2)] le by simp
  then show ?thesis
    using assms(1) False by (auto simp: fd_read_def file_read_def inode_read_at_def split: if_splits option.splits bind_splits)
qed

text \<open>With size 0 the page of the pointer is looked at, unless the pointer is at the beginning of a page.\<close>

lemma check_valid_pointer_some:
  assumes "vm_proc_ok s"
  shows "\<exists>v. check_valid_pointer p n w s = Some v"
proof (cases "n \<noteq> 0 \<or> p = NULL \<or> \<not> is_user_vaddr p")
  case True
  then show ?thesis using check_valid_pointer_total [OF assms, of n p w] by (auto simp: check_valid_pointer_def)
next
  case False
  then have p: "1 \<le> unat p" "unat p < 0xC0000000" by (auto simp: user_vaddr_nat Suc_le_eq unat_gt_0)
  have l: "unat (p - 1) = unat p - 1" using p(1) by (simp add: unat_sub word_le_nat_alt)
  have c: "unat (pg_round_down p) = 4096 * (unat p div 4096)" "unat (pg_round_down (p - 1)) = 4096 * ((unat p - 1) div 4096)"
    by (simp_all add: unat_pg_round_down l minus_mod_eq_mult_div)
  have "(unat p - 1) div 4096 < 786432" using p by (simp add: div_less_iff_less_mult)
  moreover have "unat p div 4096 \<le> (unat p - 1) div 4096 + 1"
  proof -
    have "unat p div 4096 \<le> (unat p - 1 + 4096) div 4096" by (intro div_le_mono) simp
    then show ?thesis by simp
  qed
  ultimately show ?thesis using False check_pages_eq [OF assms c] by (simp add: check_valid_pointer_def)
qed

text \<open>Rules to show that a piece of the handler does not fault.\<close>

lemma if_safe: "(P \<Longrightarrow> x \<noteq> None) \<Longrightarrow> (\<not> P \<Longrightarrow> y \<noteq> None) \<Longrightarrow> (if P then x else y) \<noteq> None"
  by simp

lemma bind_safe: "m \<noteq> None \<Longrightarrow> (\<And>x. m = Some x \<Longrightarrow> f x \<noteq> None) \<Longrightarrow> Option.bind m f \<noteq> None"
  by (cases m) auto

lemma bind_safe2: "m \<noteq> None \<Longrightarrow> (\<And>x y. m = Some (x, y) \<Longrightarrow> f x y \<noteq> None) \<Longrightarrow> Option.bind m (\<lambda>(x, y). f x y) \<noteq> None"
  by (cases m) auto

lemma checked_pointer:
  assumes "vm_proc_ok s" "check_valid_pointer p 4 False s = Some True \<Longrightarrow> k \<noteq> None"
  shows "checked (check_valid_pointer p 4 False s) s k \<noteq> None"
  using check_valid_pointer_total [OF assms(1), of 4 p False] assms(2) by (auto simp: checked_def)

lemma checked_string:
  assumes "vm_proc_ok s" "check_valid_string p s = Some True \<Longrightarrow> k \<noteq> None"
  shows "checked (check_valid_string p s) s k \<noteq> None"
  using check_valid_string_ok [OF assms(1), of p] assms(2) by (auto simp: checked_def)

lemma word_safe:
  assumes "vm_proc_ok s" "check_valid_pointer p 4 False s = Some True" "\<And>v. load_word p s = Some v \<Longrightarrow> f v \<noteq> None"
  shows "Option.bind (load_word p s) f \<noteq> None"
  by (rule load_word_ok [OF assms(1,2)]) (simp add: assms(3))

lemma string_safe:
  assumes "vm_proc_ok s" "check_valid_string p s = Some True" "\<And>cs. string_arg p s = Some cs \<Longrightarrow> f cs \<noteq> None"
  shows "Option.bind (string_arg p s) f \<noteq> None"
  using check_valid_string_ok [OF assms(1), of p] assms(2,3) by auto

lemma read_safe:
  assumes ok: "vm_proc_ok s" "frames_apart s" "dev_ok (dev (pfs s))" and r: "fd_read n buffer sz s \<noteq> None"
  shows "checked (check_valid_pointer buffer sz True s) s (do {
      (r, bs, s) \<leftarrow> fd_read n buffer sz s; s \<leftarrow> store_bytes buffer bs s; Some (Return (Some (word_of_int r)) s) }) \<noteq> None"
proof -
  obtain r bs s1 where f: "fd_read n buffer sz s = Some (r, bs, s1)" using r by auto
  note fr = fd_read_frame [OF f ok(3)]
  obtain v where v: "check_valid_pointer buffer sz True s = Some v" using check_valid_pointer_some [OF ok(1)] by blast
  show ?thesis
  proof (cases v)
    case True
    have "mapped True s1 (buffer + of_nat k)" if "k < length bs" for k
      using checked_range [OF ok(1), of buffer sz True k] v True that fr by (simp add: mapped_def)
    moreover have "vm_proc_ok s1" "frames_apart s1" using ok(1,2) fr by (simp_all add: frames_apart_def frame_def mapped_def)
    ultimately obtain s2 where "store_bytes buffer bs s1 = Some s2" using store_bytes_ok by blast
    then show ?thesis using f v by (simp add: checked_def)
  qed (simp add: checked_def v)
qed

lemma write_safe:
  assumes ok: "vm_proc_ok s" and w: "\<And>bs. load_bytes buffer (unat sz) s = Some bs \<Longrightarrow> fd_write n buffer bs sz s \<noteq> None"
  shows "checked (check_valid_pointer buffer sz False s) s (do {
      bs \<leftarrow> load_bytes buffer (unat sz) s; (r, s) \<leftarrow> fd_write n buffer bs sz s; Some (Return (Some (word_of_int r)) s) }) \<noteq> None"
proof -
  obtain v where v: "check_valid_pointer buffer sz False s = Some v" using check_valid_pointer_some [OF ok] by blast
  show ?thesis
  proof (cases v)
    case True
    obtain bs where "load_bytes buffer (unat sz) s = Some bs"
      using load_bytes_ok [of "unat sz" False s buffer] checked_range [OF ok, of buffer sz False] v True by auto
    then show ?thesis using w [of bs] v by (auto simp: checked_def)
  qed (simp add: checked_def v)
qed

text \<open>
  The only way for a validated call to stop the kernel: the operation it names, on the arguments that the stack of the process
  holds, panics itself.
\<close>

definition operation_fails :: "dir_entry \<Rightarrow> ptr \<Rightarrow> proc \<Rightarrow> bool" where
  "operation_fails garbage args s \<longleftrightarrow>
     (\<exists>name sz. load_word args s = Some SYS_CREATE \<and> string_arg (args + 4) s = Some name \<and> load_word (args + 8) s = Some sz \<and>
        fd_create garbage name sz s = None) \<or>
     (\<exists>name. load_word args s = Some SYS_REMOVE \<and> string_arg (args + 4) s = Some name \<and>
        fd_remove name s = None) \<or>
     (\<exists>name. load_word args s = Some SYS_OPEN \<and> string_arg (args + 4) s = Some name \<and>
        fd_open name s = None) \<or>
     (\<exists>n. load_word args s = Some SYS_FILESIZE \<and> load_word (args + 4) s = Some n \<and>
        fd_filesize (sint n) s = None) \<or>
     (\<exists>n buffer sz. load_word args s = Some SYS_READ \<and> load_word (args + 4) s = Some n \<and> load_word (args + 8) s = Some buffer \<and> load_word (args + 12) s = Some sz \<and>
        fd_read (sint n) buffer sz s = None) \<or>
     (\<exists>n buffer sz bs. load_word args s = Some SYS_WRITE \<and> load_word (args + 4) s = Some n \<and> load_word (args + 8) s = Some buffer \<and> load_word (args + 12) s = Some sz \<and> load_bytes buffer (unat sz) s = Some bs \<and>
        fd_write (sint n) buffer bs sz s = None) \<or>
     (\<exists>n position. load_word args s = Some SYS_SEEK \<and> load_word (args + 4) s = Some n \<and> load_word (args + 8) s = Some position \<and>
        fd_seek (sint n) position s = None) \<or>
     (\<exists>n. load_word args s = Some SYS_TELL \<and> load_word (args + 4) s = Some n \<and>
        fd_tell (sint n) s = None) \<or>
     (\<exists>n. load_word args s = Some SYS_CLOSE \<and> load_word (args + 4) s = Some n \<and>
        fd_close (sint n) s = None)"

lemma operation_safe:
  assumes "\<not> operation_fails garbage args s"
  shows "load_word args s = Some SYS_CREATE \<Longrightarrow> string_arg (args + 4) s = Some name \<Longrightarrow> load_word (args + 8) s = Some sz \<Longrightarrow>
      fd_create garbage name sz s \<noteq> None"
    "load_word args s = Some SYS_REMOVE \<Longrightarrow> string_arg (args + 4) s = Some name \<Longrightarrow>
      fd_remove name s \<noteq> None"
    "load_word args s = Some SYS_OPEN \<Longrightarrow> string_arg (args + 4) s = Some name \<Longrightarrow>
      fd_open name s \<noteq> None"
    "load_word args s = Some SYS_FILESIZE \<Longrightarrow> load_word (args + 4) s = Some n \<Longrightarrow>
      fd_filesize (sint n) s \<noteq> None"
    "load_word args s = Some SYS_READ \<Longrightarrow> load_word (args + 4) s = Some n \<Longrightarrow> load_word (args + 8) s = Some buffer \<Longrightarrow> load_word (args + 12) s = Some sz \<Longrightarrow>
      fd_read (sint n) buffer sz s \<noteq> None"
    "load_word args s = Some SYS_WRITE \<Longrightarrow> load_word (args + 4) s = Some n \<Longrightarrow> load_word (args + 8) s = Some buffer \<Longrightarrow> load_word (args + 12) s = Some sz \<Longrightarrow> load_bytes buffer (unat sz) s = Some bs \<Longrightarrow>
      fd_write (sint n) buffer bs sz s \<noteq> None"
    "load_word args s = Some SYS_SEEK \<Longrightarrow> load_word (args + 4) s = Some n \<Longrightarrow> load_word (args + 8) s = Some position \<Longrightarrow>
      fd_seek (sint n) position s \<noteq> None"
    "load_word args s = Some SYS_TELL \<Longrightarrow> load_word (args + 4) s = Some n \<Longrightarrow>
      fd_tell (sint n) s \<noteq> None"
    "load_word args s = Some SYS_CLOSE \<Longrightarrow> load_word (args + 4) s = Some n \<Longrightarrow>
      fd_close (sint n) s \<noteq> None"
  using assms by (simp_all add: operation_fails_def)

subsection \<open>Properties\<close>

text \<open>
  C15: check_valid_pointer with a size that is not 0 returns, and accepts exactly the ranges that
  start at a non-null address, end below PHYS_BASE and have every byte on a present page, writable
  if asked; every byte of an accepted range can be read.
\<close>

theorem check_valid_pointer_exact:
  assumes "vm_proc_ok s" "n \<noteq> 0"
  shows "\<exists>b. check_valid_pointer p n w s = Some b \<and>
    (b \<longleftrightarrow> p \<noteq> NULL \<and> unat p + unat n \<le> unat PHYS_BASE \<and>
       (\<forall>k < unat n. is_user_page_present (pagedir s) (p + of_nat k) w (pvm s) = Some True)) \<and>
    (b \<longrightarrow> (\<forall>k < unat n. load_user (p + of_nat k) s \<noteq> None))"
proof -
  have pb: "unat PHYS_BASE = 0xC0000000" by (simp add: PHYS_BASE_def)
  have m: "(\<forall>a. unat p \<le> unat a \<and> unat a < unat p + unat n \<longrightarrow> mapped w s a) \<longleftrightarrow>
      (\<forall>k < unat n. is_user_page_present (pagedir s) (p + of_nat k) w (pvm s) = Some True)" (is "?l \<longleftrightarrow> ?r")
    if le: "unat p + unat n \<le> 0xC0000000"
  proof -
    have u: "unat (p + of_nat k) = unat p + k" if "k < unat n" for k
    proof -
      have "unat (of_nat k :: ptr) = k" using that unat_lt_32 [of n] by (simp add: unat_of_nat)
      then show ?thesis using le that by (simp add: unat_plus_no_wrap)
    qed
    have pr: "is_user_page_present (pagedir s) (p + of_nat k) w (pvm s) = Some (mapped w s (p + of_nat k))" if "k < unat n" for k
      using is_user_page_present_eq [OF assms(1)] u [OF that] le that by (simp add: mapped_def user_vaddr_nat)
    have "?l \<longleftrightarrow> (\<forall>k < unat n. mapped w s (p + of_nat k))"
    proof
      assume ?l
      then show "\<forall>k < unat n. mapped w s (p + of_nat k)" using u by simp
    next
      assume r: "\<forall>k < unat n. mapped w s (p + of_nat k)"
      show ?l
      proof (intro allI impI)
        fix a :: ptr assume a: "unat p \<le> unat a \<and> unat a < unat p + unat n"
        then have "unat (p + of_nat (unat a - unat p)) = unat a" using u [of "unat a - unat p"] by simp
        then have "p + of_nat (unat a - unat p) = a" by (simp add: word_unat_eq_iff)
        then show "mapped w s a" using r a by (metis add_diff_cancel_left' diff_less_mono le_add1)
      qed
    qed
    then show ?thesis using pr by simp
  qed
  have "load_user (p + of_nat k) s \<noteq> None" if "check_valid_pointer p n w s = Some True" "k < unat n" for k
    using mapped_load [OF checked_range [OF assms(1) that]] by auto
  then show ?thesis using check_valid_pointer_eq [OF assms, of p w] m unfolding pb by auto
qed

text \<open>
  C4: Whatever stack pointer, pointers and strings a process passes, the validation of the system
  call handler ends and no access to user memory faults: the handler stops the kernel only if the
  operation the call names panics itself on the arguments read from the stack.
\<close>

theorem syscall_pointers_safe:
  assumes "vm_proc_ok s" "frames_apart s" "dev_ok (dev (pfs s))" "syscall_handler garbage args s = None"
  shows "operation_fails garbage args s"
proof (rule ccontr)
  assume "\<not> ?thesis"
  note ops = operation_safe [OF this]
  note ok = assms(1)
  have "syscall_handler garbage args s \<noteq> None"
    unfolding syscall_handler_def
    by (intro if_safe checked_pointer [OF ok] checked_string [OF ok] word_safe [OF ok] string_safe [OF ok]
      read_safe [OF assms(1-3)] write_safe [OF ok] bind_safe2 bind_safe ops option.distinct) (assumption | simp)+
  then show False using assms(4) by simp
qed

text \<open>The process of the descriptor samples has one page, at \<open>0x8048000\<close>, in the frame at \<open>0xC0200000\<close>.\<close>

lemma sample_proc_vm: "vm_proc_ok sample_proc"
  using sample_pd_ok by (simp add: sample_proc_def)

lemma sample_pte_of:
  assumes "is_user_vaddr a"
  shows "pte_of (pvm sample_proc) (pagedir sample_proc) a = (if pg_no a = 0x8048 then 0x200007 else 0)"
proof -
  have "pg_no a = 0x8048 \<longleftrightarrow> pd_no a = 32 \<and> pt_no a = 72"
    using pg_no_eq_iff [of a "0x8048000"] by (simp add: pg_no_def pd_no_def pt_no_def PTMASK_def PGBITS_def)
  then show ?thesis
    using sample_pd_load(1) [of "pd_no a"] sample_pd_load(2) [of "pt_no a"] assms
    by (auto simp: sample_proc_def pte_of_def Let_def sample_entries user_pd_no)
qed

lemma sample_mapped: "mapped w sample_proc a \<longleftrightarrow> pg_no a = 0x8048"
proof -
  have "is_user_vaddr a" if "pg_no a = 0x8048"
  proof -
    have "unat (pg_no a) = 0x8048" using that by simp
    then show ?thesis by (simp add: user_vaddr_page unat_pg_no)
  qed
  then show ?thesis using sample_pte_of [of a] by (auto simp: mapped_def split: if_splits)
qed

lemma sample_frame:
  assumes "mapped w sample_proc a"
  shows "frame sample_proc a = 0xC0200000"
proof -
  have "is_user_vaddr a" using assms by (simp add: mapped_def)
  moreover have "pg_no a = 0x8048" using assms by (simp add: sample_mapped)
  ultimately show ?thesis using sample_pte_of by (simp add: frame_def PTE_ADDR_def PHYS_BASE_def)
qed

lemma sample_apart: "frames_apart sample_proc"
  using sample_frame [of True] sample_pd_load(1) by (auto simp: frames_apart_def sample_proc_def sample_entries split: if_splits)

lemma sample_page_byte: "k < 4096 \<Longrightarrow> pg_no (0x8048000 + of_nat k) = 0x8048"
proof -
  assume k: "k < 4096"
  have "unat (0x8048000 + of_nat k :: ptr) = 0x8048000 + k" using k by (subst unat_plus_no_wrap) (simp_all add: unat_of_nat)
  then have "unat (pg_no (0x8048000 + of_nat k)) = 0x8048" using k by (simp add: unat_pg_no)
  then show ?thesis by (simp add: word_unat_eq_iff)
qed

theorem check_valid_pointer_exact_witness:
  "check_valid_pointer 0x8048FFC 4 True sample_proc = Some True \<and> check_valid_pointer 0x8048FFC 5 False sample_proc = Some False"
proof -
  have in_page: "is_user_page_present (pagedir sample_proc) (0x8048FFC + of_nat k) True (pvm sample_proc) = Some True" if "k < 4" for k
  proof -
    have "mapped True sample_proc (0x8048FFC + of_nat k)"
      using sample_page_byte [of "0xFFC + k"] that unfolding sample_mapped by (simp add: add.assoc [symmetric])
    then show ?thesis using is_user_page_present_eq [OF sample_proc_vm] by (simp add: mapped_def)
  qed
  have "is_user_page_present (pagedir sample_proc) (0x8048FFC + of_nat 4) False (pvm sample_proc) = Some False"
    using sample_present(2) by (simp add: sample_proc_def)
  then have out: "\<not> (\<forall>k < unat (5 :: u32). is_user_page_present (pagedir sample_proc) (0x8048FFC + of_nat k) False (pvm sample_proc) = Some True)"
    by (intro notI) (auto dest!: spec [of _ 4])
  show ?thesis
    using check_valid_pointer_exact [OF sample_proc_vm, of 4 "0x8048FFC" True] check_valid_pointer_exact [OF sample_proc_vm, of 5 "0x8048FFC" False]
      in_page out by (auto simp: PHYS_BASE_def)
qed

text \<open>A process that calls \<open>seek (2, 0x80000000)\<close>.\<close>

definition sample_seek_proc :: proc where
  "sample_seek_proc = sample_proc\<lparr>pvm := (pvm sample_proc)\<lparr>vm_mem :=
     (vm_mem (pvm sample_proc))(0xC0200000 := 11, 0xC0200004 := 2, 0xC020000B := 0x80)\<rparr>\<rparr>"

lemma sample_seek_map: "same_map sample_proc sample_seek_proc"
proof -
  have mp: "mapped True sample_proc 0x8048000" using sample_page_byte [of 0] by (simp add: sample_mapped)
  have "in_pages 0xC0200000 1 0xC0200000" "in_pages 0xC0200000 1 0xC0200004" "in_pages 0xC0200000 1 0xC020000B" by (simp_all add: in_pages_def)
  then show ?thesis unfolding sample_seek_proc_def by (intro frame_write [OF sample_proc_vm sample_apart mp]) (auto simp: sample_frame [OF mp])
qed

lemma sample_seek_vm: "vm_proc_ok sample_seek_proc"
proof (rule same_map_ok [OF sample_seek_map sample_proc_vm])
  show "vm_ok (pvm sample_seek_proc)" using pd_ok_pd(1) [OF sample_proc_vm] by (simp add: sample_seek_proc_def vm_ok_def)
qed (simp add: sample_seek_proc_def)

lemma sample_seek_load:
  assumes "k < 4096"
  shows "load_user (0x8048000 + of_nat k) sample_seek_proc = Some (vm_mem (pvm sample_seek_proc) (0xC0200000 + of_nat k))"
proof -
  have m: "mapped False sample_proc (0x8048000 + of_nat k)" using sample_page_byte [OF assms] by (simp add: sample_mapped)
  then have u: "is_user_vaddr (0x8048000 + of_nat k)" by (simp add: mapped_def)
  have p: "pte_of (pvm sample_seek_proc) (pagedir sample_seek_proc) (0x8048000 + of_nat k) = 0x200007"
    using sample_seek_map u sample_pte_of [OF u] sample_page_byte [OF assms] by (simp add: same_map_def)
  have e: "unat (0x8048000 + of_nat k :: ptr) = k + 0x8048 * 4096" using assms by (subst unat_plus_no_wrap) (simp_all add: unat_of_nat)
  have "unat (pg_ofs (0x8048000 + of_nat k)) = k" unfolding unat_pg_ofs e mod_mult_self1 using assms by (rule mod_less)
  moreover have "unat (of_nat k :: ptr) = k" using assms by (simp add: unat_of_nat)
  ultimately have "unat (pg_ofs (0x8048000 + of_nat k)) = unat (of_nat k :: ptr)" by (simp only:)
  then have "pg_ofs (0x8048000 + of_nat k) = of_nat k" by (simp only: word_unat_eq_iff)
  then show ?thesis using u p by (simp add: load_user_def Let_def PTE_ADDR_def PHYS_BASE_def)
qed

lemma sample_seek_check:
  assumes "k + 4 \<le> 4096"
  shows "check_valid_pointer (0x8048000 + of_nat k) 4 False sample_seek_proc = Some True"
proof -
  have u: "unat (0x8048000 + of_nat k :: ptr) = 0x8048000 + k" using assms by (subst unat_plus_no_wrap) (simp_all add: unat_of_nat)
  have "mapped False sample_seek_proc a" if "0x8048000 + k \<le> unat a" "unat a < 0x8048000 + k + 4" for a
  proof -
    have "unat (pg_no a) = 0x8048" unfolding unat_pg_no by (rule page_index) (use that assms in simp_all)
    then have "pg_no a = 0x8048" by (simp add: word_unat_eq_iff)
    then show ?thesis using same_map_mapped [OF sample_seek_map] by (simp add: sample_mapped)
  qed
  moreover have "0x8048000 + of_nat k \<noteq> NULL" using u by (metis add_is_0 unsigned_0 zero_neq_numeral)
  ultimately show ?thesis using check_valid_pointer_eq [OF sample_seek_vm, of 4 "0x8048000 + of_nat k" False] u assms by simp
qed

lemma sample_seek_mem:
  "vm_mem (pvm sample_seek_proc) a = (if a = 0xC0200000 then 11 else if a = 0xC0200004 then 2 else if a = 0xC020000B then 0x80 else 0)"
  if "0xC0200000 \<le> a"
proof -
  have "vm_mem sample_pd_vm a = 0"
    using that by (simp add: sample_pd_vm_def store32_def) (auto simp: word_le_nat_alt)
  then show ?thesis by (simp add: sample_seek_proc_def sample_proc_def)
qed

lemma sample_seek_word:
  "load_word 0x8048000 sample_seek_proc = Some 11" "load_word 0x8048004 sample_seek_proc = Some 2" "load_word 0x8048008 sample_seek_proc = Some 0x80000000"
proof -
  have b: "load_user (0x8048000 + of_nat k) sample_seek_proc =
      Some (if k = 0 then 11 else if k = 4 then 2 else if k = 11 then 0x80 else 0)" if "k < 12" for k
  proof -
    have "unat (0xC0200000 + of_nat k :: ptr) = 0xC0200000 + k" using that by (subst unat_plus_no_wrap) (simp_all add: unat_of_nat)
    then show ?thesis using sample_seek_load [of k] sample_seek_mem [of "0xC0200000 + of_nat k"] that
      by (simp add: word_le_nat_alt word_unat_eq_iff)
  qed
  show "load_word 0x8048000 sample_seek_proc = Some 11" using b [of 0] b [of 1] b [of 2] b [of 3] by (simp add: load_word_def)
  show "load_word 0x8048004 sample_seek_proc = Some 2" using b [of 4] b [of 5] b [of 6] b [of 7] by (simp add: load_word_def)
  show "load_word 0x8048008 sample_seek_proc = Some 0x80000000" using b [of 8] b [of 9] b [of 10] b [of 11] by (simp add: load_word_def)
qed

theorem syscall_pointers_safe_witness:
  "syscall_handler (replicate 20 0) 0x8048000 sample_seek_proc = None \<and> operation_fails (replicate 20 0) 0x8048000 sample_seek_proc"
proof -
  have f: "fds sample_seek_proc = fds sample_proc" "pfs sample_seek_proc = pfs sample_proc" by (simp_all add: sample_seek_proc_def)
  have "get_file_descriptor 2 (fds sample_seek_proc) = Some 0"
    unfolding f by (rule get_first_descriptor [OF sample_fds(1) _ sample_fds(2)]) simp
  then have s: "fd_seek 2 0x80000000 sample_seek_proc = None" using sint_negative [of "0x80000000"] by (simp add: fd_seek_def file_seek_def)
  have h: "syscall_handler (replicate 20 0) 0x8048000 sample_seek_proc = None"
    using sample_seek_check [of 0] sample_seek_check [of 4] sample_seek_check [of 8] sample_seek_word s
    by (simp add: syscall_handler_def checked_def SYS_PRACTICE_def SYS_HALT_def SYS_EXIT_def SYS_EXEC_def SYS_WAIT_def SYS_CREATE_def SYS_REMOVE_def
      SYS_OPEN_def SYS_FILESIZE_def SYS_READ_def SYS_WRITE_def SYS_SEEK_def)
  have "dev_ok (dev (pfs sample_seek_proc))" using sample_mounted unfolding f by (simp add: sample_proc_def mounted_def fs_ok_def)
  with syscall_pointers_safe [OF sample_seek_vm same_map_apart [OF sample_seek_map sample_apart] _ h] h show ?thesis by blast
qed

end
