(* ===== verification/Spec2Isabelle.thy ===== *)
theory Spec2Isabelle
  imports Klist_Order Kernel_Props Arith64 Syscall
begin

text \<open>
  A verification of the Pintos kernel in \<open>src/pintos/src\<close>: threads, scheduling and priority donation, the libraries
  they stand on, memory management, the file system, and the system calls that processes reach them by.  All file names
  below are relative to that directory.

  \<^bold>\<open>Conventions.\<close>  Machine integers are words of their width (\<open>u8\<close>, \<open>u16\<close>, \<open>u32\<close>, \<open>u64\<close>, \<open>size_t\<close>, \<open>ptr\<close>), signed ones are
  \<open>int\<close> with \<open>wrap32\<close> where the code can overflow.  An operation returns an \<open>option\<close>: \<open>None\<close> is the halted kernel, after a
  failed \<open>ASSERT\<close>, a \<open>PANIC\<close>, a null pointer or a trap.  A loop whose end depends on the contents of memory is a
  \<open>partial_function (option)\<close>, whose \<open>None\<close> is also the loop that does not end; every other loop is a function
  with a termination proof.  No definition has a fuel argument.  State is passed explicitly, in one record per
  component.

  \<^bold>\<open>Libraries.\<close>
  \<^item> \<open>Prelude\<close>: types, the panic monad, lemmas on lists and words.
  \<^item> \<open>Klist\<close>, \<open>Klist_Order\<close>: every function of \<open>lib/kernel/list.c\<close> on a heap of links.  \<open>is_list h l xs\<close> relates a heap to
    the sequence of elements; every operation is shown to return and to act on the sequence.  The locales \<open>list_less\<close> and
    \<open>ptr_less\<close> hold the laws of a comparison function; they are interpreted on \<open>default_list_less_func\<close>.
  \<^item> \<open>Kstring\<close>: \<open>lib/string.c\<close> on a byte memory.
  \<^item> \<open>Bitmap\<close>: \<open>lib/kernel/bitmap.c\<close> on 32-bit elements, abstracted to a list of truth values by \<open>bools\<close>.  The locale
    \<open>bit_allocator\<close> is the contract by which the page allocator and the free map take and give back runs of bits.
  \<^item> \<open>Arith64\<close>: the 64-bit division routines of \<open>lib/arithmetic.c\<close> over the 32-bit divide instruction.

  \<^bold>\<open>Threads.\<close>
  \<^item> \<open>Kernel_State\<close>: thread control blocks, semaphores, locks, lock-priority records and the interrupt level
    (\<open>threads/thread.h\<close>, \<open>threads/synch.h\<close>, \<open>threads/interrupt.h\<close>).  A kernel list is the sequence of its elements here.
    The rest of a function after a call that may switch threads is a frame on the stack of the thread.
  \<^item> \<open>Scheduler\<close>, \<open>Threads\<close>: \<open>threads/thread.c\<close>, the interrupt level and \<open>intr_handler\<close> of \<open>threads/interrupt.c\<close>, the
    sleeping and the interrupt of \<open>devices/timer.c\<close>.
  \<^item> \<open>Synch\<close>: \<open>threads/synch.c\<close>, with recursive priority donation.
  \<^item> \<open>Kernel_Run\<close>: the step relation.  The running thread continues a suspended call or calls a kernel function, and a
    timer interrupt comes between steps whenever interrupts are enabled; code with interrupts disabled lies within one
    step.  The steps that also hold code with interrupts enabled, which the machine could interrupt half-way, are
    listed in that theory.
  \<^item> \<open>Kernel_Inv\<close>, \<open>Kernel_Locks\<close>: the invariant of the queues and mutual exclusion of locks, kept by every step.
  \<^item> \<open>Kernel_Props\<close>: what holds in all reachable states, what yielding, the timer tick, donation and release do, and where
    the synchronisation primitives panic.

  \<^bold>\<open>Memory.\<close>
  \<^item> \<open>Vaddr\<close>: \<open>threads/vaddr.h\<close> and \<open>threads/pte.h\<close>.
  \<^item> \<open>Palloc\<close>: \<open>threads/palloc.c\<close>; allocated pages were free, no other byte changes, freeing restores the pool.
  \<^item> \<open>Pagedir\<close>: \<open>userprog/pagedir.c\<close> and \<open>paging_init\<close> on the bytes of the page tables; mapping, unmapping and the dirty and
    accessed bits affect one page only, and destroying a directory frees exactly its pages.

  \<^bold>\<open>File system.\<close>
  \<^item> \<open>Block\<close>: \<open>devices/block.c\<close>; a device is a sequence of sectors.
  \<^item> \<open>Inode\<close>, \<open>Freemap\<close>: \<open>filesys/inode.c\<close>, \<open>filesys/file.c\<close> and \<open>filesys/free-map.c\<close>; sector-wise reading and writing
    refine the byte sequence of an inode, and allocation takes free sectors only.
  \<^item> \<open>Directory\<close>: \<open>filesys/directory.c\<close>, refined to a map from names to sectors.
  \<^item> \<open>Filesys\<close>: \<open>filesys/filesys.c\<close>; creating a file keeps the file system consistent (\<open>mounted\<close>) and all other files
    as they are.

  \<^bold>\<open>Processes.\<close>
  \<^item> \<open>Descriptor\<close>: \<open>userprog/descriptor.c\<close>, the page of file descriptors and the operations on it.
  \<^item> \<open>Syscall\<close>: \<open>userprog/syscall.c\<close>, from the stack pointer of a process to the operation that the call names, with user
    memory read and written through the page directory.

  \<^bold>\<open>What the parts take as given.\<close>
  \<^item> The outcome of the \<open>n\<close>-th \<open>malloc\<close> is a parameter (\<open>malloc_ok\<close>); a theorem that needs every one to succeed says so by
    the hypothesis \<open>memory_ok\<close>.  Parameters are also the characters typed (\<open>keys\<close>) and the
    uninitialised stack memory that \<open>dir_add\<close> copies to disk (\<open>garbage\<close>).
  \<^item> The operations of the page allocator, of the file system and of the file descriptors are one step each.  In the code a
    lock is held meanwhile: that of the pool, or \<open>filesys_lock\<close>, whose mutual exclusion is shown in \<open>Kernel_Locks\<close>.  The
    two halves are not joined into one transition system.
  \<^item> The step relation asks of callers that no semaphore or lock is initialised while it is in use and that the page of a
    new thread is free.

  \<^bold>\<open>What the proofs show to be wrong.\<close>  \<open>get_file_descriptor\<close> ignores the descriptor it is given; the loops over the descriptors overrun the page; a process stops the kernel by a position or size
  of 2 GB; reading from the keyboard can report one character too many; \<open>filesys_create\<close> leaks sectors when the name exists or is invalid;
  when memory is short, \<open>dir_add\<close> overlooks entries and can overwrite one, because \<open>inode_read_at\<close> then reads less than it is asked to;
  a lock taken by \<open>lock_try_acquire\<close> cannot be released while donation is enabled; \<open>sema_up\<close> panics in an interrupt handler
  when it wakes a more important thread; 64-bit remainders are cut to 32 bits.

  \<^bold>\<open>Not modelled.\<close>  Loading, starting and waiting for processes (\<open>userprog/process.c\<close>), which runs user code;
  the small-block allocator \<open>threads/malloc.c\<close>, seen through its outcome; \<open>lib/kernel/hash.c\<close>, \<open>lib/stdlib.c\<close>,
  \<open>lib/random.c\<close> and \<open>threads/fixed-point.h\<close>, which no modelled part calls; formatted output and the
  console; drivers and tables of the hardware (\<open>devices/ide.c\<close>, \<open>userprog/gdt.c\<close> and the like); option parsing and
  the order of initialisation in \<open>threads/init.c\<close>; the calibration and busy waiting of \<open>devices/timer.c\<close>; assembly; user
  programs, their library, and the tools of the host.
\<close>

end
